(* ===== verification/Vayu_Prelude.thy ===== *)
theory Vayu_Prelude
  imports Main "HOL-Library.AList" "HOL-Library.Char_ord" "HOL-Library.List_Lexorder"
    "HOL-Library.Product_Lexorder"
begin

text \<open>
  Shared vocabulary of the development: Go's time values and 64-bit durations, Go's maps as
  association lists, the functions of the packages strings and strconv that the modelled code
  calls, and the generic lemmas the component theories use.

  Conventions.
  \<^item> A time.Time is the number of nanoseconds since Go's zero time, so the zero time is 0 and
    IsZero, Before, After and Equal are the comparisons of int. Sub saturates at the range of a
    Duration, as the package documents.
  \<^item> A time.Duration is an int that stands for an int64; where an operation can leave the range
    (the shift of a lockout wait) the wrap-around is written out.
  \<^item> A Go map is an association list with distinct keys. The order of the list is one order in
    which a range loop may visit the map; the theorems hold for every such list.
  \<^item> A Go string is a list of bytes, so a char here is one byte. TrimSpace removes every white
    space rune of unicode.IsSpace, written as its UTF-8 bytes. ToLower, ToUpper and EqualFold are
    those of ASCII: bytes from 128 on are left alone.
\<close>

named_theorems gomap_simps "facts on maps represented as association lists"
named_theorems str_defs "definitions of the string library"

section \<open>Time\<close>

type_synonym time = int
type_synonym dur = int

definition zero_time :: time where
  "zero_time = 0"

definition max_dur :: dur where
  "max_dur = 2 ^ 63 - 1"

definition min_dur :: dur where
  "min_dur = - (2 ^ 63)"

definition time_sub :: "time \<Rightarrow> time \<Rightarrow> dur" where
  "time_sub t u = max min_dur (min max_dur (t - u))"

definition millisecond :: dur where
  "millisecond = 1000000"

definition second :: dur where
  "second = 1000000000"

definition minute :: dur where
  "minute = 60000000000"

definition hour :: dur where
  "hour = 3600000000000"

lemmas dur_defs = millisecond_def second_def minute_def hour_def max_dur_def min_dur_def

text \<open>Shift of an int64: bits beyond the width are lost and the sign bit is read back.\<close>

definition wrap64 :: "int \<Rightarrow> int" where
  "wrap64 x = (x + 2 ^ 63) mod 2 ^ 64 - 2 ^ 63"

definition dur_shl :: "dur \<Rightarrow> nat \<Rightarrow> dur" where
  "dur_shl d n = wrap64 (d * 2 ^ n)"

lemma wrap64_id: "- (2 ^ 63) \<le> x \<Longrightarrow> x < 2 ^ 63 \<Longrightarrow> wrap64 x = x"
  by (simp add: wrap64_def)

lemma wrap64_zero_multiple: "2 ^ 64 dvd x \<Longrightarrow> wrap64 x = 0"
proof -
  assume "2 ^ 64 dvd x"
  then obtain k where "x = 2 ^ 64 * k" by (rule dvdE)
  then show ?thesis by (simp add: wrap64_def)
qed

text \<open>Integer division of Go truncates towards zero.\<close>

definition go_quot :: "int \<Rightarrow> int \<Rightarrow> int" where
  "go_quot x y = (let q = \<bar>x\<bar> div \<bar>y\<bar> in if (x < 0) = (y < 0) then q else - q)"

lemma go_quot_nonneg: "0 \<le> x \<Longrightarrow> 0 < y \<Longrightarrow> go_quot x y = x div y"
  by (simp add: go_quot_def)

lemma time_sub_exact:
  "min_dur \<le> t - u \<Longrightarrow> t - u \<le> max_dur \<Longrightarrow> time_sub t u = t - u"
  by (simp add: time_sub_def)

lemma time_sub_less_iff:
  "- (2 ^ 63) < d \<Longrightarrow> d \<le> 2 ^ 63 - 1 \<Longrightarrow> time_sub t u < d \<longleftrightarrow> t - u < d"
  by (auto simp: time_sub_def dur_defs max_def min_def)

lemma time_sub_greater_iff:
  "- (2 ^ 63) \<le> d \<Longrightarrow> d < 2 ^ 63 - 1 \<Longrightarrow> time_sub t u > d \<longleftrightarrow> t - u > d"
  by (auto simp: time_sub_def dur_defs max_def min_def)

section \<open>Maps\<close>

type_synonym ('k, 'v) gomap = "('k \<times> 'v) list"

abbreviation map_get :: "('k, 'v) gomap \<Rightarrow> 'k \<Rightarrow> 'v option" where
  "map_get m k \<equiv> map_of m k"

abbreviation map_put :: "'k \<Rightarrow> 'v \<Rightarrow> ('k, 'v) gomap \<Rightarrow> ('k, 'v) gomap" where
  "map_put k v m \<equiv> AList.update k v m"

abbreviation map_del :: "'k \<Rightarrow> ('k, 'v) gomap \<Rightarrow> ('k, 'v) gomap" where
  "map_del k m \<equiv> AList.delete k m"

definition get_or :: "'v \<Rightarrow> ('k, 'v) gomap \<Rightarrow> 'k \<Rightarrow> 'v" where
  "get_or d m k = (case map_of m k of None \<Rightarrow> d | Some v \<Rightarrow> v)"

abbreviation gomap_ok :: "('k, 'v) gomap \<Rightarrow> bool" where
  "gomap_ok m \<equiv> distinct (map fst m)"

lemma map_get_put [gomap_simps]: "map_get (map_put k v m) x = (if x = k then Some v else map_get m x)"
  by (simp add: update_conv')

lemma map_get_del [gomap_simps]: "map_get (map_del k m) x = (if x = k then None else map_get m x)"
  by (simp add: delete_conv')

lemma get_or_put [gomap_simps]: "get_or d (map_put k v m) x = (if x = k then v else get_or d m x)"
  by (simp add: get_or_def map_get_put)

lemma get_or_del [gomap_simps]: "get_or d (map_del k m) x = (if x = k then d else get_or d m x)"
  by (simp add: get_or_def map_get_del)

lemma get_or_Nil [simp]: "get_or d [] x = d"
  by (simp add: get_or_def)

lemma gomap_ok_put [simp, intro]: "gomap_ok m \<Longrightarrow> gomap_ok (map_put k v m)"
  by (rule distinct_update)

lemma gomap_ok_del [simp, intro]: "gomap_ok m \<Longrightarrow> gomap_ok (map_del k m)"
  by (rule distinct_delete)

lemma gomap_ok_filter [simp, intro]: "gomap_ok m \<Longrightarrow> gomap_ok (filter P m)"
  by (rule distinct_map_filter)

lemma length_map_put:
  "length (map_put k v m) = (if map_get m k = None then Suc (length m) else length m)"
  by (induction m) auto

lemma length_map_put_le: "length (map_put k v m) \<le> Suc (length m)"
  by (simp add: length_map_put)

lemma length_map_del_le: "length (map_del k m) \<le> length m"
  by (simp add: AList.delete_eq)

lemma length_map_del:
  "gomap_ok m \<Longrightarrow> length (map_del k m) = (if map_get m k = None then length m else length m - 1)"
proof (induction m)
  case Nil
  then show ?case by simp
next
  case (Cons p m)
  obtain a b where p: "p = (a, b)" by (cases p)
  show ?case
  proof (cases "a = k")
    case True
    with Cons.prems p have "k \<notin> fst ` set m" by auto
    then have "map_del k m = m" by (simp add: delete_idem)
    with True p show ?thesis by simp
  next
    case False
    with Cons p have "length (map_del k m) = (if map_get m k = None then length m else length m - 1)"
      by simp
    moreover have "map_get m k \<noteq> None \<Longrightarrow> 0 < length m" by (cases m) auto
    ultimately show ?thesis using False p by auto
  qed
qed

lemma map_get_filter:
  "gomap_ok m \<Longrightarrow>
   map_get (filter P m) k = (case map_get m k of None \<Rightarrow> None | Some v \<Rightarrow> if P (k, v) then Some v else None)"
proof (induction m)
  case Nil
  then show ?case by simp
next
  case (Cons p m)
  obtain a b where p: "p = (a, b)" by (cases p)
  show ?case
  proof (cases "a = k")
    case True
    with Cons.prems p have "map_of m k = None" by (simp add: map_of_eq_None_iff)
    moreover from Cons have "map_of (filter P m) k =
        (case map_of m k of None \<Rightarrow> None | Some v \<Rightarrow> if P (k, v) then Some v else None)"
      by simp
    ultimately show ?thesis using True p by simp
  next
    case False
    with Cons p show ?thesis by simp
  qed
qed

lemma set_map_put: "set (map_put k v m) \<subseteq> insert (k, v) (set m)"
  by (induction m) auto

lemma set_map_del: "set (map_del k m) \<subseteq> set m"
  by (auto simp: AList.delete_eq)

lemma map_get_Some_in_set: "map_get m k = Some v \<Longrightarrow> (k, v) \<in> set m"
  by (rule map_of_SomeD)

lemma map_get_iff_in_set: "gomap_ok m \<Longrightarrow> map_get m k = Some v \<longleftrightarrow> (k, v) \<in> set m"
  by (simp add: map_of_eq_Some_iff)

section \<open>Strings\<close>

definition in_range_c :: "nat \<Rightarrow> nat \<Rightarrow> char \<Rightarrow> bool" where
  "in_range_c lo hi c \<longleftrightarrow> lo \<le> of_char c \<and> (of_char c :: nat) \<le> hi"

definition lower_c :: "char \<Rightarrow> char" where
  "lower_c c = (if in_range_c 65 90 c then char_of (of_char c + 32 :: nat) else c)"

definition upper_c :: "char \<Rightarrow> char" where
  "upper_c c = (if in_range_c 97 122 c then char_of (of_char c - 32 :: nat) else c)"

definition to_lower :: "string \<Rightarrow> string" where
  "to_lower s = map lower_c s"

definition to_upper :: "string \<Rightarrow> string" where
  "to_upper s = map upper_c s"

definition equal_fold :: "string \<Rightarrow> string \<Rightarrow> bool" where
  "equal_fold a b \<longleftrightarrow> to_lower a = to_lower b"

text \<open>The runes of unicode.IsSpace, each as its UTF-8 bytes.\<close>

definition space_runes :: "string list" where
  "space_runes =
     [[CHR 0x09], [CHR 0x0A], [CHR 0x0B], [CHR 0x0C], [CHR 0x0D], [CHR 0x20],
      [CHR 0xC2, CHR 0x85], [CHR 0xC2, CHR 0xA0], [CHR 0xE1, CHR 0x9A, CHR 0x80],
      [CHR 0xE2, CHR 0x80, CHR 0x80], [CHR 0xE2, CHR 0x80, CHR 0x81], [CHR 0xE2, CHR 0x80, CHR 0x82],
      [CHR 0xE2, CHR 0x80, CHR 0x83], [CHR 0xE2, CHR 0x80, CHR 0x84], [CHR 0xE2, CHR 0x80, CHR 0x85],
      [CHR 0xE2, CHR 0x80, CHR 0x86], [CHR 0xE2, CHR 0x80, CHR 0x87], [CHR 0xE2, CHR 0x80, CHR 0x88],
      [CHR 0xE2, CHR 0x80, CHR 0x89], [CHR 0xE2, CHR 0x80, CHR 0x8A], [CHR 0xE2, CHR 0x80, CHR 0xA8],
      [CHR 0xE2, CHR 0x80, CHR 0xA9], [CHR 0xE2, CHR 0x80, CHR 0xAF], [CHR 0xE2, CHR 0x81, CHR 0x9F],
      [CHR 0xE3, CHR 0x80, CHR 0x80]]"

fun has_prefix :: "'a list \<Rightarrow> 'a list \<Rightarrow> bool" where
  "has_prefix s [] = True"
| "has_prefix [] (p # ps) = False"
| "has_prefix (c # s) (p # ps) = (c = p \<and> has_prefix s ps)"

text \<open>Length of the white space rune at the front, 0 when there is none.\<close>

fun prefix_len :: "string list \<Rightarrow> string \<Rightarrow> nat" where
  "prefix_len [] s = 0"
| "prefix_len (r # rs) s = (if r \<noteq> [] \<and> has_prefix s r then length r else prefix_len rs s)"

lemma prefix_len_le: "prefix_len rs s \<le> length s"
proof (induction rs)
  case Nil
  then show ?case by simp
next
  case (Cons r rs)
  have "has_prefix s r \<Longrightarrow> length r \<le> length s"
    by (induction s r rule: has_prefix.induct) auto
  with Cons show ?case by simp
qed

function trim_front :: "string list \<Rightarrow> string \<Rightarrow> string" where
  "trim_front rs s = (if prefix_len rs s = 0 then s else trim_front rs (drop (prefix_len rs s) s))"
  by pat_completeness auto
termination
proof (relation "measure (\<lambda>(rs, s). length s)", goal_cases)
  case 1
  show ?case by simp
next
  case (2 rs s)
  then show ?case using prefix_len_le [of rs s] by simp
qed

declare trim_front.simps [simp del]

definition trim_space :: "string \<Rightarrow> string" where
  "trim_space s = rev (trim_front (map rev space_runes) (rev (trim_front space_runes s)))"

definition trim_suffix :: "string \<Rightarrow> string \<Rightarrow> string" where
  "trim_suffix s suf = (if has_prefix (rev s) (rev suf) then take (length s - length suf) s else s)"

fun contains_sub :: "string \<Rightarrow> string \<Rightarrow> bool" where
  "contains_sub [] sub = (sub = [])"
| "contains_sub (c # s) sub = (has_prefix (c # s) sub \<or> contains_sub s sub)"

text \<open>strings.Split on a one-byte separator, and strings.Fields on ASCII white space.\<close>

fun split_ch :: "char \<Rightarrow> string \<Rightarrow> string list" where
  "split_ch c [] = [[]]"
| "split_ch c (x # xs) =
     (if x = c then [] # split_ch c xs
      else (case split_ch c xs of [] \<Rightarrow> [[x]] | w # ws \<Rightarrow> (x # w) # ws))"

fun join_str :: "string \<Rightarrow> string list \<Rightarrow> string" where
  "join_str sep [] = []"
| "join_str sep [w] = w"
| "join_str sep (w # ws) = w @ sep @ join_str sep ws"

text \<open>strconv.Atoi: an optional sign and at least one decimal digit, within int64.\<close>

definition digit_val :: "char \<Rightarrow> nat option" where
  "digit_val c = (if in_range_c 48 57 c then Some (of_char c - 48) else None)"

fun digits_val :: "nat \<Rightarrow> string \<Rightarrow> nat option" where
  "digits_val acc [] = Some acc"
| "digits_val acc (c # s) =
     (case digit_val c of None \<Rightarrow> None | Some d \<Rightarrow> digits_val (10 * acc + d) s)"

definition unsigned_val :: "string \<Rightarrow> nat option" where
  "unsigned_val s = (if s = [] then None else digits_val 0 s)"

definition in_int64 :: "int \<Rightarrow> bool" where
  "in_int64 i \<longleftrightarrow> - (2 ^ 63) \<le> i \<and> i < 2 ^ 63"

definition atoi :: "string \<Rightarrow> int option" where
  "atoi s =
     (let (neg, ds) = (case s of
            [] \<Rightarrow> (False, [])
          | c # r \<Rightarrow> if c = CHR ''-'' then (True, r) else if c = CHR ''+'' then (False, r) else (False, s))
      in case unsigned_val ds of
           None \<Rightarrow> None
         | Some n \<Rightarrow> (let i = (if neg then - int n else int n) in if in_int64 i then Some i else None))"

text \<open>strconv.Itoa and the %d verb.\<close>

fun nat_digits :: "nat \<Rightarrow> string" where
  "nat_digits n = (if n < 10 then [char_of (48 + n)] else nat_digits (n div 10) @ [char_of (48 + n mod 10)])"

declare nat_digits.simps [simp del]

definition itoa :: "int \<Rightarrow> string" where
  "itoa i = (if i < 0 then CHR ''-'' # nat_digits (nat (- i)) else nat_digits (nat i))"

section \<open>Generic lemmas\<close>

lemma distinct_map_neq: "distinct (map f (r # rs)) \<Longrightarrow> x \<in> set rs \<Longrightarrow> f x \<noteq> f r"
  by (metis distinct.simps(2) image_eqI list.set_map list.simps(9))

lemma equal_fold_refl [simp]: "equal_fold s s"
  by (simp add: equal_fold_def)

lemma equal_fold_sym: "equal_fold s t \<longleftrightarrow> equal_fold t s"
  by (auto simp: equal_fold_def)

lemma equal_fold_trans: "equal_fold s t \<Longrightarrow> equal_fold t u \<Longrightarrow> equal_fold s u"
  by (simp add: equal_fold_def)

lemma to_lower_idem [simp]: "to_lower (to_lower s) = to_lower s"
proof -
  have "lower_c (lower_c c) = lower_c c" for c
    by (simp add: lower_c_def in_range_c_def)
  then show ?thesis by (simp add: to_lower_def)
qed

lemma to_upper_idem [simp]: "to_upper (to_upper s) = to_upper s"
proof -
  have "upper_c (upper_c c) = upper_c c" for c
    by (auto simp: upper_c_def in_range_c_def)
  then show ?thesis by (simp add: to_upper_def)
qed

section \<open>Decimal numbers\<close>

lemma nat_digits_digit: "c \<in> set (nat_digits n) \<Longrightarrow> in_range_c 48 57 c"
proof (induction n rule: nat_digits.induct)
  case (1 n)
  have d: "in_range_c 48 57 (char_of (48 + k :: nat))" if "k < 10" for k :: nat
    using that by (auto simp: in_range_c_def)
  have "n mod 10 < 10" by simp
  note d [OF this]
  with 1 d [of n] show ?case by (subst (asm) nat_digits.simps) (auto split: if_splits)
qed

lemma nat_digits_value: "digits_val a (nat_digits n) = Some (a * 10 ^ length (nat_digits n) + n)"
proof (induction n arbitrary: a rule: nat_digits.induct)
  case (1 n)
  have dv: "digit_val (char_of (48 + k :: nat)) = Some k" if "k < 10" for k
    using that by (auto simp: digit_val_def in_range_c_def)
  have app: "digits_val a (xs @ [c]) = (case digits_val a xs of None \<Rightarrow> None | Some v \<Rightarrow>
      (case digit_val c of None \<Rightarrow> None | Some d \<Rightarrow> Some (10 * v + d)))" for a xs c
    by (induction xs arbitrary: a) (auto split: option.splits)
  show ?case
  proof (cases "n < 10")
    case True
    then show ?thesis using dv [of n] by (subst (1 2) nat_digits.simps) simp
  next
    case False
    have d: "digit_val (char_of (48 + n mod 10 :: nat)) = Some (n mod 10)" by (rule dv) simp
    have nd: "nat_digits n = nat_digits (n div 10) @ [char_of (48 + n mod 10)]"
      using False by (subst nat_digits.simps) simp
    define l :: nat where "l = 10 ^ length (nat_digits (n div 10))"
    have "digits_val a (nat_digits n) = Some (10 * (a * l + n div 10) + n mod 10)"
      unfolding nd app 1 [OF False] l_def d by simp
    also have "10 * (a * l + n div 10) + n mod 10 = a * (10 * l) + n" by (simp add: distrib_left)
    also have "10 * l = 10 ^ length (nat_digits n)" unfolding nd l_def by simp
    finally show ?thesis .
  qed
qed

lemma nat_digits_inj: "nat_digits m = nat_digits n \<Longrightarrow> m = n"
proof -
  assume "nat_digits m = nat_digits n"
  then have "Some m = Some n"
    using nat_digits_value [of 0 m] nat_digits_value [of 0 n] by (simp only: mult_zero_left add_0)
  then show ?thesis by simp
qed

lemma nat_digits_ne: "nat_digits n \<noteq> []"
  by (subst nat_digits.simps) simp

lemma itoa_inj: "itoa a = itoa b \<Longrightarrow> a = b"
proof -
  assume eq: "itoa a = itoa b"
  have neg: "nat_digits n \<noteq> CHR ''-'' # s" for n s
  proof
    assume "nat_digits n = CHR ''-'' # s"
    then have "in_range_c 48 57 (CHR ''-'')" using nat_digits_digit [of "CHR ''-''" n] by simp
    then show False by (simp add: in_range_c_def)
  qed
  show ?thesis
    using eq neg neg [THEN not_sym] by (auto simp: itoa_def split: if_splits dest!: nat_digits_inj)
qed

lemma itoa_digits: "\<not> in_range_c 48 57 c \<Longrightarrow> c \<noteq> CHR ''-'' \<Longrightarrow> c \<notin> set (itoa i)"
  using nat_digits_digit [of c] by (auto simp: itoa_def)

lemma split_at_inj: "x \<notin> set a \<Longrightarrow> x \<notin> set b \<Longrightarrow> a @ x # c = b @ x # d \<longleftrightarrow> a = b \<and> c = d"
proof (induction a arbitrary: b)
  case Nil
  then show ?case by (cases b) auto
next
  case (Cons y a)
  then show ?case by (cases b) auto
qed

end
