(* ===== verification/Severity.thy ===== *)
theory Severity
  imports Vayu_Prelude
begin

text \<open>
  The operational severity taxonomy (src/internal/severity/severity.go): the seven ordered levels,
  the registry indexed by level, and the parse and print functions. A Level is an int in the
  source and an out-of-range value is handled by Meta, so it is an int here. The prose columns of
  the registry (Meaning, OperatorExpect, Escalation, PolicyInteraction) are text for the console
  and are left out of the record.
\<close>

type_synonym level = int

definition Observe :: level where "Observe = 0"
definition Notice :: level where "Notice = 1"
definition Warn :: level where "Warn = 2"
definition Violation :: level where "Violation = 3"
definition Escalation :: level where "Escalation = 4"
definition Containment :: level where "Containment = 5"
definition Critical :: level where "Critical = 6"

lemmas level_defs = Observe_def Notice_def Warn_def Violation_def Escalation_def Containment_def
  Critical_def

record meta =
  meta_level :: level
  meta_name :: string
  meta_rank :: int
  meta_timeline :: string
  meta_color :: string

definition sev_registry :: "meta list" where
  "sev_registry =
    [\<lparr>meta_level = Observe, meta_name = ''OBSERVE'', meta_rank = 0,
      meta_timeline = ''tl-info'', meta_color = ''#64748b''\<rparr>,
     \<lparr>meta_level = Notice, meta_name = ''NOTICE'', meta_rank = 1,
      meta_timeline = ''tl-info'', meta_color = ''#06b6d4''\<rparr>,
     \<lparr>meta_level = Warn, meta_name = ''WARN'', meta_rank = 2,
      meta_timeline = ''tl-warn'', meta_color = ''#f59e0b''\<rparr>,
     \<lparr>meta_level = Violation, meta_name = ''VIOLATION'', meta_rank = 3,
      meta_timeline = ''tl-warn'', meta_color = ''#8b5cf6''\<rparr>,
     \<lparr>meta_level = Escalation, meta_name = ''ESCALATION'', meta_rank = 4,
      meta_timeline = ''tl-err'', meta_color = ''#f97316''\<rparr>,
     \<lparr>meta_level = Containment, meta_name = ''CONTAINMENT'', meta_rank = 5,
      meta_timeline = ''tl-err'', meta_color = ''#ef4444''\<rparr>,
     \<lparr>meta_level = Critical, meta_name = ''CRITICAL'', meta_rank = 6,
      meta_timeline = ''tl-err'', meta_color = ''#b91c1c''\<rparr>]"

text \<open>Level.Meta, Level.String, Level.TimelineClass and Level.AtLeast.\<close>

definition level_meta :: "level \<Rightarrow> meta" where
  "level_meta l =
     (if l < 0 \<or> l \<ge> int (length sev_registry) then sev_registry ! nat Observe
      else sev_registry ! nat l)"

definition level_string :: "level \<Rightarrow> string" where
  "level_string l = meta_name (level_meta l)"

definition timeline_class :: "level \<Rightarrow> string" where
  "timeline_class l = meta_timeline (level_meta l)"

definition at_least :: "level \<Rightarrow> level \<Rightarrow> bool" where
  "at_least l threshold \<longleftrightarrow> l \<ge> threshold"

text \<open>Parse: the loop over the registry, the first entry with the upper-cased trimmed name.\<close>

fun find_level :: "meta list \<Rightarrow> string \<Rightarrow> level \<times> bool" where
  "find_level [] up = (Observe, False)"
| "find_level (m # ms) up = (if meta_name m = up then (meta_level m, True) else find_level ms up)"

definition sev_parse :: "string \<Rightarrow> level \<times> bool" where
  "sev_parse name = find_level sev_registry (to_upper (trim_space name))"

definition all_meta :: "meta list" where
  "all_meta = sev_registry"

section \<open>The registry is indexed by level\<close>

lemma registry_index:
  "i < length sev_registry \<Longrightarrow> meta_level (sev_registry ! i) = int i \<and> meta_rank (sev_registry ! i) = int i"
  by (auto simp: sev_registry_def level_defs nth_Cons' split: if_splits)

lemma registry_names_distinct: "distinct (map meta_name sev_registry)"
  by (simp add: sev_registry_def)

lemma find_level_nth:
  assumes "distinct (map meta_name ms)" and "i < length ms"
  shows "find_level ms (meta_name (ms ! i)) = (meta_level (ms ! i), True)"
  using assms
proof (induction ms arbitrary: i)
  case Nil
  then show ?case by simp
next
  case (Cons m ms)
  show ?case
  proof (cases i)
    case 0
    then show ?thesis by simp
  next
    case (Suc j)
    with Cons.prems have "meta_name (ms ! j) \<in> set (map meta_name ms)" by auto
    with Cons.prems have "meta_name (ms ! j) \<noteq> meta_name m" by auto
    with Suc Cons show ?thesis by simp
  qed
qed

lemma find_level_unknown: "up \<notin> set (map meta_name ms) \<Longrightarrow> find_level ms up = (Observe, False)"
  by (induction ms) auto

lemma level_string_names: "level_string l \<in> set (map meta_name sev_registry)"
proof (cases "l < 0 \<or> l \<ge> int (length sev_registry)")
  case True
  then show ?thesis
    by (simp add: level_string_def level_meta_def) (simp add: sev_registry_def level_defs)
next
  case False
  then have "nat l < length sev_registry" by auto
  with False show ?thesis by (simp add: level_string_def level_meta_def)
qed

text \<open>The parse of a printed level, whatever the case and the surrounding white space.\<close>

lemma sev_parse_string:
  assumes "0 \<le> l" and "l \<le> Critical" and "to_upper (trim_space s) = level_string l"
  shows "sev_parse s = (l, True)"
proof -
  have len: "nat l < length sev_registry"
    using assms(1,2) by (simp add: sev_registry_def level_defs)
  then have "level_string l = meta_name (sev_registry ! nat l)"
    using assms(1) by (simp add: level_string_def level_meta_def)
  with assms(3) have "sev_parse s = (meta_level (sev_registry ! nat l), True)"
    by (simp add: sev_parse_def find_level_nth [OF registry_names_distinct len])
  with registry_index [OF len] assms(1) show ?thesis by simp
qed

end
