(* ===== verification/Mode.thy ===== *)
theory Mode
  imports Vayu_Prelude
begin

text \<open>
  The system mode state machine and its journal (src/internal/mode/mode.go and journal.go).
  A Mode is a string in the source; the six constants are constructors here and any other string
  is \<open>Unknown\<close>. A hook is a function on the world \<open>'w\<close> outside the manager (the journal's table, the
  console's log), so the manager's operations thread that world. The manager's mutex makes each
  operation atomic, so a concurrent run is a sequence of these operations.
\<close>

datatype mode = ModeNormal | ModeDegraded | ModeReadOnly | ModeRecovery | ModeMaintenance
  | ModeQuarantined | Unknown string

fun mode_string :: "mode \<Rightarrow> string" where
  "mode_string ModeNormal = ''normal''"
| "mode_string ModeDegraded = ''degraded''"
| "mode_string ModeReadOnly = ''read-only''"
| "mode_string ModeRecovery = ''recovery''"
| "mode_string ModeMaintenance = ''maintenance''"
| "mode_string ModeQuarantined = ''quarantined''"
| "mode_string (Unknown s) = s"

definition all_modes :: "mode list" where
  "all_modes = [ModeNormal, ModeDegraded, ModeReadOnly, ModeRecovery, ModeMaintenance, ModeQuarantined]"

definition mode_of_string :: "string \<Rightarrow> mode" where
  "mode_of_string s = (case find (\<lambda>m. mode_string m = s) all_modes of Some m \<Rightarrow> m | None \<Rightarrow> Unknown s)"

definition refuses_content_writes :: "mode \<Rightarrow> bool" where
  "refuses_content_writes m \<longleftrightarrow> m = ModeReadOnly \<or> m = ModeQuarantined"

definition holds_telemetry :: "mode \<Rightarrow> bool" where
  "holds_telemetry m \<longleftrightarrow> m = ModeReadOnly"

text \<open>The graph of automatic transitions.\<close>

fun allowed_from :: "mode \<Rightarrow> mode list" where
  "allowed_from ModeNormal =
     [ModeDegraded, ModeReadOnly, ModeRecovery, ModeMaintenance, ModeQuarantined]"
| "allowed_from ModeDegraded = [ModeNormal, ModeReadOnly, ModeQuarantined, ModeMaintenance]"
| "allowed_from ModeReadOnly = [ModeRecovery, ModeMaintenance]"
| "allowed_from ModeRecovery = [ModeNormal, ModeReadOnly]"
| "allowed_from ModeMaintenance = [ModeNormal]"
| "allowed_from ModeQuarantined = [ModeNormal, ModeMaintenance]"
| "allowed_from (Unknown s) = []"

definition is_allowed :: "mode \<Rightarrow> mode \<Rightarrow> bool" where
  "is_allowed from to \<longleftrightarrow> List.member (allowed_from from) to"

record transition =
  tr_from :: mode
  tr_to :: mode
  tr_reason :: string
  tr_cause :: string
  tr_at :: time

record 'w manager =
  current :: mode
  history :: "transition list"
  hooks :: "(transition \<Rightarrow> 'w \<Rightarrow> 'w) list"

datatype mode_error = NotPermitted mode mode

definition new_manager :: "'w manager" where
  "new_manager = \<lparr>current = ModeNormal, history = [], hooks = []\<rparr>"

definition mgr_is :: "'w manager \<Rightarrow> mode list \<Rightarrow> bool" where
  "mgr_is m ms \<longleftrightarrow> List.member ms (current m)"

definition fire_hooks :: "(transition \<Rightarrow> 'w \<Rightarrow> 'w) list \<Rightarrow> transition \<Rightarrow> 'w \<Rightarrow> 'w" where
  "fire_hooks hs t w = fold (\<lambda>h. h t) hs w"

text \<open>Manager.Transition: the state after it, the world after the hooks, the error if any.\<close>

definition mgr_transition ::
  "time \<Rightarrow> mode \<Rightarrow> string \<Rightarrow> string \<Rightarrow> 'w manager \<times> 'w \<Rightarrow> mode_error option \<times> 'w manager \<times> 'w" where
  "mgr_transition now to reason cause mw =
     (let m = fst mw; w = snd mw; from = current m in
      if from = to then (None, m, w)
      else if \<not> is_allowed from to then (Some (NotPermitted from to), m, w)
      else (let t = \<lparr>tr_from = from, tr_to = to, tr_reason = reason, tr_cause = cause, tr_at = now\<rparr>
            in (None, m\<lparr>current := to, history := history m @ [t]\<rparr>, fire_hooks (hooks m) t w)))"

definition force_transition :: "time \<Rightarrow> mode \<Rightarrow> string \<Rightarrow> 'w manager \<times> 'w \<Rightarrow> 'w manager \<times> 'w" where
  "force_transition now to reason mw =
     (let m = fst mw; w = snd mw;
          t = \<lparr>tr_from = current m, tr_to = to, tr_reason = reason,
               tr_cause = ''operator.force'', tr_at = now\<rparr>
      in (m\<lparr>current := to, history := history m @ [t]\<rparr>, fire_hooks (hooks m) t w))"

definition restored_history :: nat where
  "restored_history = 100"

definition mgr_restore :: "transition list \<Rightarrow> 'w manager \<Rightarrow> 'w manager" where
  "mgr_restore past m =
     (if past = [] then m
      else if \<not> List.member all_modes (tr_to (last past)) then m
      else (let kept = (if length past > restored_history
                        then drop (length past - restored_history) past else past)
            in m\<lparr>current := tr_to (last kept), history := kept\<rparr>))"

definition on_transition :: "(transition \<Rightarrow> 'w \<Rightarrow> 'w) \<Rightarrow> 'w manager \<Rightarrow> 'w manager" where
  "on_transition h m = m\<lparr>hooks := hooks m @ [h]\<rparr>"

definition mgr_reset :: "'w manager \<Rightarrow> 'w manager" where
  "mgr_reset m = m\<lparr>current := ModeNormal, history := []\<rparr>"

section \<open>The journal\<close>

text \<open>
  A row of mode_transitions holds the two modes as text. The hook ignores an error of the INSERT,
  so \<open>ok\<close> says for each transition whether the statement succeeded. The timestamp is written and
  read with RFC3339Nano, which keeps the nanoseconds, so it is stored as it is.
\<close>

record journal_row =
  row_from :: string
  row_to :: string
  row_reason :: string
  row_cause :: string
  row_at :: time

definition journal_write :: "(transition \<Rightarrow> bool) \<Rightarrow> transition \<Rightarrow> journal_row list \<Rightarrow> journal_row list" where
  "journal_write ok t rows =
     (if ok t then rows @ [\<lparr>row_from = mode_string (tr_from t), row_to = mode_string (tr_to t),
        row_reason = tr_reason t, row_cause = tr_cause t, row_at = tr_at t\<rparr>] else rows)"

definition load_history :: "journal_row list \<Rightarrow> transition list" where
  "load_history rows = map (\<lambda>r. \<lparr>tr_from = mode_of_string (row_from r), tr_to = mode_of_string (row_to r),
     tr_reason = row_reason r, tr_cause = row_cause r, tr_at = row_at r\<rparr>) rows"

definition open_journal ::
  "(transition \<Rightarrow> bool) \<Rightarrow> journal_row list \<Rightarrow> journal_row list manager \<Rightarrow> journal_row list manager \<times> transition list" where
  "open_journal ok rows m = (on_transition (journal_write ok) m, load_history rows)"

section \<open>Steps of the machine\<close>

datatype mode_op = Transition time mode string string | Force time mode string

fun mode_op_step :: "mode_op \<Rightarrow> 'w manager \<times> 'w \<Rightarrow> 'w manager \<times> 'w" where
  "mode_op_step (Transition now to reason cause) mw = snd (mgr_transition now to reason cause mw)"
| "mode_op_step (Force now to reason) mw = force_transition now to reason mw"

definition run_mode_ops :: "mode_op list \<Rightarrow> 'w manager \<times> 'w \<Rightarrow> 'w manager \<times> 'w" where
  "run_mode_ops ops mw = fold mode_op_step ops mw"

fun is_force :: "mode_op \<Rightarrow> bool" where
  "is_force (Force _ _ _) = True"
| "is_force (Transition _ _ _ _) = False"

text \<open>A history is a chain from the first mode to the current one.\<close>

fun chain :: "mode \<Rightarrow> transition list \<Rightarrow> mode \<Rightarrow> bool" where
  "chain a [] b = (a = b)"
| "chain a (t # ts) b = (tr_from t = a \<and> chain (tr_to t) ts b)"

section \<open>Lemmas\<close>

lemma mode_cases_all: "m \<in> set all_modes \<longleftrightarrow> (\<forall>s. m \<noteq> Unknown s)"
  by (cases m) (auto simp: all_modes_def)

lemma mode_of_string_known: "m \<in> set all_modes \<Longrightarrow> mode_of_string (mode_string m) = m"
  by (cases m) (auto simp: mode_of_string_def all_modes_def)

lemma is_allowed_iff: "is_allowed a b \<longleftrightarrow> b \<in> set (allowed_from a)"
  by (simp add: is_allowed_def)

lemma is_allowed_known: "is_allowed a b \<Longrightarrow> b \<in> set all_modes"
  by (cases a) (auto simp: is_allowed_iff all_modes_def)

lemma chain_append: "chain a (ts @ us) c \<longleftrightarrow> (\<exists>b. chain a ts b \<and> chain b us c)"
  by (induction ts arbitrary: a) auto

lemma chain_last: "chain a ts b \<Longrightarrow> ts \<noteq> [] \<Longrightarrow> tr_to (last ts) = b"
  by (induction ts arbitrary: a) (auto split: if_splits)

lemma mgr_transition_hooks [simp]:
  "hooks (fst (snd (mgr_transition now to reason cause mw))) = hooks (fst mw)"
  by (simp add: mgr_transition_def Let_def)

lemma force_transition_hooks [simp]: "hooks (fst (force_transition now to reason mw)) = hooks (fst mw)"
  by (simp add: force_transition_def Let_def)

lemma mode_op_step_hooks [simp]: "hooks (fst (mode_op_step op mw)) = hooks (fst mw)"
  by (cases op) simp_all

text \<open>What one operation appends to the history, and how the current mode follows it.\<close>

lemma mode_op_step_cases:
  obtains (stay) "mode_op_step op mw = mw"
  | (move) t where "tr_from t = current (fst mw)"
      "\<not> is_force op \<Longrightarrow> is_allowed (tr_from t) (tr_to t)"
      "mode_op_step op mw =
         ((fst mw)\<lparr>current := tr_to t, history := history (fst mw) @ [t]\<rparr>,
          fire_hooks (hooks (fst mw)) t (snd mw))"
proof (cases op)
  case (Transition now to reason cause)
  show thesis
  proof (cases "current (fst mw) = to \<or> \<not> is_allowed (current (fst mw)) to")
    case True
    then have "mode_op_step op mw = mw"
      by (auto simp: Transition mgr_transition_def Let_def)
    then show thesis by (rule stay)
  next
    case False
    then show thesis
      by (intro move [of "\<lparr>tr_from = current (fst mw), tr_to = to, tr_reason = reason, tr_cause = cause, tr_at = now\<rparr>"])
        (auto simp: Transition mgr_transition_def Let_def)
  qed
next
  case (Force now to reason)
  show thesis
    by (rule move [of "\<lparr>tr_from = current (fst mw), tr_to = to, tr_reason = reason,
        tr_cause = ''operator.force'', tr_at = now\<rparr>"])
      (auto simp: Force force_transition_def Let_def)
qed

lemma run_mode_ops_Nil [simp]: "run_mode_ops [] mw = mw"
  by (simp add: run_mode_ops_def)

lemma run_mode_ops_Cons [simp]: "run_mode_ops (op # ops) mw = run_mode_ops ops (mode_op_step op mw)"
  by (simp add: run_mode_ops_def)

lemma run_mode_ops_hooks [simp]: "hooks (fst (run_mode_ops ops mw)) = hooks (fst mw)"
  by (induction ops arbitrary: mw) simp_all

text \<open>
  A run extends the history by a list of transitions that chains the mode at its start to the mode
  at its end, and without a forced operation every one of them is an edge of the graph.
\<close>

lemma run_mode_ops_chain:
  "\<exists>ts. history (fst (run_mode_ops ops mw)) = history (fst mw) @ ts
     \<and> chain (current (fst mw)) ts (current (fst (run_mode_ops ops mw)))
     \<and> snd (run_mode_ops ops mw) = fold (fire_hooks (hooks (fst mw))) ts (snd mw)
     \<and> ((\<forall>op \<in> set ops. \<not> is_force op) \<longrightarrow> (\<forall>t \<in> set ts. is_allowed (tr_from t) (tr_to t)))"
proof (induction ops arbitrary: mw)
  case Nil
  then show ?case by simp
next
  case (Cons op ops)
  let ?mw = "mode_op_step op mw"
  from Cons [of ?mw] obtain ts where ts:
    "history (fst (run_mode_ops ops ?mw)) = history (fst ?mw) @ ts"
    "chain (current (fst ?mw)) ts (current (fst (run_mode_ops ops ?mw)))"
    "snd (run_mode_ops ops ?mw) = fold (fire_hooks (hooks (fst ?mw))) ts (snd ?mw)"
    "(\<forall>op \<in> set ops. \<not> is_force op) \<longrightarrow> (\<forall>t \<in> set ts. is_allowed (tr_from t) (tr_to t))"
    by blast
  show ?case
  proof (cases rule: mode_op_step_cases [of op mw])
    case stay
    with ts show ?thesis by (intro exI [of _ ts]) auto
  next
    case (move t)
    from ts show ?thesis
      unfolding run_mode_ops_Cons by (intro exI [of _ "t # ts"]) (use move ts in auto)
  qed
qed

lemma load_history_append: "load_history (a @ b) = load_history a @ load_history b"
  by (simp add: load_history_def)

lemma length_load_history [simp]: "length (load_history rows) = length rows"
  by (simp add: load_history_def)

lemma journal_fold_to:
  assumes "\<forall>t \<in> set ts. ok t"
  shows "map row_to (fold (fire_hooks [journal_write ok]) ts rows)
    = map row_to rows @ map (\<lambda>t. mode_string (tr_to t)) ts"
  using assms
  by (induction ts arbitrary: rows) (auto simp: fire_hooks_def journal_write_def)

lemma mgr_restore_current:
  assumes "past \<noteq> []" and "tr_to (last past) \<in> set all_modes"
  shows "current (mgr_restore past m) = tr_to (last past)"
  using assms by (simp add: mgr_restore_def Let_def restored_history_def last_drop)

lemma mgr_restore_bounded:
  "length (history m) \<le> restored_history \<Longrightarrow> length (history (mgr_restore past m)) \<le> restored_history"
  by (simp add: mgr_restore_def Let_def)

lemma last_load_history:
  "rows \<noteq> [] \<Longrightarrow> tr_to (last (load_history rows)) = mode_of_string (last (map row_to rows))"
  by (simp add: load_history_def last_map)

section \<open>The interface other components use\<close>

text \<open>
  What the escalator and the budget actuator rely on: they read the current mode and ask for a
  transition. Asking for the current mode changes nothing, an edge of the graph is taken, anything
  else is refused and changes nothing.
\<close>

locale mode_controller =
  fixes cur :: "'s \<Rightarrow> mode"
    and request :: "time \<Rightarrow> mode \<Rightarrow> string \<Rightarrow> string \<Rightarrow> 's \<Rightarrow> mode_error option \<times> 's"
  assumes request_same: "cur s = to \<Longrightarrow> request now to r c s = (None, s)"
    and request_move: "cur s \<noteq> to \<Longrightarrow> is_allowed (cur s) to \<Longrightarrow>
      fst (request now to r c s) = None \<and> cur (snd (request now to r c s)) = to"
    and request_refuse: "cur s \<noteq> to \<Longrightarrow> \<not> is_allowed (cur s) to \<Longrightarrow>
      request now to r c s = (Some (NotPermitted (cur s) to), s)"

interpretation mgr: mode_controller "\<lambda>mw. current (fst mw)" mgr_transition
  by unfold_locales (auto simp: mgr_transition_def Let_def)

section \<open>Reachability in the graph\<close>

inductive mode_reach :: "mode \<Rightarrow> mode \<Rightarrow> bool" where
  reach_refl: "mode_reach a a"
| reach_step: "is_allowed a b \<Longrightarrow> mode_reach b c \<Longrightarrow> mode_reach a c"

lemma reach_edge: "b \<in> set (allowed_from a) \<Longrightarrow> mode_reach a b"
  by (meson is_allowed_iff mode_reach.intros)

lemma mode_reach_trans: "mode_reach a b \<Longrightarrow> mode_reach b c \<Longrightarrow> mode_reach a c"
  by (induction rule: mode_reach.induct) (auto intro: mode_reach.intros)

lemma normal_reachable: "a \<in> set all_modes \<Longrightarrow> mode_reach a ModeNormal"
  by (cases a) (auto simp: all_modes_def
    intro: reach_edge mode_reach.reach_refl mode_reach_trans [OF reach_edge reach_edge, of ModeRecovery ModeReadOnly])

lemma all_reachable_from_normal: "b \<in> set all_modes \<Longrightarrow> mode_reach ModeNormal b"
  by (cases b) (auto simp: all_modes_def intro: reach_edge mode_reach.reach_refl)

section \<open>Properties\<close>



text \<open>
  C4. Mode changes that nobody forces follow the graph. In every run of Transition calls from any
  manager, the history grows by a chain of edges of the graph that links the first mode to the last;
  in particular the system never goes from ReadOnly straight back to Normal, and while it is in one
  of the six modes it stays in them.
\<close>

theorem unforced_run_follows_graph:
  assumes "\<forall>op \<in> set ops. \<not> is_force op"
    and "run_mode_ops ops (m, w) = (m', w')"
  shows "\<exists>ts. history m' = history m @ ts \<and> chain (current m) ts (current m')
      \<and> (\<forall>t \<in> set ts. tr_to t \<in> set (allowed_from (tr_from t)))
      \<and> (\<forall>t \<in> set ts. \<not> (tr_from t = ModeReadOnly \<and> tr_to t = ModeNormal))
      \<and> (current m \<in> set all_modes \<longrightarrow> current m' \<in> set all_modes)"
proof -
  from run_mode_ops_chain [of ops "(m, w)"] assms obtain ts where
    h: "history m' = history m @ ts" and c: "chain (current m) ts (current m')"
    and al: "\<forall>t \<in> set ts. is_allowed (tr_from t) (tr_to t)"
    by auto
  have "current m' \<in> set all_modes" if "current m \<in> set all_modes"
  proof (cases "ts = []")
    case True
    with c that show ?thesis by simp
  next
    case False
    with al have "is_allowed (tr_from (last ts)) (tr_to (last ts))" by simp
    then show ?thesis using is_allowed_known chain_last [OF c False] by metis
  qed
  moreover have "\<not> (tr_from t = ModeReadOnly \<and> tr_to t = ModeNormal)" if "t \<in> set ts" for t
    using al that by (auto simp: is_allowed_iff)
  ultimately show ?thesis using h c al by (auto simp: is_allowed_iff)
qed

theorem unforced_run_follows_graph_witness:
  "\<exists>ts. history (fst (run_mode_ops [Transition 1 ModeReadOnly ''r'' ''c'', Transition 2 ModeNormal ''r'' ''c'']
      (new_manager, ()))) = ts \<and> length ts = 1
    \<and> current (fst (run_mode_ops [Transition 1 ModeReadOnly ''r'' ''c'', Transition 2 ModeNormal ''r'' ''c'']
      (new_manager, ()))) \<in> set all_modes"
proof -
  let ?ops = "[Transition 1 ModeReadOnly ''r'' ''c'', Transition 2 ModeNormal ''r'' ''c'']"
  let ?r = "run_mode_ops ?ops (new_manager, ())"
  have "?r = (fst ?r, snd ?r)" by (rule prod.collapse [symmetric])
  from unforced_run_follows_graph [OF _ this] obtain ts where
    "history (fst ?r) = ts" "current (fst ?r) \<in> set all_modes"
    by (auto simp: new_manager_def all_modes_def)
  moreover have "length (history (fst ?r)) = 1"
    by (simp add: mgr_transition_def is_allowed_iff Let_def new_manager_def)
  ultimately show ?thesis by auto
qed

text \<open>
  No mode is a trap and none is unreachable: through automatic transitions alone every one of
  the six modes leads back to Normal, and Normal leads to every one of them.
\<close>

theorem mode_graph_connected:
  assumes "a \<in> set all_modes" and "b \<in> set all_modes"
  shows "mode_reach a ModeNormal \<and> mode_reach a b"
  using normal_reachable [OF assms(1)] all_reachable_from_normal [OF assms(2)]
  by (blast intro: mode_reach_trans)

theorem mode_graph_connected_witness:
  "mode_reach ModeReadOnly ModeNormal \<and> mode_reach ModeReadOnly ModeQuarantined"
  using mode_graph_connected [of ModeReadOnly ModeQuarantined] by (simp add: all_modes_def)

end
