(* ===== verification/Fault.thy ===== *)
theory Fault
  imports Complex_Main Mode
begin

text \<open>
  Fault injection and its escalation into the mode machine (src/internal/fault/fault.go and
  escalation.go). The injector's random source is a library generator: it is the parameter
  \<open>rolls\<close>, the sequence of Float64 values a seed produces, and the injector keeps the position in
  it. A probability is a finite float64 that is only compared, so it is a rational.
\<close>

section \<open>The injector\<close>

datatype fault_kind = KindError | KindPanic | KindLatency | OtherKind string

record fault =
  f_name :: string
  f_kind :: fault_kind
  f_prob :: rat
  f_err :: "string option"
  f_count :: nat

record injector =
  inj_faults :: "(string, fault) gomap"
  inj_pos :: nat

datatype check_result = NoFault | FaultErr string | FaultPanic string

definition new_injector :: injector where
  "new_injector = \<lparr>inj_faults = [], inj_pos = 0\<rparr>"

definition inj_register :: "fault \<Rightarrow> injector \<Rightarrow> string + injector" where
  "inj_register f ij =
     (case map_get (inj_faults ij) (f_name f) of
        Some _ \<Rightarrow> Inl (''fault: duplicate name '' @ f_name f)
      | None \<Rightarrow> Inr (ij\<lparr>inj_faults := map_put (f_name f) f (inj_faults ij)\<rparr>))"

definition set_probability :: "string \<Rightarrow> rat \<Rightarrow> injector \<Rightarrow> injector" where
  "set_probability name p ij =
     (case map_get (inj_faults ij) name of
        Some f \<Rightarrow> ij\<lparr>inj_faults := map_put name (f\<lparr>f_prob := p\<rparr>) (inj_faults ij)\<rparr>
      | None \<Rightarrow> ij)"

definition fault_outcome :: "fault \<Rightarrow> string \<Rightarrow> check_result" where
  "fault_outcome f name =
     (case f_kind f of
        KindPanic \<Rightarrow> FaultPanic (''fault injection: '' @ name @ '' fired (panic)'')
      | KindError \<Rightarrow> (case f_err f of Some e \<Rightarrow> FaultErr e
                        | None \<Rightarrow> FaultErr (''fault injection: '' @ name @ '' fired''))
      | _ \<Rightarrow> NoFault)"

definition inj_check :: "(nat \<Rightarrow> rat) \<Rightarrow> string \<Rightarrow> injector \<Rightarrow> check_result \<times> injector" where
  "inj_check rolls name ij =
     (case map_get (inj_faults ij) name of
        None \<Rightarrow> (NoFault, ij)
      | Some f \<Rightarrow>
          if f_prob f = 0 then (NoFault, ij)
          else (let roll = rolls (inj_pos ij); ij = ij\<lparr>inj_pos := Suc (inj_pos ij)\<rparr> in
                if roll \<ge> f_prob f then (NoFault, ij)
                else (fault_outcome f name,
                      ij\<lparr>inj_faults := map_put name (f\<lparr>f_count := Suc (f_count f)\<rparr>) (inj_faults ij)\<rparr>)))"

definition inj_trigger :: "string \<Rightarrow> injector \<Rightarrow> nat \<times> injector" where
  "inj_trigger name ij =
     (let f = (case map_get (inj_faults ij) name of
                 Some f \<Rightarrow> f
               | None \<Rightarrow> \<lparr>f_name = name, f_kind = KindError, f_prob = 0, f_err = None, f_count = 0\<rparr>);
          f = f\<lparr>f_count := Suc (f_count f)\<rparr>
      in (f_count f, ij\<lparr>inj_faults := map_put name f (inj_faults ij)\<rparr>))"

definition trigger_count :: "string \<Rightarrow> injector \<Rightarrow> nat" where
  "trigger_count name ij = (case map_get (inj_faults ij) name of None \<Rightarrow> 0 | Some f \<Rightarrow> f_count f)"

definition inj_reset :: "injector \<Rightarrow> injector" where
  "inj_reset ij = \<lparr>inj_faults = [], inj_pos = 0\<rparr>"

definition FaultWALWrite :: string where "FaultWALWrite = ''db.wal.write''"
definition FaultMigrationApply :: string where "FaultMigrationApply = ''migrations.apply''"
definition FaultPluginInvoke :: string where "FaultPluginInvoke = ''sandbox.plugin.invoke''"
definition FaultOutboxCommit :: string where "FaultOutboxCommit = ''outbox.commit''"

lemmas fault_name_defs = FaultWALWrite_def FaultMigrationApply_def FaultPluginInvoke_def
  FaultOutboxCommit_def

section \<open>The escalator\<close>

record escalation_rule =
  er_fault :: string
  er_threshold :: int
  er_window :: dur
  er_target :: mode
  er_reason :: string
  er_cause :: string

record escalation_state =
  es_rule :: escalation_rule
  es_start :: time
  es_count :: int

definition esc_add_rule :: "time \<Rightarrow> escalation_rule \<Rightarrow> escalation_state list \<Rightarrow> escalation_state list" where
  "esc_add_rule now r es = es @ [\<lparr>es_rule = r, es_start = now, es_count = 0\<rparr>]"

text \<open>
  One matching rule of Record: the window is reset when it has expired, the count advances, and at
  the threshold both are reset and the transition is asked for.
\<close>

definition es_tick :: "time \<Rightarrow> escalation_state \<Rightarrow> escalation_state \<times> bool" where
  "es_tick now s =
     (let s = (if er_window (es_rule s) > 0 \<and> time_sub now (es_start s) > er_window (es_rule s)
               then s\<lparr>es_start := now, es_count := 0\<rparr> else s);
          s = s\<lparr>es_count := es_count s + 1\<rparr>
      in if es_count s \<ge> er_threshold (es_rule s) then (s\<lparr>es_start := now, es_count := 0\<rparr>, True)
         else (s, False))"

text \<open>Escalator.Record; \<open>tm\<close> is the clock Transition reads, and its error is ignored.\<close>

fun esc_record ::
  "time \<Rightarrow> time \<Rightarrow> string \<Rightarrow> escalation_state list \<Rightarrow> 'w manager \<times> 'w \<Rightarrow> escalation_state list \<times> 'w manager \<times> 'w" where
  "esc_record now tm name [] mw = ([], mw)"
| "esc_record now tm name (s # ss) mw =
     (if er_fault (es_rule s) \<noteq> name then
        (let (ss', mw') = esc_record now tm name ss mw in (s # ss', mw'))
      else
        (let (s', fire) = es_tick now s;
             mw1 = (if fire then snd (mgr_transition tm (er_target (es_rule s)) (er_reason (es_rule s))
                                       (er_cause (es_rule s)) mw) else mw);
             (ss', mw') = esc_record now tm name ss mw1
         in (s' # ss', mw')))"

definition esc_default_rules :: "escalation_rule list" where
  "esc_default_rules =
    [\<lparr>er_fault = FaultWALWrite, er_threshold = 3, er_window = 5 * minute, er_target = ModeReadOnly,
      er_reason = ''WAL write faults exceeded threshold'', er_cause = ''fault.db.wal.write''\<rparr>,
     \<lparr>er_fault = FaultMigrationApply, er_threshold = 1, er_window = 0, er_target = ModeReadOnly,
      er_reason = ''migration apply fault detected'', er_cause = ''fault.migrations.apply''\<rparr>,
     \<lparr>er_fault = FaultPluginInvoke, er_threshold = 5, er_window = 2 * minute, er_target = ModeQuarantined,
      er_reason = ''plugin invocation faults exceeded safety threshold'',
      er_cause = ''fault.sandbox.plugin.invoke''\<rparr>,
     \<lparr>er_fault = FaultOutboxCommit, er_threshold = 3, er_window = 5 * minute, er_target = ModeDegraded,
      er_reason = ''outbox commit failures threatening event durability'',
      er_cause = ''fault.outbox.commit''\<rparr>]"

definition global_escalator :: "time \<Rightarrow> escalation_state list" where
  "global_escalator now = fold (esc_add_rule now) esc_default_rules []"

section \<open>The window counter\<close>

lemma es_tick_rule [simp]: "es_rule (fst (es_tick now s)) = es_rule s"
  by (simp add: es_tick_def Let_def)

lemma es_tick_count:
  "er_threshold (es_rule s) \<ge> 1 \<Longrightarrow> 0 \<le> es_count s \<Longrightarrow>
   0 \<le> es_count (fst (es_tick now s)) \<and> es_count (fst (es_tick now s)) < er_threshold (es_rule s)"
  by (simp add: es_tick_def Let_def)

fun es_run :: "time list \<Rightarrow> escalation_state \<Rightarrow> escalation_state \<times> nat" where
  "es_run [] s = (s, 0)"
| "es_run (t # ts) s =
     (let (s', fire) = es_tick t s; (s'', n) = es_run ts s' in (s'', (if fire then Suc n else n)))"

text \<open>In a window that does not expire, the counter is the number of faults modulo the threshold.\<close>

definition in_window :: "escalation_state \<Rightarrow> time \<Rightarrow> bool" where
  "in_window s t \<longleftrightarrow> er_window (es_rule s) \<le> 0 \<or> time_sub t (es_start s) \<le> er_window (es_rule s)"

lemma time_sub_antimono: "u \<le> u' \<Longrightarrow> time_sub t u' \<le> time_sub t u"
  by (simp add: time_sub_def)

lemma es_tick_in_window:
  assumes "in_window s t"
  shows "es_tick t s =
    (if es_count s + 1 \<ge> er_threshold (es_rule s)
     then (s\<lparr>es_start := t, es_count := 0\<rparr>, True)
     else (s\<lparr>es_count := es_count s + 1\<rparr>, False))"
  using assms by (auto simp: es_tick_def in_window_def Let_def)

lemma in_window_later: "in_window s t \<Longrightarrow> es_start s \<le> u \<Longrightarrow> in_window (s\<lparr>es_start := u, es_count := c\<rparr>) t"
  using time_sub_antimono [of "es_start s" u t] by (auto simp: in_window_def)

lemma in_window_count: "in_window (s\<lparr>es_count := c\<rparr>) t = in_window s t"
  by (simp add: in_window_def)

lemma div_mod_carry:
  fixes c T n :: int
  assumes "0 < T" and "c + 1 = T"
  shows "(c + (n + 1)) div T = n div T + 1" and "(c + (n + 1)) mod T = n mod T"
proof -
  have e: "c + (n + 1) = n + T" using assms by simp
  show "(c + (n + 1)) div T = n div T + 1" and "(c + (n + 1)) mod T = n mod T"
    unfolding e using assms(1) by simp_all
qed

lemma es_run_counts:
  assumes "er_threshold (es_rule s) \<ge> 1" and "0 \<le> es_count s" and "es_count s < er_threshold (es_rule s)"
    and "\<forall>t \<in> set ts. in_window s t" and "sorted ts" and "\<forall>t \<in> set ts. es_start s \<le> t"
  shows "es_count (fst (es_run ts s)) = (es_count s + int (length ts)) mod er_threshold (es_rule s)
    \<and> int (snd (es_run ts s)) = (es_count s + int (length ts)) div er_threshold (es_rule s)"
  using assms
proof (induction ts arbitrary: s)
  case Nil
  then show ?case by simp
next
  case (Cons t ts)
  let ?T = "er_threshold (es_rule s)"
  have tick: "es_tick t s = (if es_count s + 1 \<ge> ?T then (s\<lparr>es_start := t, es_count := 0\<rparr>, True)
      else (s\<lparr>es_count := es_count s + 1\<rparr>, False))"
    using Cons.prems(4) by (simp add: es_tick_in_window)
  show ?case
  proof (cases "es_count s + 1 \<ge> ?T")
    case True
    then have full: "es_count s + 1 = ?T" using Cons.prems(3) by simp
    let ?s = "s\<lparr>es_start := t, es_count := 0\<rparr>"
    have "\<forall>u \<in> set ts. in_window ?s u"
      using Cons.prems(4,6) by (simp add: in_window_later)
    moreover have "\<forall>u \<in> set ts. es_start ?s \<le> u" using Cons.prems(5) by simp
    ultimately have IH: "es_count (fst (es_run ts ?s)) = int (length ts) mod ?T"
      "int (snd (es_run ts ?s)) = int (length ts) div ?T"
      using Cons.IH [of ?s] Cons.prems(1,5) by auto
    have pos: "0 < ?T" using Cons.prems(1) by simp
    from IH show ?thesis
      using div_mod_carry [OF pos full, of "int (length ts)"] tick True
      by (simp add: split_beta add.commute)
  next
    case False
    let ?s = "s\<lparr>es_count := es_count s + 1\<rparr>"
    have "es_count (fst (es_run ts ?s)) = (es_count ?s + int (length ts)) mod ?T
       \<and> int (snd (es_run ts ?s)) = (es_count ?s + int (length ts)) div ?T"
      using Cons.IH [of ?s] Cons.prems False by (simp add: in_window_count)
    then show ?thesis using tick False by (simp add: split_beta ac_simps)
  qed
qed

section \<open>The escalator and the mode machine\<close>

lemma esc_record_unmatched:
  "\<forall>s \<in> set ss. er_fault (es_rule s) \<noteq> name \<Longrightarrow> esc_record now tm name ss mw = (ss, mw)"
  by (induction ss arbitrary: mw) auto

lemma esc_record_rules:
  "map es_rule (fst (esc_record now tm name ss mw)) = map es_rule ss"
  by (induction ss arbitrary: mw) (auto simp: split_beta Let_def)

lemma esc_record_counts:
  assumes "\<forall>s \<in> set ss. er_threshold (es_rule s) \<ge> 1 \<and> 0 \<le> es_count s \<and> es_count s < er_threshold (es_rule s)"
  shows "\<forall>s \<in> set (fst (esc_record now tm name ss mw)).
    er_threshold (es_rule s) \<ge> 1 \<and> 0 \<le> es_count s \<and> es_count s < er_threshold (es_rule s)"
  using assms
  by (induction ss arbitrary: mw) (auto simp: split_beta Let_def es_tick_count)

text \<open>Record is a sequence of Transition calls, each for the target of a rule on that fault.\<close>

lemma esc_record_ops:
  "\<exists>ops. snd (esc_record now tm name ss mw) = run_mode_ops ops mw
     \<and> (\<forall>op \<in> set ops. \<exists>s \<in> set ss. er_fault (es_rule s) = name
          \<and> op = Transition tm (er_target (es_rule s)) (er_reason (es_rule s)) (er_cause (es_rule s)))"
proof (induction ss arbitrary: mw)
  case Nil
  then show ?case by (intro exI [of _ "[]"]) simp
next
  case (Cons s ss)
  let ?op = "Transition tm (er_target (es_rule s)) (er_reason (es_rule s)) (er_cause (es_rule s))"
  let ?fire = "er_fault (es_rule s) = name \<and> snd (es_tick now s)"
  let ?mw = "if ?fire then mode_op_step ?op mw else mw"
  from Cons [of ?mw] obtain ops where ops:
    "snd (esc_record now tm name ss ?mw) = run_mode_ops ops ?mw"
    "\<forall>op \<in> set ops. \<exists>s \<in> set ss. er_fault (es_rule s) = name
        \<and> op = Transition tm (er_target (es_rule s)) (er_reason (es_rule s)) (er_cause (es_rule s))"
    by blast
  have "snd (esc_record now tm name (s # ss) mw) = snd (esc_record now tm name ss ?mw)"
    by (auto simp: split_beta Let_def)
  with ops show ?case
    by (intro exI [of _ "if ?fire then ?op # ops else ops"]) auto
qed

section \<open>Properties\<close>

text \<open>
  Threshold of an escalation rule. From a rule whose counter is below its threshold, let n
  faults arrive in time order inside its window (a rule with window 0 counts for life). The rule
  then asks for its mode exactly (count + n) div threshold times and keeps (count + n) mod threshold
  faults on its counter: it never fires early, and never again until a whole threshold of new
  faults has arrived.
\<close>

theorem escalation_fires_every_threshold:
  assumes "er_threshold (es_rule s) \<ge> 1" and "0 \<le> es_count s" and "es_count s < er_threshold (es_rule s)"
    and "\<forall>t \<in> set ts. er_window (es_rule s) \<le> 0 \<or> time_sub t (es_start s) \<le> er_window (es_rule s)"
    and "sorted ts" and "\<forall>t \<in> set ts. es_start s \<le> t"
  shows "int (snd (es_run ts s)) = (es_count s + int (length ts)) div er_threshold (es_rule s)
    \<and> es_count (fst (es_run ts s)) = (es_count s + int (length ts)) mod er_threshold (es_rule s)"
  using es_run_counts [OF assms(1-3) _ assms(5,6)] assms(4) by (auto simp: in_window_def)

theorem escalation_fires_every_threshold_witness:
  "int (snd (es_run [1, 2, 3, 4]
     \<lparr>es_rule = \<lparr>er_fault = FaultWALWrite, er_threshold = 3, er_window = 5 * minute,
        er_target = ModeReadOnly, er_reason = '''', er_cause = ''''\<rparr>, es_start = 0, es_count = 0\<rparr>)) = 1"
proof -
  let ?s = "\<lparr>es_rule = \<lparr>er_fault = FaultWALWrite, er_threshold = 3, er_window = 5 * minute,
        er_target = ModeReadOnly, er_reason = '''', er_cause = ''''\<rparr>, es_start = 0, es_count = 0\<rparr>"
  have "int (snd (es_run [1, 2, 3, 4] ?s))
      = (es_count ?s + int (length [1, 2, 3, 4 :: int])) div er_threshold (es_rule ?s)"
    by (rule escalation_fires_every_threshold [THEN conjunct1])
      (simp_all add: time_sub_def dur_defs)
  then show ?thesis by simp
qed

text \<open>
  A fault only moves the mode where a rule on that fault sends it, and only along the graph:
  after Record the history has grown by edges of the graph whose target is the target of a rule on
  the recorded fault, a fault no rule names changes nothing, and the counters of all rules stay
  below their thresholds.
\<close>

theorem escalator_moves_only_to_targets:
  assumes "esc_record now tm name ss (m, w) = (ss', m', w')"
    and inv: "\<forall>s \<in> set ss. er_threshold (es_rule s) \<ge> 1 \<and> 0 \<le> es_count s \<and> es_count s < er_threshold (es_rule s)"
  shows "(\<exists>ts. history m' = history m @ ts \<and> chain (current m) ts (current m')
        \<and> (\<forall>t \<in> set ts. is_allowed (tr_from t) (tr_to t)))
    \<and> (current m' = current m
        \<or> (\<exists>s \<in> set ss. er_fault (es_rule s) = name \<and> current m' = er_target (es_rule s)))
    \<and> ((\<forall>s \<in> set ss. er_fault (es_rule s) \<noteq> name) \<longrightarrow> (ss', m', w') = (ss, m, w))
    \<and> (\<forall>s \<in> set ss'. 0 \<le> es_count s \<and> es_count s < er_threshold (es_rule s))"
proof -
  from esc_record_ops [of now tm name ss "(m, w)"] assms(1) obtain ops where
    run: "run_mode_ops ops (m, w) = (m', w')" and
    ops: "\<forall>op \<in> set ops. \<exists>s \<in> set ss. er_fault (es_rule s) = name
        \<and> op = Transition tm (er_target (es_rule s)) (er_reason (es_rule s)) (er_cause (es_rule s))"
    by auto
  have nf: "\<forall>op \<in> set ops. \<not> is_force op" using ops by auto
  have targets: "current (fst (run_mode_ops os mw)) = current (fst mw)
      \<or> (\<exists>s \<in> set ss. er_fault (es_rule s) = name \<and> current (fst (run_mode_ops os mw)) = er_target (es_rule s))"
    if "set os \<subseteq> set ops" for os and mw :: "'a manager \<times> 'a"
    using that
  proof (induction os arbitrary: mw)
    case Nil
    then show ?case by simp
  next
    case (Cons op os)
    obtain s where s: "s \<in> set ss" "er_fault (es_rule s) = name"
      "op = Transition tm (er_target (es_rule s)) (er_reason (es_rule s)) (er_cause (es_rule s))"
      using Cons.prems ops by auto
    have "current (fst (mode_op_step op mw)) \<in> {current (fst mw), er_target (es_rule s)}"
      by (simp add: s(3) mgr_transition_def Let_def)
    with Cons.IH [of "mode_op_step op mw"] Cons.prems s(1,2) show ?case by auto
  qed
  have "current m' = current m \<or> (\<exists>s \<in> set ss. er_fault (es_rule s) = name \<and> current m' = er_target (es_rule s))"
    using targets [of ops "(m, w)"] run by simp
  moreover have "\<exists>ts. history m' = history m @ ts \<and> chain (current m) ts (current m')
      \<and> (\<forall>t \<in> set ts. is_allowed (tr_from t) (tr_to t))"
    using run_mode_ops_chain [of ops "(m, w)"] run nf by auto
  moreover have "(\<forall>s \<in> set ss. er_fault (es_rule s) \<noteq> name) \<longrightarrow> (ss', m', w') = (ss, m, w)"
    using esc_record_unmatched [of ss name now tm "(m, w)"] assms(1) by auto
  moreover have "\<forall>s \<in> set ss'. 0 \<le> es_count s \<and> es_count s < er_threshold (es_rule s)"
    using esc_record_counts [OF inv, of now tm name "(m, w)"] assms(1) by auto
  ultimately show ?thesis by blast
qed

theorem escalator_moves_only_to_targets_witness:
  "current (fst (snd (esc_record 10 10 FaultMigrationApply (global_escalator 0) (new_manager, ()))))
     = ModeReadOnly"
proof -
  let ?r = "esc_record 10 10 FaultMigrationApply (global_escalator 0) (new_manager, ())"
  have r: "?r = (fst ?r, fst (snd ?r), snd (snd ?r))" by (simp only: prod.collapse)
  have inv: "\<forall>s \<in> set (global_escalator 0). er_threshold (es_rule s) \<ge> 1 \<and> 0 \<le> es_count s
      \<and> es_count s < er_threshold (es_rule s)"
    by (simp add: global_escalator_def esc_default_rules_def esc_add_rule_def)
  have targets: "er_target (es_rule s) = ModeReadOnly"
    if "s \<in> set (global_escalator 0)" and "er_fault (es_rule s) = FaultMigrationApply" for s
    using that by (auto simp: global_escalator_def esc_default_rules_def esc_add_rule_def fault_name_defs)
  have "current (fst (snd ?r)) \<noteq> ModeNormal"
    by (simp add: global_escalator_def esc_default_rules_def esc_add_rule_def fault_name_defs
        es_tick_def mgr_transition_def new_manager_def is_allowed_iff)
  with escalator_moves_only_to_targets [OF r inv] targets show ?thesis
    by (auto simp: new_manager_def)
qed

end
