(* ===== verification/Budget.thy ===== *)
theory Budget
  imports Severity Mode "HOL-Library.Multiset"
begin

text \<open>
  Governance error budgets (src/internal/budget/budget.go) and the actuator that turns an
  exhausted budget into a mode transition (src/internal/budget/actuator.go). The ledger's mutex
  makes each operation atomic. Status drops expired charges as it reads, so it returns the pruned
  ledger too. The mode engine behind the actuator is the Go interface modeController: its two
  methods are the arguments \<open>cur\<close> and \<open>request\<close> of the definitions, with the laws of the locale
  mode_controller, which the manager of theory Mode satisfies. Durations are reported in whole
  seconds; int(d.Seconds()) is the truncated quotient for every window below 2^22 seconds.
\<close>

section \<open>The ledger\<close>

record brule =
  br_name :: string
  br_tracks :: level
  br_limit :: int
  br_window :: dur
  br_on_exhaust :: level

record charge =
  ch_at :: time
  ch_source :: string

record ledger =
  led_rules :: "brule list"
  led_hits :: "(string, charge list) gomap"
  led_acks :: "(string, time) gomap"

record bstatus =
  bs_name :: string
  bs_tracks :: string
  bs_consumed :: int
  bs_limit :: int
  bs_remaining :: int
  bs_window_sec :: int
  bs_state :: string
  bs_on_exhaust :: string
  bs_recommended :: string
  bs_contributors :: "string list"
  bs_acked_ago :: int

definition budget_default_rules :: "brule list" where
  "budget_default_rules =
    [\<lparr>br_name = ''degradation-debt'', br_tracks = Warn, br_limit = 5, br_window = 10 * minute, br_on_exhaust = Notice\<rparr>,
     \<lparr>br_name = ''governance-breach'', br_tracks = Violation, br_limit = 3, br_window = 10 * minute, br_on_exhaust = Escalation\<rparr>,
     \<lparr>br_name = ''integrity-exhaustion'', br_tracks = Critical, br_limit = 1, br_window = hour, br_on_exhaust = Containment\<rparr>,
     \<lparr>br_name = ''bot-attack-intensity'', br_tracks = Warn, br_limit = 20, br_window = 10 * minute, br_on_exhaust = Notice\<rparr>]"

definition new_ledger :: "brule list \<Rightarrow> ledger" where
  "new_ledger rules = \<lparr>led_rules = rules, led_hits = [], led_acks = []\<rparr>"

definition add_charge :: "string \<Rightarrow> charge \<Rightarrow> (string, charge list) gomap \<Rightarrow> (string, charge list) gomap" where
  "add_charge name c hits = map_put name (get_or [] hits name @ [c]) hits"

definition record_from :: "level \<Rightarrow> string \<Rightarrow> time \<Rightarrow> ledger \<Rightarrow> ledger" where
  "record_from lvl source now l =
     l\<lparr>led_hits := fold (\<lambda>r hits. if br_tracks r = lvl
         then add_charge (br_name r) \<lparr>ch_at = now, ch_source = source\<rparr> hits else hits)
       (led_rules l) (led_hits l)\<rparr>"

definition record_anon :: "level \<Rightarrow> time \<Rightarrow> ledger \<Rightarrow> ledger" where
  "record_anon lvl now l = record_from lvl '''' now l"

definition record_to :: "string \<Rightarrow> string \<Rightarrow> time \<Rightarrow> ledger \<Rightarrow> ledger" where
  "record_to name source now l =
     (case find (\<lambda>r. br_name r = name) (led_rules l) of
        Some r \<Rightarrow> l\<lparr>led_hits := add_charge (br_name r) \<lparr>ch_at = now, ch_source = source\<rparr> (led_hits l)\<rparr>
      | None \<Rightarrow> l)"

definition acknowledge :: "string \<Rightarrow> time \<Rightarrow> ledger \<Rightarrow> bool \<times> ledger" where
  "acknowledge name now l =
     (if \<not> list_ex (\<lambda>r. br_name r = name) (led_rules l) then (False, l)
      else (True, l\<lparr>led_hits := map_del name (led_hits l), led_acks := map_put name now (led_acks l)\<rparr>))"

fun count_sources :: "charge list \<Rightarrow> (string, int) gomap \<Rightarrow> (string, int) gomap" where
  "count_sources [] m = m"
| "count_sources (c # cs) m =
     count_sources cs (if ch_source c \<noteq> '''' then map_put (ch_source c) (get_or 0 m (ch_source c) + 1) m else m)"

text \<open>rankSources sorts the keys by descending count and then by name.\<close>

definition rank_sources :: "(string, int) gomap \<Rightarrow> string list" where
  "rank_sources m = sort_key (\<lambda>s. (- get_or 0 m s, s)) (map fst m)"

definition window_kept :: "time \<Rightarrow> brule \<Rightarrow> charge list \<Rightarrow> charge list" where
  "window_kept now r cs = filter (\<lambda>c. ch_at c > now - br_window r) cs"

definition budget_state :: "int \<Rightarrow> int \<Rightarrow> string" where
  "budget_state consumed limit =
     (if consumed \<ge> limit then ''exhausted''
      else if consumed > 0 \<and> consumed \<ge> limit - 1 then ''at-risk'' else ''healthy'')"

definition acked_ago :: "time \<Rightarrow> brule \<Rightarrow> (string, time) gomap \<Rightarrow> int" where
  "acked_ago now r acks =
     (case map_get acks (br_name r) of
        None \<Rightarrow> 0
      | Some t \<Rightarrow> (let since = time_sub now t in
                   if since \<ge> 0 \<and> since \<le> br_window r then go_quot since second else 0))"

definition status_of :: "time \<Rightarrow> brule \<Rightarrow> charge list \<Rightarrow> (string, time) gomap \<Rightarrow> bstatus" where
  "status_of now r kept acks =
     (let consumed = int (length kept) in
      \<lparr>bs_name = br_name r, bs_tracks = level_string (br_tracks r), bs_consumed = consumed,
       bs_limit = br_limit r, bs_remaining = max 0 (br_limit r - consumed),
       bs_window_sec = go_quot (br_window r) second,
       bs_state = budget_state consumed (br_limit r),
       bs_on_exhaust = level_string (br_on_exhaust r),
       bs_recommended = (if consumed \<ge> br_limit r then level_string (br_on_exhaust r) else ''''),
       bs_contributors = rank_sources (count_sources kept []),
       bs_acked_ago = acked_ago now r acks\<rparr>)"

fun status_loop ::
  "time \<Rightarrow> (string, time) gomap \<Rightarrow> brule list \<Rightarrow> (string, charge list) gomap \<Rightarrow> bstatus list \<times> (string, charge list) gomap" where
  "status_loop now acks [] hits = ([], hits)"
| "status_loop now acks (r # rs) hits =
     (let kept = window_kept now r (get_or [] hits (br_name r));
          (sts, hits') = status_loop now acks rs (map_put (br_name r) kept hits)
      in (status_of now r kept acks # sts, hits'))"

definition led_status :: "time \<Rightarrow> ledger \<Rightarrow> bstatus list \<times> ledger" where
  "led_status now l =
     (let (sts, hits) = status_loop now (led_acks l) (led_rules l) (led_hits l)
      in (sts, l\<lparr>led_hits := hits\<rparr>))"

section \<open>The actuator\<close>

record actuation =
  ac_budget :: string
  ac_on_exhaust :: string
  ac_target :: string
  ac_applied :: bool
  ac_refusal :: string
  ac_at :: time

record actuator =
  a_enabled :: bool
  a_exhausted :: "(string, bool) gomap"
  a_last :: "actuation list"
  a_last_applied :: "actuation option"

definition new_actuator :: "bool \<Rightarrow> actuator" where
  "new_actuator on = \<lparr>a_enabled = on, a_exhausted = [], a_last = [], a_last_applied = None\<rparr>"

definition set_enabled :: "bool \<Rightarrow> actuator \<Rightarrow> actuator" where
  "set_enabled on a = a\<lparr>a_enabled := on\<rparr>"

definition target_mode_for :: "level \<Rightarrow> mode option" where
  "target_mode_for s =
     (if s = Escalation then Some ModeDegraded
      else if s = Containment then Some ModeReadOnly
      else if s = Critical then Some ModeQuarantined
      else None)"

text \<open>The text of the mode engine's error, with the arrow as its UTF-8 bytes.\<close>

fun mode_error_string :: "mode_error \<Rightarrow> string" where
  "mode_error_string (NotPermitted a b) =
     ''mode: transition '' @ mode_string a @ [CHR 0xE2, CHR 0x86, CHR 0x92] @ mode_string b @ '' not permitted''"

text \<open>The decision on one newly exhausted budget: the record of it, and the mode engine after it.\<close>

definition actuate_one ::
  "('c \<Rightarrow> mode) \<Rightarrow> (time \<Rightarrow> mode \<Rightarrow> string \<Rightarrow> string \<Rightarrow> 'c \<Rightarrow> mode_error option \<times> 'c) \<Rightarrow>
   time \<Rightarrow> time \<Rightarrow> bool \<Rightarrow> bstatus \<Rightarrow> 'c \<Rightarrow> actuation \<times> 'c" where
  "actuate_one cur request now tm enabled st c =
     (let act = \<lparr>ac_budget = bs_name st, ac_on_exhaust = bs_on_exhaust st, ac_target = '''',
                 ac_applied = False, ac_refusal = '''', ac_at = now\<rparr>;
          lvl = fst (sev_parse (bs_on_exhaust st))
      in if \<not> enabled then (act\<lparr>ac_refusal := ''actuation disabled''\<rparr>, c)
         else case target_mode_for lvl of
           None \<Rightarrow> (act\<lparr>ac_refusal := ''informational escalation '' @ [CHR 0xE2, CHR 0x80, CHR 0x94]
                       @ '' no protective mode implied''\<rparr>, c)
         | Some target \<Rightarrow>
             (let act = act\<lparr>ac_target := mode_string target\<rparr> in
              if cur c = target then (act\<lparr>ac_applied := True\<rparr>, c)
              else case request tm target (''governance budget exhausted: '' @ bs_name st)
                          (''budget.'' @ bs_name st) c of
                (Some e, c') \<Rightarrow> (act\<lparr>ac_refusal := ''mode graph refused: '' @ mode_error_string e\<rparr>, c')
              | (None, c') \<Rightarrow> (act\<lparr>ac_applied := True\<rparr>, c')))"

fun evaluate_loop ::
  "('c \<Rightarrow> mode) \<Rightarrow> (time \<Rightarrow> mode \<Rightarrow> string \<Rightarrow> string \<Rightarrow> 'c \<Rightarrow> mode_error option \<times> 'c) \<Rightarrow>
   time \<Rightarrow> time \<Rightarrow> bstatus list \<Rightarrow> actuator \<Rightarrow> 'c \<Rightarrow> actuation list \<times> actuator \<times> 'c" where
  "evaluate_loop cur request now tm [] a c = ([], a, c)"
| "evaluate_loop cur request now tm (st # sts) a c =
     (let is_ex = (bs_state st = ''exhausted'');
          was_ex = get_or False (a_exhausted a) (bs_name st);
          a1 = a\<lparr>a_exhausted := map_put (bs_name st) is_ex (a_exhausted a)\<rparr>
      in if \<not> is_ex \<or> was_ex then evaluate_loop cur request now tm sts a1 c
         else (let (act, c1) = actuate_one cur request now tm (a_enabled a) st c;
                   a2 = (if ac_applied act then a1\<lparr>a_last_applied := Some act\<rparr> else a1);
                   (acts, a3, c2) = evaluate_loop cur request now tm sts a2 c1
               in (act # acts, a3, c2)))"

text \<open>
  Actuator.Evaluate. \<open>tm\<close> is the clock the mode engine reads for the entry it writes.
\<close>

definition act_evaluate ::
  "('c \<Rightarrow> mode) \<Rightarrow> (time \<Rightarrow> mode \<Rightarrow> string \<Rightarrow> string \<Rightarrow> 'c \<Rightarrow> mode_error option \<times> 'c) \<Rightarrow>
   time \<Rightarrow> time \<Rightarrow> ledger \<Rightarrow> actuator \<Rightarrow> 'c \<Rightarrow> actuation list \<times> ledger \<times> actuator \<times> 'c" where
  "act_evaluate cur request now tm l a c =
     (let (sts, l') = led_status now l;
          (acts, a', c') = evaluate_loop cur request now tm sts a c
      in (acts, l', a'\<lparr>a_last := acts\<rparr>, c'))"

section \<open>Lemmas on the ledger\<close>

lemma status_loop_hits_other:
  "name \<notin> br_name ` set rs \<Longrightarrow> get_or [] (snd (status_loop now acks rs hits)) name = get_or [] hits name"
  by (induction rs arbitrary: hits) (auto simp: Let_def split_beta gomap_simps)

text \<open>With distinct rule names each status is computed from the charges recorded under its name.\<close>

lemma status_loop_fst:
  "distinct (map br_name rs) \<Longrightarrow>
   fst (status_loop now acks rs hits)
     = map (\<lambda>r. status_of now r (window_kept now r (get_or [] hits (br_name r))) acks) rs"
proof (induction rs arbitrary: hits)
  case Nil
  then show ?case by simp
next
  case (Cons r rs)
  have "br_name x \<noteq> br_name r" if "x \<in> set rs" for x using Cons.prems(1) that by (rule distinct_map_neq)
  with Cons show ?case by (simp add: Let_def split_beta gomap_simps cong: map_cong)
qed

lemma status_loop_snd:
  "distinct (map br_name rs) \<Longrightarrow> r \<in> set rs \<Longrightarrow>
   get_or [] (snd (status_loop now acks rs hits)) (br_name r)
     = window_kept now r (get_or [] hits (br_name r))"
proof (induction rs arbitrary: hits)
  case Nil
  then show ?case by simp
next
  case (Cons q rs)
  show ?case
  proof (cases "r = q")
    case True
    with Cons.prems have "br_name r \<notin> br_name ` set rs" by auto
    with True show ?thesis by (simp add: Let_def split_beta status_loop_hits_other gomap_simps)
  next
    case False
    with Cons.prems have r: "r \<in> set rs" by simp
    then have "br_name r \<noteq> br_name q" using Cons.prems(1) by (rule distinct_map_neq [rotated])
    with r Cons show ?thesis by (simp add: Let_def split_beta gomap_simps)
  qed
qed

lemma led_status_simps:
  "led_rules (snd (led_status now l)) = led_rules l"
  "led_acks (snd (led_status now l)) = led_acks l"
  by (simp_all add: led_status_def split_beta Let_def)

lemma led_status_eq:
  assumes "distinct (map br_name (led_rules l))"
  shows "fst (led_status now l) = map (\<lambda>r. status_of now r
     (window_kept now r (get_or [] (led_hits l) (br_name r))) (led_acks l)) (led_rules l)"
  using status_loop_fst [OF assms] by (simp add: led_status_def split_beta Let_def)

lemma window_kept_idem [simp]: "window_kept now r (window_kept now r cs) = window_kept now r cs"
  by (simp add: window_kept_def)

lemma led_status_idem:
  assumes "distinct (map br_name (led_rules l))"
  shows "fst (led_status now (snd (led_status now l))) = fst (led_status now l)"
proof -
  let ?l = "snd (led_status now l)"
  have "get_or [] (led_hits ?l) (br_name r) = window_kept now r (get_or [] (led_hits l) (br_name r))"
    if "r \<in> set (led_rules l)" for r
    using status_loop_snd [OF assms that] by (simp add: led_status_def split_beta Let_def)
  then show ?thesis
    using assms by (simp add: led_status_eq led_status_simps cong: map_cong)
qed

lemma rank_sources_set: "set (rank_sources m) = fst ` set m"
  by (simp add: rank_sources_def)

lemma count_sources_keys:
  "gomap_ok m \<Longrightarrow> gomap_ok (count_sources cs m)
    \<and> fst ` set (count_sources cs m) = fst ` set m \<union> {s. s \<noteq> '''' \<and> s \<in> ch_source ` set cs}"
proof (induction cs arbitrary: m)
  case Nil
  then show ?case by simp
next
  case (Cons c cs)
  let ?m = "if ch_source c \<noteq> '''' then map_put (ch_source c) (get_or 0 m (ch_source c) + 1) m else m"
  have "gomap_ok ?m" using Cons.prems by simp
  from Cons.IH [OF this] show ?case
    by (auto simp: dom_update [unfolded dom_map_of_conv_image_fst])
qed

lemma count_sources_value:
  "gomap_ok m \<Longrightarrow> s \<noteq> '''' \<Longrightarrow>
   get_or 0 (count_sources cs m) s = get_or 0 m s + int (length (filter (\<lambda>c. ch_source c = s) cs))"
proof (induction cs arbitrary: m)
  case Nil
  then show ?case by simp
next
  case (Cons c cs)
  then show ?case by (auto simp: gomap_simps)
qed

text \<open>The ranking depends on the counts alone, not on the order in which the map is visited.\<close>

lemma sort_key_unique:
  assumes "mset xs = mset ys" and "inj_on f (set xs)"
  shows "sort_key f xs = sort_key f ys"
  using assms by (intro sort_key_inj_key_eq) simp_all

lemma budget_state_iff:
  "budget_state n lim = ''exhausted'' \<longleftrightarrow> n \<ge> lim"
  "budget_state n lim = ''at-risk'' \<longleftrightarrow> n < lim \<and> 0 < n \<and> n \<ge> lim - 1"
  "budget_state n lim = ''healthy'' \<longleftrightarrow> n < lim \<and> (n \<le> 0 \<or> n < lim - 1)"
  by (auto simp: budget_state_def)

lemma status_of_numbers:
  assumes "0 < br_limit r"
  shows "let st = status_of now r kept acks; n = int (length kept) in
      (bs_state st = ''exhausted'' \<longleftrightarrow> n \<ge> br_limit r)
    \<and> (bs_state st = ''at-risk'' \<longleftrightarrow> n = br_limit r - 1 \<and> br_limit r \<noteq> 1)
    \<and> (bs_state st = ''healthy'' \<longleftrightarrow> n < br_limit r - 1 \<or> n = 0)
    \<and> (bs_recommended st = (if n \<ge> br_limit r then level_string (br_on_exhaust r) else []))
    \<and> (n < br_limit r \<longrightarrow> bs_consumed st + bs_remaining st = bs_limit st)"
proof -
  have st: "bs_state (status_of now r kept acks) = budget_state (int (length kept)) (br_limit r)"
    by (simp add: status_of_def Let_def)
  show ?thesis
    unfolding Let_def st budget_state_iff
    using assms by (intro conjI) (auto simp: status_of_def Let_def)
qed

section \<open>Lemmas on the actuator\<close>

lemma evaluate_loop_enabled:
  "a_enabled (fst (snd (evaluate_loop cur request now tm sts a c))) = a_enabled a"
  by (induction sts arbitrary: a c) (auto simp: Let_def split_beta)

lemma evaluate_loop_marks_other:
  "n \<notin> bs_name ` set sts \<Longrightarrow>
   get_or False (a_exhausted (fst (snd (evaluate_loop cur request now tm sts a c)))) n = get_or False (a_exhausted a) n"
  by (induction sts arbitrary: a c) (auto simp: Let_def split_beta gomap_simps)

lemma evaluate_loop_marks:
  "distinct (map bs_name sts) \<Longrightarrow> st \<in> set sts \<Longrightarrow>
   get_or False (a_exhausted (fst (snd (evaluate_loop cur request now tm sts a c)))) (bs_name st)
     = (bs_state st = ''exhausted'')"
proof (induction sts arbitrary: a c)
  case Nil
  then show ?case by simp
next
  case (Cons x sts)
  show ?case
  proof (cases "st = x")
    case True
    with Cons.prems have "bs_name st \<notin> bs_name ` set sts" by auto
    with True show ?thesis
      by (simp add: Let_def split_beta evaluate_loop_marks_other gomap_simps)
  next
    case False
    with Cons show ?thesis by (simp add: Let_def split_beta)
  qed
qed

lemma evaluate_loop_quiet:
  "distinct (map bs_name sts) \<Longrightarrow>
   \<forall>st \<in> set sts. bs_state st = ''exhausted'' \<longrightarrow> get_or False (a_exhausted a) (bs_name st) \<Longrightarrow>
   fst (evaluate_loop cur request now tm sts a c) = [] \<and> snd (snd (evaluate_loop cur request now tm sts a c)) = c"
proof (induction sts arbitrary: a)
  case Nil
  then show ?case by simp
next
  case (Cons x sts)
  let ?a = "a\<lparr>a_exhausted := map_put (bs_name x) (bs_state x = ''exhausted'') (a_exhausted a)\<rparr>"
  have "bs_name st \<noteq> bs_name x" if "st \<in> set sts" for st using Cons.prems(1) that by (rule distinct_map_neq)
  then have "\<forall>st \<in> set sts. bs_state st = ''exhausted'' \<longrightarrow> get_or False (a_exhausted ?a) (bs_name st)"
    using Cons.prems(2) by (simp add: gomap_simps)
  then have "fst (evaluate_loop cur request now tm sts ?a c) = []
      \<and> snd (snd (evaluate_loop cur request now tm sts ?a c)) = c"
    using Cons by simp
  then show ?case using Cons.prems by (auto simp: Let_def)
qed

context mode_controller
begin

lemma actuate_one_mode:
  "cur (snd (actuate_one cur request now tm en st c)) = cur c
   \<or> (en \<and> ac_applied (fst (actuate_one cur request now tm en st c))
      \<and> is_allowed (cur c) (cur (snd (actuate_one cur request now tm en st c)))
      \<and> target_mode_for (fst (sev_parse (bs_on_exhaust st))) = Some (cur (snd (actuate_one cur request now tm en st c))))"
proof (cases "en \<and> (\<exists>t. target_mode_for (fst (sev_parse (bs_on_exhaust st))) = Some t \<and> cur c \<noteq> t)")
  case True
  then obtain t where t: "en" "target_mode_for (fst (sev_parse (bs_on_exhaust st))) = Some t" "cur c \<noteq> t"
    by blast
  show ?thesis
  proof (cases "is_allowed (cur c) t")
    case True
    with request_move [OF t(3) True, of tm "''governance budget exhausted: '' @ bs_name st" "''budget.'' @ bs_name st"]
    show ?thesis using t by (auto simp: actuate_one_def Let_def split: prod.splits)
  next
    case False
    with request_refuse [OF t(3) False] t show ?thesis
      by (simp add: actuate_one_def Let_def)
  qed
next
  case False
  then show ?thesis by (auto simp: actuate_one_def Let_def split: option.splits)
qed

lemma actuate_one_applied:
  "ac_applied (fst (actuate_one cur request now tm en st c)) \<Longrightarrow>
   en \<and> ac_target (fst (actuate_one cur request now tm en st c))
          = mode_string (cur (snd (actuate_one cur request now tm en st c)))"
proof (cases "target_mode_for (fst (sev_parse (bs_on_exhaust st)))")
  case None
  then show "ac_applied (fst (actuate_one cur request now tm en st c)) \<Longrightarrow> ?thesis"
    by (auto simp: actuate_one_def Let_def split: if_splits)
next
  case (Some t)
  assume ap: "ac_applied (fst (actuate_one cur request now tm en st c))"
  then have en: "en" by (auto simp: actuate_one_def Let_def split: if_splits)
  show ?thesis
  proof (cases "cur c = t \<or> is_allowed (cur c) t")
    case True
    then show ?thesis
      using en Some request_move [of c t tm "''governance budget exhausted: '' @ bs_name st" "''budget.'' @ bs_name st"]
      by (auto simp: actuate_one_def Let_def split: prod.splits option.splits)
  next
    case False
    then show ?thesis using ap en Some request_refuse [of c t]
      by (auto simp: actuate_one_def Let_def)
  qed
qed

lemma evaluate_loop_mode:
  "cur (snd (snd (evaluate_loop cur request now tm sts a c))) = cur c
   \<or> (a_enabled a \<and> mode_reach (cur c) (cur (snd (snd (evaluate_loop cur request now tm sts a c))))
      \<and> (\<exists>st \<in> set sts. bs_state st = ''exhausted''
          \<and> target_mode_for (fst (sev_parse (bs_on_exhaust st)))
            = Some (cur (snd (snd (evaluate_loop cur request now tm sts a c))))))"
proof (induction sts arbitrary: a c)
  case Nil
  then show ?case by simp
next
  case (Cons st sts)
  let ?a1 = "a\<lparr>a_exhausted := map_put (bs_name st) (bs_state st = ''exhausted'') (a_exhausted a)\<rparr>"
  show ?case
  proof (cases "bs_state st \<noteq> ''exhausted'' \<or> get_or False (a_exhausted a) (bs_name st)")
    case True
    then have "snd (snd (evaluate_loop cur request now tm (st # sts) a c))
        = snd (snd (evaluate_loop cur request now tm sts ?a1 c))"
      by (auto simp: Let_def)
    with Cons [of ?a1 c] show ?thesis by auto
  next
    case False
    obtain act c1 where one: "actuate_one cur request now tm (a_enabled a) st c = (act, c1)"
      by (cases "actuate_one cur request now tm (a_enabled a) st c")
    let ?a2 = "if ac_applied act then ?a1\<lparr>a_last_applied := Some act\<rparr> else ?a1"
    have eq: "snd (snd (evaluate_loop cur request now tm (st # sts) a c))
        = snd (snd (evaluate_loop cur request now tm sts ?a2 c1))"
      using False one by (auto simp: Let_def split_beta)
    have en: "a_enabled ?a2 = a_enabled a" by simp
    have one_mode: "cur c1 = cur c \<or> (a_enabled a \<and> is_allowed (cur c) (cur c1)
        \<and> target_mode_for (fst (sev_parse (bs_on_exhaust st))) = Some (cur c1))"
      using actuate_one_mode [of now tm "a_enabled a" st c] one by auto
    have "mode_reach (cur c) (cur c1)"
      using one_mode by (auto intro: mode_reach.intros)
    with one_mode Cons [of ?a2 c1] False show ?thesis
      unfolding eq en by (auto intro: mode_reach_trans)
  qed
qed

end

section \<open>The ledger against an unpruned log\<close>

text \<open>
  The specification keeps every charge since the last acknowledgement and never drops one; the
  ledger prunes at each Status. The operations a caller can make, with the clock each one reads.
\<close>

datatype budget_op = BRecord level string time | BRecordTo string string time | BAck string time | BStatus time

fun bop_time :: "budget_op \<Rightarrow> time" where
  "bop_time (BRecord _ _ t) = t"
| "bop_time (BRecordTo _ _ t) = t"
| "bop_time (BAck _ t) = t"
| "bop_time (BStatus t) = t"

fun bop_step :: "budget_op \<Rightarrow> ledger \<Rightarrow> ledger" where
  "bop_step (BRecord lvl src now) l = record_from lvl src now l"
| "bop_step (BRecordTo name src now) l = record_to name src now l"
| "bop_step (BAck name now) l = snd (acknowledge name now l)"
| "bop_step (BStatus now) l = snd (led_status now l)"

fun log_step :: "brule list \<Rightarrow> budget_op \<Rightarrow> (string \<Rightarrow> charge list) \<Rightarrow> (string \<Rightarrow> charge list)" where
  "log_step rules (BRecord lvl src now) log =
     (\<lambda>n. log n @ replicate (length (filter (\<lambda>r. br_tracks r = lvl \<and> br_name r = n) rules))
        \<lparr>ch_at = now, ch_source = src\<rparr>)"
| "log_step rules (BRecordTo name src now) log =
     (if name \<in> br_name ` set rules then log(name := log name @ [\<lparr>ch_at = now, ch_source = src\<rparr>]) else log)"
| "log_step rules (BAck name now) log = (if name \<in> br_name ` set rules then log(name := []) else log)"
| "log_step rules (BStatus now) log = log"

lemma record_fold_hits:
  "get_or [] (fold (\<lambda>r hits. if br_tracks r = lvl then add_charge (br_name r) c hits else hits) rs hits) n
     = get_or [] hits n @ replicate (length (filter (\<lambda>r. br_tracks r = lvl \<and> br_name r = n) rs)) c"
proof (induction rs arbitrary: hits)
  case Nil
  then show ?case by simp
next
  case (Cons r rs)
  have "[c] @ replicate k c = replicate (Suc k) c" for k by simp
  with Cons show ?case by (auto simp: add_charge_def gomap_simps)
qed

lemma find_name: "find (\<lambda>r. br_name r = n) rs = None \<longleftrightarrow> n \<notin> br_name ` set rs"
  by (auto simp: find_None_iff)

lemma find_name_Some: "find (\<lambda>r. br_name r = n) rs = Some r \<Longrightarrow> br_name r = n \<and> n \<in> br_name ` set rs"
  by (auto simp: find_Some_iff)

text \<open>From the clock t on, the pruned charges and the log agree on every later window.\<close>

definition log_agrees :: "ledger \<Rightarrow> (string \<Rightarrow> charge list) \<Rightarrow> time \<Rightarrow> bool" where
  "log_agrees l log t \<longleftrightarrow> (\<forall>r \<in> set (led_rules l). \<forall>now \<ge> t.
     window_kept now r (get_or [] (led_hits l) (br_name r)) = window_kept now r (log (br_name r)))"

lemma bop_step_rules [simp]: "led_rules (bop_step op l) = led_rules l"
  by (cases op) (auto simp: record_from_def record_to_def acknowledge_def led_status_simps split: option.splits)

lemma window_kept_append [simp]: "window_kept now r (a @ b) = window_kept now r a @ window_kept now r b"
  by (simp add: window_kept_def)

lemma window_kept_later: "t \<le> now \<Longrightarrow> window_kept now r (window_kept t r cs) = window_kept now r cs"
  by (auto simp: window_kept_def intro: filter_cong)

lemma log_agrees_mono: "log_agrees l log t \<Longrightarrow> t \<le> t' \<Longrightarrow> log_agrees l log t'"
  by (auto simp: log_agrees_def)

lemma log_agrees_step:
  assumes inv: "log_agrees l log t" and dist: "distinct (map br_name (led_rules l))" and "t \<le> bop_time op"
  shows "log_agrees (bop_step op l) (log_step (led_rules l) op log) (bop_time op)"
proof (cases op)
  case (BRecord lvl src now)
  with assms show ?thesis
    by (auto simp: log_agrees_def record_from_def record_fold_hits)
next
  case (BRecordTo name src now)
  show ?thesis
  proof (cases "find (\<lambda>r. br_name r = name) (led_rules l)")
    case None
    then have "name \<notin> br_name ` set (led_rules l)" by (rule find_name [THEN iffD1])
    with None assms BRecordTo show ?thesis by (auto simp: log_agrees_def record_to_def)
  next
    case (Some r)
    with assms BRecordTo find_name_Some [OF Some] show ?thesis
      by (auto simp: log_agrees_def record_to_def add_charge_def gomap_simps)
  qed
next
  case (BAck name now)
  with assms show ?thesis
    by (auto simp: log_agrees_def acknowledge_def gomap_simps list_ex_iff window_kept_def)
next
  case (BStatus now)
  have "get_or [] (led_hits (snd (led_status now l))) (br_name r)
      = window_kept now r (get_or [] (led_hits l) (br_name r))" if "r \<in> set (led_rules l)" for r
    using status_loop_snd [OF dist that] by (simp add: led_status_def split_beta Let_def)
  with assms BStatus show ?thesis
    by (simp add: log_agrees_def led_status_simps window_kept_later)
qed

lemma log_agrees_run:
  assumes "log_agrees l log t" and "distinct (map br_name (led_rules l))"
    and "sorted (map bop_time ops)" and "\<forall>op \<in> set ops. t \<le> bop_time op"
    and "\<forall>op \<in> set ops. bop_time op \<le> now" and "t \<le> now"
  shows "log_agrees (fold bop_step ops l) (fold (log_step (led_rules l)) ops log) now"
  using assms
proof (induction ops arbitrary: l log t)
  case Nil
  then show ?case by (simp add: log_agrees_mono)
next
  case (Cons op ops)
  have "log_agrees (bop_step op l) (log_step (led_rules l) op log) (bop_time op)"
    using Cons.prems by (intro log_agrees_step) auto
  then have "log_agrees (fold bop_step ops (bop_step op l))
      (fold (log_step (led_rules (bop_step op l))) ops (log_step (led_rules l) op log)) now"
    using Cons.prems by (intro Cons.IH) auto
  then show ?case by simp
qed

lemma fold_bop_rules [simp]: "led_rules (fold bop_step ops l) = led_rules l"
  by (induction ops arbitrary: l) auto

section \<open>Properties\<close>

text \<open>
  C14. The ledger refines an unpruned log. For rules with distinct names and any sequence of Record,
  RecordTo, Acknowledge and Status calls with a clock that does not go back, Status at a later time
  reports for every rule exactly what the log of all charges since the last acknowledgement of that
  rule gives: the charges inside the window, their remaining allowance, state, recommendation and
  ranked contributors. Pruning loses nothing and no rule sees another rule's charges.
\<close>

theorem ledger_refines_log:
  assumes "distinct (map br_name rules)" and "sorted (map bop_time ops)"
    and "\<forall>op \<in> set ops. bop_time op \<le> now"
    and "l = fold bop_step ops (new_ledger rules)" and "log = fold (log_step rules) ops (\<lambda>n. [])"
  shows "fst (led_status now l)
    = map (\<lambda>r. status_of now r (filter (\<lambda>c. ch_at c > now - br_window r) (log (br_name r))) (led_acks l)) rules"
proof -
  define t where "t = (if ops = [] then now else bop_time (hd ops))"
  have "\<forall>op \<in> set ops. t \<le> bop_time op" and "t \<le> now"
    using assms(2,3) by (cases ops; auto simp: t_def)+
  then have "log_agrees l log now"
    using log_agrees_run [of "new_ledger rules" "\<lambda>n. []" t ops now] assms
    by (simp add: log_agrees_def new_ledger_def)
  then show ?thesis
    using assms(1,4) by (simp add: led_status_eq log_agrees_def new_ledger_def window_kept_def cong: map_cong)
qed

theorem ledger_refines_log_witness:
  "map bs_consumed (fst (led_status (11 * minute)
     (fold bop_step [BRecord Warn ''db'' 0, BStatus (5 * minute), BRecordTo ''bot-attack-intensity'' ''shield'' (6 * minute)]
       (new_ledger budget_default_rules)))) = [0, 0, 0, 1]"
proof -
  let ?ops = "[BRecord Warn ''db'' 0, BStatus (5 * minute), BRecordTo ''bot-attack-intensity'' ''shield'' (6 * minute)]"
  have "fst (led_status (11 * minute) (fold bop_step ?ops (new_ledger budget_default_rules)))
      = map (\<lambda>r. status_of (11 * minute) r (filter (\<lambda>c. ch_at c > 11 * minute - br_window r)
          (fold (log_step budget_default_rules) ?ops (\<lambda>n. []) (br_name r)))
          (led_acks (fold bop_step ?ops (new_ledger budget_default_rules)))) budget_default_rules"
    by (rule ledger_refines_log [where ops = ?ops, OF _ _ _ refl refl]) (simp_all add: budget_default_rules_def dur_defs)
  then show ?thesis
    by (simp add: budget_default_rules_def status_of_def level_defs dur_defs)
qed

text \<open>
  What a status says. For any charges kept for a rule with a positive limit: the state is
  exhausted exactly when the limit is reached, at-risk exactly when one more charge reaches it and
  something was consumed (so a limit of one is never at risk), healthy otherwise; the escalation is
  recommended exactly while exhausted; consumed and remaining add up to the limit until it is
  reached; the contributors are the distinct named sources of the kept charges, in descending order
  of how many charges each made.
\<close>

theorem status_of_spec:
  assumes "0 < br_limit r"
  shows "let st = status_of now r kept acks; n = int (length kept) in
      (bs_state st = ''exhausted'' \<longleftrightarrow> n \<ge> br_limit r)
    \<and> (bs_state st = ''at-risk'' \<longleftrightarrow> n = br_limit r - 1 \<and> br_limit r \<noteq> 1)
    \<and> (bs_state st = ''healthy'' \<longleftrightarrow> n < br_limit r - 1 \<or> n = 0)
    \<and> (bs_recommended st = (if n \<ge> br_limit r then level_string (br_on_exhaust r) else ''''))
    \<and> (n < br_limit r \<longrightarrow> bs_consumed st + bs_remaining st = bs_limit st)
    \<and> set (bs_contributors st) = {s. s \<noteq> '''' \<and> (\<exists>c \<in> set kept. ch_source c = s)}
    \<and> distinct (bs_contributors st)
    \<and> sorted (map (\<lambda>s. (- int (length (filter (\<lambda>c. ch_source c = s) kept)), s)) (bs_contributors st))"
proof -
  let ?m = "count_sources kept []"
  have keys: "gomap_ok ?m" "fst ` set ?m = {s. s \<noteq> '''' \<and> (\<exists>c \<in> set kept. ch_source c = s)}"
    using count_sources_keys [of "[]" kept] by auto
  have vals: "get_or 0 ?m s = int (length (filter (\<lambda>c. ch_source c = s) kept))" if "s \<in> set (rank_sources ?m)" for s
    using that count_sources_value [of "[]" s kept] keys(2) by (auto simp: rank_sources_set)
  have "sorted (map (\<lambda>s. (- get_or 0 ?m s, s)) (rank_sources ?m))"
    by (simp add: rank_sources_def)
  then have "sorted (map (\<lambda>s. (- int (length (filter (\<lambda>c. ch_source c = s) kept)), s)) (rank_sources ?m))"
    using vals by (simp cong: map_cong)
  moreover have "distinct (rank_sources ?m)" using keys(1) by (simp add: rank_sources_def)
  moreover have "set (rank_sources ?m) = {s. s \<noteq> '''' \<and> (\<exists>c \<in> set kept. ch_source c = s)}"
    using keys(2) by (simp add: rank_sources_set)
  moreover have c: "bs_contributors (status_of now r kept acks) = rank_sources ?m"
    by (simp add: status_of_def Let_def)
  ultimately show ?thesis
    using status_of_numbers [OF assms, of now kept acks]
    unfolding Let_def c by - (elim conjE, intro conjI; assumption)
qed

theorem status_of_spec_witness:
  "bs_state (status_of 0 \<lparr>br_name = ''x'', br_tracks = Critical, br_limit = 1, br_window = hour,
      br_on_exhaust = Containment\<rparr> [] []) = ''healthy''"
  using status_of_spec [of "\<lparr>br_name = ''x'', br_tracks = Critical, br_limit = 1, br_window = hour,
      br_on_exhaust = Containment\<rparr>" 0 "[]" "[]"]
  by (simp add: Let_def)



text \<open>
  One actuation per exhaustion. For rules with distinct names, evaluating again at the same
  moment, with no new charge in between, takes no action and leaves the mode engine as it is,
  whatever the first evaluation did: an exhausted budget is actuated only on the edge into
  exhaustion.
\<close>

theorem actuator_one_shot:
  assumes "distinct (map br_name (led_rules l))"
    and "act_evaluate cur req now tm l a c = (acts, l', a', c')"
    and "act_evaluate cur req now tm' l' a' c' = (acts2, l2, a2, c2)"
  shows "acts2 = [] \<and> c2 = c'"
proof -
  let ?sts = "fst (led_status now l)"
  have names: "distinct (map bs_name ?sts)"
    using assms(1) by (simp add: led_status_eq status_of_def Let_def comp_def)
  from assms(2) have l': "l' = snd (led_status now l)"
    and a': "a_exhausted a' = a_exhausted (fst (snd (evaluate_loop cur req now tm ?sts a c)))"
    by (auto simp: act_evaluate_def Let_def split_beta)
  have "\<forall>st \<in> set ?sts. bs_state st = ''exhausted'' \<longrightarrow> get_or False (a_exhausted a') (bs_name st)"
    unfolding a' by (simp add: evaluate_loop_marks [OF names])
  moreover have "fst (led_status now l') = ?sts"
    using led_status_idem [OF assms(1)] l' by simp
  ultimately show ?thesis
    using assms(3) evaluate_loop_quiet [OF names, of a' cur req now tm' c']
    by (auto simp: act_evaluate_def Let_def split_beta)
qed

theorem actuator_one_shot_witness:
  "let cur = (\<lambda>mw. current (fst mw));
       r = act_evaluate cur mgr_transition 5 5
         (record_from Critical ''db'' 4 (new_ledger budget_default_rules)) (new_actuator True) (new_manager, ())
   in fst r \<noteq> [] \<and> fst (act_evaluate cur mgr_transition 5 6 (fst (snd r)) (fst (snd (snd r))) (snd (snd (snd r)))) = []"
proof -
  let ?cur = "\<lambda>mw :: unit manager \<times> unit. current (fst mw)"
  let ?l = "record_from Critical ''db'' 4 (new_ledger budget_default_rules)"
  let ?r = "act_evaluate ?cur mgr_transition 5 5 ?l (new_actuator True) (new_manager, ())"
  let ?q = "act_evaluate ?cur mgr_transition 5 6 (fst (snd ?r)) (fst (snd (snd ?r))) (snd (snd (snd ?r)))"
  have d: "distinct (map br_name (led_rules ?l))"
    by (simp add: record_from_def new_ledger_def budget_default_rules_def)
  have r: "?r = (fst ?r, fst (snd ?r), fst (snd (snd ?r)), snd (snd (snd ?r)))"
    and q: "?q = (fst ?q, fst (snd ?q), fst (snd (snd ?q)), snd (snd (snd ?q)))"
    by (simp_all only: prod.collapse)
  have "fst ?r \<noteq> []" by code_simp
  with actuator_one_shot [OF d r q] show ?thesis by (simp add: Let_def)
qed

end
