(* ===== verification/Civil_Time.thy ===== *)
theory Civil_Time
  imports Vayu_Prelude
begin

text \<open>
  What the modelled code uses of Go's package time beyond comparing instants: the civil date and
  clock of an instant and the three numeric layouts it is formatted with. The date is computed as
  the package computes it, by peeling off cycles of 400, 100, 4 and 1 years. A time is the number
  of nanoseconds since 1 January of year 1, 00:00 UTC, a Monday.

  The main lemma is that comparing two formatted timestamps as text, which is what SQLite does with
  the TEXT columns of the program, is comparing the instants to the second, up to the year 9999.
\<close>

record civil =
  c_year :: int
  c_month :: int
  c_day :: int
  c_hour :: int
  c_min :: int
  c_sec :: int
  c_wday :: int

definition is_leap :: "int \<Rightarrow> bool" where
  "is_leap y \<longleftrightarrow> y mod 4 = 0 \<and> (y mod 100 \<noteq> 0 \<or> y mod 400 = 0)"

text \<open>Year and day of the year (from 0) of a day number.\<close>

definition year_yday :: "int \<Rightarrow> int \<times> int" where
  "year_yday d =
     (let n400 = d div 146097; d = d mod 146097;
          n100 = min 3 (d div 36524); d = d - 36524 * n100;
          n4 = d div 1461; d = d mod 1461;
          n1 = min 3 (d div 365); d = d - 365 * n1
      in (400 * n400 + 100 * n100 + 4 * n4 + n1 + 1, d))"

definition month_starts :: "int \<Rightarrow> int list" where
  "month_starts y = (let l = (if is_leap y then 1 else 0) in
     [0, 31, 59 + l, 90 + l, 120 + l, 151 + l, 181 + l, 212 + l, 243 + l, 273 + l, 304 + l, 334 + l, 365 + l])"

fun month_day :: "nat \<Rightarrow> int list \<Rightarrow> int \<Rightarrow> nat \<times> int" where
  "month_day m (a # b # rest) d = (if d < b then (m, d - a) else month_day (Suc m) (b # rest) d)"
| "month_day m rest d = (m, d)"

definition civil_of :: "time \<Rightarrow> civil" where
  "civil_of t =
     (let s = t div second; d = s div 86400; r = s mod 86400; (y, yd) = year_yday d;
          (m, dd) = month_day 1 (month_starts y) yd
      in \<lparr>c_year = y, c_month = int m, c_day = dd + 1, c_hour = r div 3600, c_min = r mod 3600 div 60,
          c_sec = r mod 60, c_wday = (d + 1) mod 7\<rparr>)"

text \<open>A number padded with zeros to at least \<open>w\<close> digits.\<close>

fun pad :: "nat \<Rightarrow> int \<Rightarrow> string" where
  "pad 0 n = (if n = 0 then [] else nat_digits (nat n))"
| "pad (Suc w) n = pad w (n div 10) @ [char_of (48 + nat (n mod 10))]"

definition fmt_date :: "civil \<Rightarrow> string" where
  "fmt_date c = pad 4 (c_year c) @ ''-'' @ pad 2 (c_month c) @ ''-'' @ pad 2 (c_day c)"

definition fmt_clock :: "civil \<Rightarrow> string" where
  "fmt_clock c = pad 2 (c_hour c) @ '':'' @ pad 2 (c_min c) @ '':'' @ pad 2 (c_sec c)"

text \<open>The layouts \<^verbatim>\<open>2006-01-02 15:04:05\<close>, \<^verbatim>\<open>2006-01-02T15:04:05Z\<close> and \<^verbatim>\<open>2006-01-02T15:04Z\<close>.\<close>

definition fmt_sql :: "time \<Rightarrow> string" where
  "fmt_sql t = (let c = civil_of t in fmt_date c @ '' '' @ fmt_clock c)"

definition fmt_iso :: "time \<Rightarrow> string" where
  "fmt_iso t = (let c = civil_of t in fmt_date c @ ''T'' @ fmt_clock c @ ''Z'')"

definition fmt_minute :: "time \<Rightarrow> string" where
  "fmt_minute t = (let c = civil_of t in fmt_date c @ ''T'' @ pad 2 (c_hour c) @ '':'' @ pad 2 (c_min c) @ ''Z'')"

text \<open>The first instant of the year 10000.\<close>

definition end_of_9999 :: time where
  "end_of_9999 = 3652059 * 86400 * second"

section \<open>The date\<close>

definition days_before :: "int \<Rightarrow> int" where
  "days_before y = 365 * (y - 1) + (y - 1) div 4 - (y - 1) div 100 + (y - 1) div 400"

definition year_len :: "int \<Rightarrow> int" where
  "year_len y = (if is_leap y then 366 else 365)"

lemma div_step:
  fixes y k :: int
  assumes "0 < k"
  shows "y div k = (y - 1) div k + (if y mod k = 0 then 1 else 0)"
proof (cases "y mod k = 0")
  case True
  then have "y - 1 = k * (y div k - 1) + (k - 1)" using mult_div_mod_eq [of k y] by (simp add: algebra_simps)
  then have "(y - 1) div k = y div k - 1" by (rule int_div_pos_eq) (use assms in auto)
  with True show ?thesis by simp
next
  case False
  have "y - 1 = k * (y div k) + (y mod k - 1)" using mult_div_mod_eq [of k y] by simp
  moreover have "0 \<le> y mod k - 1" "y mod k - 1 < k"
    using False assms pos_mod_sign [of k y] pos_mod_bound [of k y] by linarith+
  ultimately have "(y - 1) div k = y div k" by (rule int_div_pos_eq)
  with False show ?thesis by simp
qed

lemma mod_100_dvd: "y mod 400 = 0 \<Longrightarrow> y mod 100 = (0 :: int)" "y mod 100 = 0 \<Longrightarrow> y mod 4 = (0 :: int)"
  by (auto simp: mod_eq_0_iff_dvd intro: dvd_trans [of _ 400] dvd_trans [of _ 100])

lemma days_before_Suc: "days_before (y + 1) = days_before y + year_len y"
proof -
  define p4 p100 p400 where "p4 \<longleftrightarrow> y mod 4 = 0" and "p100 \<longleftrightarrow> y mod 100 = 0" and "p400 \<longleftrightarrow> y mod 400 = 0"
  define a b c where "a = (y - 1) div 4" and "b = (y - 1) div 100" and "c = (y - 1) div 400"
  have s4: "y div 4 = a + (if p4 then 1 else 0)" unfolding a_def p4_def by (rule div_step) simp
  have s100: "y div 100 = b + (if p100 then 1 else 0)" unfolding b_def p100_def by (rule div_step) simp
  have s400: "y div 400 = c + (if p400 then 1 else 0)" unfolding c_def p400_def by (rule div_step) simp
  have imp: "p400 \<longrightarrow> p100" "p100 \<longrightarrow> p4" unfolding p4_def p100_def p400_def by (rule impI, rule mod_100_dvd, assumption)+
  have len: "year_len y = (if p4 \<and> (\<not> p100 \<or> p400) then 366 else 365)"
    by (simp only: year_len_def is_leap_def p4_def p100_def p400_def)
  have "days_before (y + 1) = 365 * y + y div 4 - y div 100 + y div 400" by (simp only: days_before_def add_diff_cancel_right')
  moreover have "days_before y = 365 * (y - 1) + a - b + c" by (simp only: days_before_def a_def b_def c_def)
  ultimately show ?thesis
    unfolding s4 s100 s400 len using imp by (cases p4; cases p100; cases p400) simp_all
qed

lemma year_yday_decomp:
  assumes "year_yday d = (y, r)"
  shows "d = days_before y + r \<and> 0 \<le> r \<and> r < year_len y"
proof -
  define q where "q = d div 146097"
  define a where "a = d mod 146097"
  define n where "n = min 3 (a div 36524)"
  define b where "b = a - 36524 * n"
  define m where "m = b div 1461"
  define c where "c = b mod 1461"
  define k where "k = min 3 (c div 365)"
  have y: "y = 400 * q + 100 * n + 4 * m + k + 1" and r: "r = c - 365 * k"
    using assms unfolding year_yday_def Let_def q_def a_def n_def b_def m_def c_def k_def by auto
  have d: "d = 146097 * q + a" by (simp add: q_def a_def)
  have a: "0 \<le> a" "a < 146097" by (auto simp: a_def)
  have n: "0 \<le> n" "n \<le> 3" and b: "0 \<le> b" "b \<le> 36524" "n < 3 \<Longrightarrow> b < 36524"
    using a unfolding n_def b_def by (auto simp: min_def split: if_splits)
  have bm: "b = 1461 * m + c" by (simp add: m_def c_def)
  have c: "0 \<le> c" "c < 1461" by (auto simp: c_def)
  have m: "0 \<le> m" "m \<le> 24" using b unfolding m_def by auto
  have k: "0 \<le> k" "k \<le> 3" and rr: "0 \<le> r" "r \<le> 365" "k < 3 \<Longrightarrow> r < 365"
    using c unfolding k_def r by (auto simp: min_def split: if_splits)
  have p: "y - 1 = 400 * q + 100 * n + 4 * m + k" using y by simp
  have d4: "(y - 1) div 4 = 100 * q + 25 * n + m"
    by (rule int_div_pos_eq [of _ _ _ k]) (use p k in auto)
  have d100: "(y - 1) div 100 = 4 * q + n"
    by (rule int_div_pos_eq [of _ _ _ "4 * m + k"]) (use p k m n in auto)
  have d400: "(y - 1) div 400 = q"
    by (rule int_div_pos_eq [of _ _ _ "100 * n + 4 * m + k"]) (use p k m n in auto)
  have eq: "d = days_before y + r"
    unfolding days_before_def d4 d100 d400 using d bm r p b_def by simp
  have "r < 365" if "\<not> is_leap y"
  proof (cases "k < 3")
    case True
    with rr show ?thesis by simp
  next
    case False
    with k have k3: "k = 3" by simp
    have "y = 4 * (100 * q + 25 * n + m + 1)" using y k3 by simp
    then have "y mod 4 = 0" by (simp only: mod_mult_self1_is_0)
    with that have y100: "y mod 100 = 0" and y400: "y mod 400 \<noteq> 0" by (auto simp: is_leap_def)
    have m24: "m = 24"
    proof (rule ccontr)
      assume "m \<noteq> 24"
      then have "y mod 100 = 4 * m + 4"
        by (intro int_mod_pos_eq [of _ _ "4 * q + n"]) (use y k3 m in auto)
      then show False using y100 m by simp
    qed
    have n3: "n < 3"
    proof (rule ccontr)
      assume "\<not> n < 3"
      then have "y = 400 * (q + 1)" using n y k3 m24 by simp
      then have "y mod 400 = 0" by (simp only: mod_mult_self1_is_0)
      then show False using y400 by simp
    qed
    then have "b < 36524" using b by simp
    then have "c < 1460" using bm m24 by simp
    then show ?thesis using r k3 by simp
  qed
  then show ?thesis using eq rr by (auto simp: year_len_def)
qed

lemma days_before_mono: "y \<le> y' \<Longrightarrow> days_before y \<le> days_before y'"
proof -
  assume "y \<le> y'"
  have "days_before y \<le> days_before (y + int n)" for n
  proof (induction n)
    case 0
    then show ?case by simp
  next
    case (Suc n)
    have "days_before (y + int (Suc n)) = days_before (y + int n) + year_len (y + int n)"
      using days_before_Suc [of "y + int n"] by (simp add: algebra_simps)
    then show ?case using Suc by (simp add: year_len_def)
  qed
  from this [of "nat (y' - y)"] \<open>y \<le> y'\<close> show ?thesis by simp
qed

lemma year_of_day_less:
  assumes "year_yday d = (y, r)" and "year_yday d' = (y', r')" and "y < y'"
  shows "d < d'"
proof -
  have "d < days_before (y + 1)" using year_yday_decomp [OF assms(1)] by (simp add: days_before_Suc)
  also have "\<dots> \<le> days_before y'" using assms(3) by (intro days_before_mono) simp
  also have "\<dots> \<le> d'" using year_yday_decomp [OF assms(2)] by simp
  finally show ?thesis .
qed

lemma date_less_iff:
  assumes "year_yday d = (y, r)" and "year_yday d' = (y', r')"
  shows "d < d' \<longleftrightarrow> y < y' \<or> y = y' \<and> r < r'"
  using year_of_day_less [OF assms] year_of_day_less [OF assms(2,1)]
    year_yday_decomp [OF assms(1)] year_yday_decomp [OF assms(2)]
  by (metis add_less_cancel_left less_asym linorder_neqE)

lemma month_day_spec:
  assumes "month_day m xs d = (m', r)" and "sorted_wrt (<) xs" and "xs \<noteq> []" and "hd xs \<le> d" and "d < last xs"
  shows "m \<le> m' \<and> m' + 1 < m + length xs \<and> d = xs ! (m' - m) + r \<and> 0 \<le> r \<and> r < xs ! (m' - m + 1) - xs ! (m' - m)"
  using assms
proof (induction m xs d arbitrary: m' r rule: month_day.induct)
  case (1 m a b rest d)
  show ?case
  proof (cases "d < b")
    case True
    with 1 show ?thesis by auto
  next
    case False
    then have "Suc m \<le> m' \<and> m' + 1 < Suc m + length (b # rest) \<and> d = (b # rest) ! (m' - Suc m) + r
        \<and> 0 \<le> r \<and> r < (b # rest) ! (m' - Suc m + 1) - (b # rest) ! (m' - Suc m)"
      using 1 by auto
    moreover from this have "m' - m = Suc (m' - Suc m)" by (metis Suc_diff_le diff_Suc_Suc)
    ultimately show ?thesis by simp
  qed
qed auto

lemma month_starts_facts:
  "sorted_wrt (<) (month_starts y)" "length (month_starts y) = 13" "hd (month_starts y) = 0"
  "last (month_starts y) = year_len y" "month_starts y \<noteq> []"
  "i < 12 \<Longrightarrow> month_starts y ! (i + 1) - month_starts y ! i \<le> 31"
proof -
  show "i < 12 \<Longrightarrow> month_starts y ! (i + 1) - month_starts y ! i \<le> 31"
  proof -
    assume "i < 12"
    then have "i \<in> set [0..<12]" by simp
    moreover have "\<forall>i \<in> set [0..<12]. month_starts y ! (i + 1) - month_starts y ! i \<le> 31"
      by (simp add: upt_rec month_starts_def Let_def)
    ultimately show ?thesis by blast
  qed
qed (auto simp: month_starts_def year_len_def Let_def)

lemma month_starts_mono: "i < j \<Longrightarrow> j < 13 \<Longrightarrow> month_starts y ! i < month_starts y ! j"
  using month_starts_facts(1) [of y] month_starts_facts(2) [of y] by (simp add: sorted_wrt_nth_less)

lemma month_day_of_year:
  assumes "0 \<le> d" and "d < year_len y" and "month_day 1 (month_starts y) d = (m, r)"
  shows "1 \<le> m \<and> m \<le> 12 \<and> d = month_starts y ! (m - 1) + r \<and> 0 \<le> r \<and> d < month_starts y ! m \<and> r < 31"
proof -
  have s: "1 \<le> m \<and> m + 1 < 1 + length (month_starts y) \<and> d = month_starts y ! (m - 1) + r \<and> 0 \<le> r
      \<and> r < month_starts y ! (m - 1 + 1) - month_starts y ! (m - 1)"
    by (rule month_day_spec [OF assms(3)]) (use assms month_starts_facts in auto)
  then have m: "1 \<le> m" "m \<le> 12" using month_starts_facts(2) [of y] by auto
  then have "m - 1 + 1 = m" "m - 1 < 12" by auto
  then show ?thesis using s m month_starts_facts(6) [of "m - 1" y] by auto
qed

lemma month_day_less_iff:
  assumes "0 \<le> d" "d < year_len y" "month_day 1 (month_starts y) d = (m, r)"
    and "0 \<le> d'" "d' < year_len y" "month_day 1 (month_starts y) d' = (m', r')"
  shows "d < d' \<longleftrightarrow> m < m' \<or> m = m' \<and> r < r'"
proof -
  have *: "d < d'" if "m < m'" and "1 \<le> m \<and> m \<le> 12 \<and> d < month_starts y ! m"
    and "1 \<le> m' \<and> m' \<le> 12 \<and> d' = month_starts y ! (m' - 1) + r' \<and> 0 \<le> r'" for m m' d d' r'
  proof -
    have "month_starts y ! m \<le> month_starts y ! (m' - 1)"
    proof (cases "m = m' - 1")
      case False
      then have "m < m' - 1" "m' - 1 < 13" using that by linarith+
      then show ?thesis using month_starts_mono [of m "m' - 1" y] by simp
    qed simp
    with that show ?thesis by simp
  qed
  note A = month_day_of_year [OF assms(1-3)] and B = month_day_of_year [OF assms(4-6)]
  consider "m < m'" | "m = m'" | "m' < m" by linarith
  then show ?thesis
  proof cases
    case 1
    with * [of m m' d d' r'] A B show ?thesis by auto
  next
    case 2
    with A B show ?thesis by auto
  next
    case 3
    with * [of m' m d' d r] A B show ?thesis by auto
  qed
qed

section \<open>The text\<close>

lemma length_pad: "0 \<le> n \<Longrightarrow> n < 10 ^ w \<Longrightarrow> length (pad w n) = w"
proof (induction w arbitrary: n)
  case (Suc w)
  then have "0 \<le> n div 10" "n div 10 < 10 ^ w" by auto
  with Suc.IH [of "n div 10"] show ?case by simp
qed simp

lemma lex_append:
  fixes a b x y :: "'a :: linorder list"
  assumes "length a = length b"
  shows "a @ x < b @ y \<longleftrightarrow> a < b \<or> a = b \<and> x < y"
  using assms by (induction a b rule: list_induct2) auto

lemma digit_less: "0 \<le> a \<Longrightarrow> a < 10 \<Longrightarrow> 0 \<le> b \<Longrightarrow> b < (10 :: int) \<Longrightarrow>
  [char_of (48 + nat a) :: char] < [char_of (48 + nat b)] \<longleftrightarrow> a < b"
  by (auto simp: less_char_def)

lemma digit_eq: "0 \<le> a \<Longrightarrow> a < 10 \<Longrightarrow> 0 \<le> b \<Longrightarrow> b < (10 :: int) \<Longrightarrow>
  (char_of (48 + nat a) :: char) = char_of (48 + nat b) \<longleftrightarrow> a = b"
  by (auto simp: char_of_eq_iff take_bit_eq_mod dest!: arg_cong [where f = "of_char :: char \<Rightarrow> nat"])

lemma divmod_less_iff:
  fixes m n k :: int
  assumes "0 < k"
  shows "m < n \<longleftrightarrow> m div k < n div k \<or> m div k = n div k \<and> m mod k < n mod k"
proof -
  have "m div k \<le> n div k" if "m < n" using that assms by (intro zdiv_mono1) auto
  moreover have "n div k \<le> m div k" if "n \<le> m" using that assms by (intro zdiv_mono1) auto
  ultimately show ?thesis
    using mult_div_mod_eq [of k m] mult_div_mod_eq [of k n] by (metis add_less_cancel_left leD leI le_less)
qed

lemma divmod_eq_iff: "(m :: int) = n \<longleftrightarrow> m div k = n div k \<and> m mod k = n mod k"
  by (metis mult_div_mod_eq)

lemma pad_order:
  assumes "0 \<le> m" "m < 10 ^ w" "0 \<le> n" "n < 10 ^ w"
  shows "(pad w m < pad w n \<longleftrightarrow> m < n) \<and> (pad w m = pad w n \<longleftrightarrow> m = n)"
  using assms
proof (induction w arbitrary: m n)
  case (Suc w)
  have r: "0 \<le> m div 10" "m div 10 < 10 ^ w" "0 \<le> n div 10" "n div 10 < 10 ^ w"
    using Suc.prems by auto
  note IH = Suc.IH [OF r]
  have len: "length (pad w (m div 10)) = length (pad w (n div 10))"
    using r by (simp add: length_pad)
  have d: "0 \<le> m mod 10" "m mod 10 < 10" "0 \<le> n mod 10" "n mod 10 < 10" by auto
  have "pad (Suc w) m < pad (Suc w) n \<longleftrightarrow> m < n"
    unfolding pad.simps lex_append [OF len] digit_less [OF d] divmod_less_iff [of 10 m n, OF zero_less_numeral] using IH by blast
  moreover have "pad (Suc w) m = pad (Suc w) n \<longleftrightarrow> m div 10 = n div 10 \<and> m mod 10 = n mod 10"
    unfolding pad.simps append_eq_append_conv [OF disjI1 [OF len]] list.inject digit_eq [OF d] using IH by blast
  ultimately show ?case using divmod_eq_iff [of m n 10] by blast
qed simp

lemma pad_lex:
  assumes "0 \<le> m" "m < 10 ^ w" "0 \<le> n" "n < 10 ^ w"
  shows "pad w m @ x < pad w n @ y \<longleftrightarrow> m < n \<or> m = n \<and> x < y"
  using pad_order [OF assms] lex_append [of "pad w m" "pad w n" x y] assms by (simp add: length_pad)

lemma sep_lex: "(c # x :: string) < c # y \<longleftrightarrow> x < y"
  by simp

definition civil_ok :: "civil \<Rightarrow> bool" where
  "civil_ok c \<longleftrightarrow> 1 \<le> c_month c \<and> c_month c \<le> 12 \<and> 1 \<le> c_day c \<and> c_day c \<le> 31
     \<and> 0 \<le> c_hour c \<and> c_hour c < 24 \<and> 0 \<le> c_min c \<and> c_min c < 60 \<and> 0 \<le> c_sec c \<and> c_sec c < 60
     \<and> 0 \<le> c_wday c \<and> c_wday c < 7"

lemma civil_of_ok: "civil_ok (civil_of t)"
proof -
  obtain y yd where y: "year_yday (t div second div 86400) = (y, yd)" by (cases "year_yday (t div second div 86400)")
  obtain m r where m: "month_day 1 (month_starts y) yd = (m, r)" by (cases "month_day 1 (month_starts y) yd")
  have "1 \<le> m \<and> m \<le> 12 \<and> 0 \<le> r \<and> r < 31"
    using year_yday_decomp [OF y] month_day_of_year [OF _ _ m] by auto
  then show ?thesis using y m by (auto simp: civil_ok_def civil_of_def Let_def)
qed

lemma year_small:
  assumes "0 \<le> d" and "d < 3652059" and "year_yday d = (y, r)"
  shows "1 \<le> y \<and> y < 10000"
proof (rule conjI; rule ccontr)
  note dec = year_yday_decomp [OF assms(3)]
  have b1: "days_before 1 = 0" and b10: "days_before 10000 = 3652059" by (simp_all add: days_before_def)
  {
    assume "\<not> 1 \<le> y"
    then have "days_before (y + 1) \<le> days_before 1" by (intro days_before_mono) simp
    then show False using dec assms(1) b1 by (simp add: days_before_Suc)
  next
    assume "\<not> y < 10000"
    then have "days_before 10000 \<le> days_before y" by (intro days_before_mono) simp
    then show False using dec assms(2) b10 by simp
  }
qed

definition civil_less :: "civil \<Rightarrow> civil \<Rightarrow> bool" where
  "civil_less a b \<longleftrightarrow> c_year a < c_year b \<or> c_year a = c_year b \<and>
    (c_month a < c_month b \<or> c_month a = c_month b \<and>
    (c_day a < c_day b \<or> c_day a = c_day b \<and>
    (c_hour a < c_hour b \<or> c_hour a = c_hour b \<and>
    (c_min a < c_min b \<or> c_min a = c_min b \<and> c_sec a < c_sec b))))"

lemma clock_less:
  fixes a b :: int
  shows "a < b \<longleftrightarrow> a div 3600 < b div 3600 \<or> a div 3600 = b div 3600 \<and>
    (a mod 3600 div 60 < b mod 3600 div 60 \<or> a mod 3600 div 60 = b mod 3600 div 60 \<and> a mod 60 < b mod 60)"
proof -
  have "x mod 3600 mod 60 = x mod 60" for x :: int by (rule mod_mod_cancel) simp
  then show ?thesis
    using divmod_less_iff [of 3600 a b] divmod_less_iff [of 60 "a mod 3600" "b mod 3600"]
    by (simp only: zero_less_numeral simp_thms)
qed

lemma date_parts_less:
  assumes "year_yday d = (y, r)" "month_day 1 (month_starts y) r = (m, e)"
    and "year_yday d' = (y', r')" "month_day 1 (month_starts y') r' = (m', e')"
  shows "d < d' \<longleftrightarrow> y < y' \<or> y = y' \<and> (m < m' \<or> m = m' \<and> e < e')"
proof (cases "y = y'")
  case True
  have "0 \<le> r" "r < year_len y" "0 \<le> r'" "r' < year_len y"
    using year_yday_decomp [OF assms(1)] year_yday_decomp [OF assms(3)] True by blast+
  from month_day_less_iff [OF this(1,2) assms(2) this(3,4)] assms(4) True
  have "r < r' \<longleftrightarrow> m < m' \<or> m = m' \<and> e < e'" by blast
  then show ?thesis unfolding date_less_iff [OF assms(1,3)] using True by blast
qed (simp only: date_less_iff [OF assms(1,3)] simp_thms)

lemma civil_less_iff: "civil_less (civil_of t) (civil_of u) \<longleftrightarrow> t div second < u div second"
proof -
  define s w where "s = t div second" and "w = u div second"
  obtain y r where y: "year_yday (s div 86400) = (y, r)" by (cases "year_yday (s div 86400)")
  obtain y' r' where y': "year_yday (w div 86400) = (y', r')" by (cases "year_yday (w div 86400)")
  obtain m e where m: "month_day 1 (month_starts y) r = (m, e)" by (cases "month_day 1 (month_starts y) r")
  obtain m' e' where m': "month_day 1 (month_starts y') r' = (m', e')" by (cases "month_day 1 (month_starts y') r'")
  note D = date_parts_less [OF y m y' m'] and D' = date_parts_less [OF y' m' y m]
  have eq: "s div 86400 = w div 86400 \<longleftrightarrow> y = y' \<and> m = m' \<and> e = e'"
  proof
    assume "s div 86400 = w div 86400"
    then show "y = y' \<and> m = m' \<and> e = e'" using y y' m m' by simp
  next
    assume "y = y' \<and> m = m' \<and> e = e'"
    then show "s div 86400 = w div 86400" using D D' by (meson less_irrefl linorder_less_linear)
  qed
  have c: "civil_of t = \<lparr>c_year = y, c_month = int m, c_day = e + 1, c_hour = s mod 86400 div 3600,
      c_min = s mod 86400 mod 3600 div 60, c_sec = s mod 86400 mod 60, c_wday = (s div 86400 + 1) mod 7\<rparr>"
    using y m by (simp only: civil_of_def Let_def s_def [symmetric] prod.case)
  have c': "civil_of u = \<lparr>c_year = y', c_month = int m', c_day = e' + 1, c_hour = w mod 86400 div 3600,
      c_min = w mod 86400 mod 3600 div 60, c_sec = w mod 86400 mod 60, c_wday = (w div 86400 + 1) mod 7\<rparr>"
    using y' m' by (simp only: civil_of_def Let_def w_def [symmetric] prod.case)
  have k: "s mod 86400 < w mod 86400 \<longleftrightarrow> c_hour (civil_of t) < c_hour (civil_of u) \<or> c_hour (civil_of t) = c_hour (civil_of u) \<and>
    (c_min (civil_of t) < c_min (civil_of u) \<or> c_min (civil_of t) = c_min (civil_of u) \<and> c_sec (civil_of t) < c_sec (civil_of u))"
    unfolding c c' civil.simps by (rule clock_less)
  have d: "c_year (civil_of t) = y" "c_month (civil_of t) = int m" "c_day (civil_of t) = e + 1"
    "c_year (civil_of u) = y'" "c_month (civil_of u) = int m'" "c_day (civil_of u) = e' + 1"
    unfolding c c' by (simp_all only: civil.simps)
  show ?thesis
    unfolding s_def [symmetric] w_def [symmetric] divmod_less_iff [of 86400 s w, OF zero_less_numeral] civil_less_def k [symmetric] eq D d
      of_nat_less_iff of_nat_eq_iff add_less_cancel_right add_right_cancel
    by blast
qed

lemma year_of_time:
  assumes "0 \<le> t" and "t < end_of_9999"
  shows "0 \<le> c_year (civil_of t)" "c_year (civil_of t) < 10 ^ 4"
proof -
  have "0 \<le> t div second div 86400" using assms(1) by (simp add: second_def)
  moreover have "t div second div 86400 < 3652059"
    using assms(2) by (simp add: second_def end_of_9999_def zdiv_zmult2_eq [symmetric])
  moreover obtain y r where y: "year_yday (t div second div 86400) = (y, r)" by (cases "year_yday (t div second div 86400)")
  moreover have "c_year (civil_of t) = y" using y by (simp add: civil_of_def Let_def split_beta)
  ultimately show "0 \<le> c_year (civil_of t)" "c_year (civil_of t) < 10 ^ 4"
    using year_small [of "t div second div 86400" y r] by auto
qed

lemma civil_digits:
  shows "0 \<le> c_month (civil_of t)" "c_month (civil_of t) < 10 ^ 2" "0 \<le> c_day (civil_of t)" "c_day (civil_of t) < 10 ^ 2"
    "0 \<le> c_hour (civil_of t)" "c_hour (civil_of t) < 10 ^ 2" "0 \<le> c_min (civil_of t)" "c_min (civil_of t) < 10 ^ 2"
    "0 \<le> c_sec (civil_of t)" "c_sec (civil_of t) < 10 ^ 2"
  using civil_of_ok [of t] by (auto simp: civil_ok_def)

text \<open>Formatted timestamps compare as text as the instants do to the second.\<close>

lemma fmt_sql_less_iff:
  assumes "0 \<le> t" "t < end_of_9999" "0 \<le> u" "u < end_of_9999"
  shows "fmt_sql t < fmt_sql u \<longleftrightarrow> t div second < u div second"
proof -
  note y = year_of_time [OF assms(1,2)] year_of_time [OF assms(3,4)]
  have "fmt_sql t < fmt_sql u \<longleftrightarrow> civil_less (civil_of t) (civil_of u)"
    unfolding fmt_sql_def fmt_date_def fmt_clock_def Let_def civil_less_def append.assoc append_Cons append_Nil
      pad_lex [OF y] pad_lex [OF civil_digits(1,2) civil_digits(1,2)] pad_lex [OF civil_digits(3,4) civil_digits(3,4)]
      pad_lex [OF civil_digits(5,6) civil_digits(5,6)] pad_lex [OF civil_digits(7,8) civil_digits(7,8)]
      sep_lex conjunct1 [OF pad_order [OF civil_digits(9,10) civil_digits(9,10)]] by blast
  then show ?thesis by (simp only: civil_less_iff)
qed

lemma fmt_sql_le_iff:
  assumes "0 \<le> t" "t < end_of_9999" "0 \<le> u" "u < end_of_9999"
  shows "fmt_sql t \<le> fmt_sql u \<longleftrightarrow> t div second \<le> u div second"
  using fmt_sql_less_iff [OF assms(3,4,1,2)] by (simp add: not_less [symmetric])

lemma date_eq_iff:
  "c_year (civil_of t) = c_year (civil_of u) \<and> c_month (civil_of t) = c_month (civil_of u) \<and> c_day (civil_of t) = c_day (civil_of u)
     \<longleftrightarrow> t div second div 86400 = u div second div 86400" (is "?l = ?r")
proof
  define d e where "d = t div second div 86400" and "e = u div second div 86400"
  obtain y r where y: "year_yday d = (y, r)" by (cases "year_yday d")
  obtain y' r' where y': "year_yday e = (y', r')" by (cases "year_yday e")
  obtain m x where m: "month_day 1 (month_starts y) r = (m, x)" by (cases "month_day 1 (month_starts y) r")
  obtain m' x' where m': "month_day 1 (month_starts y') r' = (m', x')" by (cases "month_day 1 (month_starts y') r'")
  have f: "c_year (civil_of t) = y \<and> c_month (civil_of t) = int m \<and> c_day (civil_of t) = x + 1"
    using y m by (simp add: civil_of_def Let_def d_def)
  have f': "c_year (civil_of u) = y' \<and> c_month (civil_of u) = int m' \<and> c_day (civil_of u) = x' + 1"
    using y' m' by (simp add: civil_of_def Let_def e_def)
  assume ?l
  then have "y = y' \<and> m = m' \<and> x = x'" using f f' by simp
  then show ?r
    using date_parts_less [OF y m y' m'] date_parts_less [OF y' m' y m]
    unfolding d_def [symmetric] e_def [symmetric] by (meson less_irrefl linorder_less_linear)
qed (simp add: civil_of_def Let_def split_beta)

lemma clock_of_minutes:
  fixes s :: int
  shows "s mod 86400 div 3600 = s div 60 mod 1440 div 60"
    and "s mod 86400 mod 3600 div 60 = s div 60 mod 60"
    and "s div 86400 = s div 60 div 1440"
proof -
  have d: "(60 * x + s mod 60) div 60 = x" for x
    by (rule int_div_pos_eq [of _ _ _ "s mod 60"]) auto
  have "s mod 86400 = 60 * (s div 60 mod 1440) + s mod 60" using zmod_zmult2_eq [of 1440 s 60] by simp
  moreover have "s mod 86400 div 3600 = s mod 86400 div 60 div 60" using zdiv_zmult2_eq [of 60 "s mod 86400" 60] by simp
  ultimately show "s mod 86400 div 3600 = s div 60 mod 1440 div 60" using d by simp
  have "s mod 86400 mod 3600 = s mod 3600" by (rule mod_mod_cancel) simp
  also have "\<dots> = 60 * (s div 60 mod 60) + s mod 60" using zmod_zmult2_eq [of 60 s 60] by simp
  finally show "s mod 86400 mod 3600 div 60 = s div 60 mod 60" using d by simp
  show "s div 86400 = s div 60 div 1440" using zdiv_zmult2_eq [of 1440 s 60] by simp
qed

lemma minute_parts_eq_iff:
  "c_year (civil_of t) = c_year (civil_of u) \<and> c_month (civil_of t) = c_month (civil_of u) \<and> c_day (civil_of t) = c_day (civil_of u)
     \<and> c_hour (civil_of t) = c_hour (civil_of u) \<and> c_min (civil_of t) = c_min (civil_of u)
     \<longleftrightarrow> t div minute = u div minute"
proof -
  define q p where "q = t div second div 60" and "p = u div second div 60"
  have qp: "t div minute = q" "u div minute = p"
    by (simp_all add: q_def p_def second_def minute_def zdiv_zmult2_eq [symmetric])
  have h: "c_hour (civil_of t) = q mod 1440 div 60" "c_hour (civil_of u) = p mod 1440 div 60"
    and m: "c_min (civil_of t) = q mod 60" "c_min (civil_of u) = p mod 60"
    by (simp_all only: civil_of_def Let_def split_beta civil.simps clock_of_minutes q_def p_def)
  have mm: "x mod 1440 mod 60 = x mod 60" for x :: int by (rule mod_mod_cancel) simp
  have "q div 1440 = p div 1440 \<and> q mod 1440 div 60 = p mod 1440 div 60 \<and> q mod 60 = p mod 60 \<longleftrightarrow> q = p"
    using divmod_eq_iff [of q p 1440] divmod_eq_iff [of "q mod 1440" "p mod 1440" 60] mm [of q] mm [of p] by metis
  then show ?thesis
    using date_eq_iff [of t u] unfolding h m qp clock_of_minutes(3) q_def [symmetric] p_def [symmetric] by blast
qed

text \<open>The minute layout tells two instants apart exactly when they are in different minutes.\<close>

lemma fmt_minute_eq_iff:
  assumes "0 \<le> t" "t < end_of_9999" "0 \<le> u" "u < end_of_9999"
  shows "fmt_minute t = fmt_minute u \<longleftrightarrow> t div minute = u div minute"
proof -
  have pad_eq: "pad w a @ x = pad w b @ y \<longleftrightarrow> a = b \<and> x = y"
    if "0 \<le> a" "a < 10 ^ w" "0 \<le> b" "b < 10 ^ w" for w a b x y
    using pad_order [OF that] that by (simp add: length_pad)
  note y = year_of_time [OF assms(1,2)] year_of_time [OF assms(3,4)]
  have "fmt_minute t = fmt_minute u \<longleftrightarrow>
     c_year (civil_of t) = c_year (civil_of u) \<and> c_month (civil_of t) = c_month (civil_of u) \<and> c_day (civil_of t) = c_day (civil_of u)
     \<and> c_hour (civil_of t) = c_hour (civil_of u) \<and> c_min (civil_of t) = c_min (civil_of u)"
    unfolding fmt_minute_def fmt_date_def Let_def append.assoc append_Cons append_Nil
      pad_eq [OF y] pad_eq [OF civil_digits(1,2) civil_digits(1,2)] pad_eq [OF civil_digits(3,4) civil_digits(3,4)]
      pad_eq [OF civil_digits(5,6) civil_digits(5,6)] pad_eq [OF civil_digits(7,8) civil_digits(7,8)] list.inject
    by blast
  then show ?thesis by (simp only: minute_parts_eq_iff)
qed

end
