(* ===== verification/Flow_Cron.thy ===== *)
theory Flow_Cron
  imports Civil_Time
begin

text \<open>
  Five-field cron expressions (src/internal/vayuflow/cron.go): the parser, the match and the
  identity of a firing. The arrays of a Schedule are lists of bool of the source's lengths; an
  error is a value of \<open>cron_error\<close>, which names the field and the reason.
\<close>

record schedule =
  s_minute :: "bool list"
  s_hour :: "bool list"
  s_dom :: "bool list"
  s_month :: "bool list"
  s_dow :: "bool list"
  s_dom_star :: bool
  s_dow_star :: bool
  s_expr :: string

datatype field_error = EmptyField | BadStep string | StepTooWide int | BadRangeStart string
  | BadRangeEnd string | Backwards int int | NotANumber string | OutOfRange int int

datatype cron_error = FieldCount nat string | FieldError string string field_error

text \<open>strings.Fields.\<close>

function fields_acc :: "string \<Rightarrow> string \<Rightarrow> string list" where
  "fields_acc cur s =
     (if s = [] then (if cur = [] then [] else [rev cur])
      else (let n = prefix_len space_runes s in
            if n = 0 then fields_acc (hd s # cur) (tl s)
            else (if cur = [] then [] else [rev cur]) @ fields_acc [] (drop n s)))"
  by pat_completeness auto
termination
proof (relation "measure (\<lambda>(cur, s). length s)", goal_cases)
  case (2 cur s n)
  then show ?case by (cases s) auto
next
  case (3 cur s n)
  then show ?case by (cases s) auto
qed simp

declare fields_acc.simps [simp del]

definition str_fields :: "string \<Rightarrow> string list" where
  "str_fields s = fields_acc [] s"

text \<open>The loop that sets every \<open>step\<close>-th value from \<open>lo\<close> to \<open>hi\<close>; the parser never passes a step below 1.\<close>

function set_range :: "int \<Rightarrow> int \<Rightarrow> int \<Rightarrow> (int \<Rightarrow> bool list \<Rightarrow> bool list) \<Rightarrow> bool list \<Rightarrow> bool list" where
  "set_range v hi step st xs = (if v \<le> hi \<and> 0 < step then set_range (v + step) hi step st (st v xs) else xs)"
  by pat_completeness auto
termination by (relation "measure (\<lambda>(v, hi, step, st, xs). nat (hi + 1 - v))") auto

declare set_range.simps [simp del]

text \<open>The step of a part: what follows its first slash, and the part before it.\<close>

definition part_step :: "int \<Rightarrow> int \<Rightarrow> string \<Rightarrow> field_error + int \<times> string" where
  "part_step mn mx part =
     (if \<not> List.member part (CHR ''/'') then Inr (1, part)
      else (let pre = takeWhile (\<lambda>c. c \<noteq> CHR ''/'') part; post = tl (dropWhile (\<lambda>c. c \<noteq> CHR ''/'') part) in
            case atoi post of
              None \<Rightarrow> Inl (BadStep post)
            | Some n \<Rightarrow> if n \<le> 0 then Inl (BadStep post)
                        else if n > mx - mn + 1 then Inl (StepTooWide n)
                        else Inr (n, pre)))"

definition part_range :: "int \<Rightarrow> int \<Rightarrow> string \<Rightarrow> field_error + int \<times> int" where
  "part_range mn mx part =
     (if part = ''*'' then Inr (mn, mx)
      else if List.member part (CHR ''-'') then
        (let a = takeWhile (\<lambda>c. c \<noteq> CHR ''-'') part; b = tl (dropWhile (\<lambda>c. c \<noteq> CHR ''-'') part) in
         case atoi a of
           None \<Rightarrow> Inl (BadRangeStart a)
         | Some lo \<Rightarrow> (case atoi b of
             None \<Rightarrow> Inl (BadRangeEnd b)
           | Some hi \<Rightarrow> if lo > hi then Inl (Backwards lo hi) else Inr (lo, hi)))
      else (case atoi part of None \<Rightarrow> Inl (NotANumber part) | Some v \<Rightarrow> Inr (v, v)))"

fun parse_parts :: "int \<Rightarrow> int \<Rightarrow> (int \<Rightarrow> bool list \<Rightarrow> bool list) \<Rightarrow> string list \<Rightarrow> bool list \<Rightarrow> field_error + bool list" where
  "parse_parts mn mx st [] xs = Inr xs"
| "parse_parts mn mx st (part # parts) xs =
     (case part_step mn mx part of
        Inl e \<Rightarrow> Inl e
      | Inr (step, part) \<Rightarrow>
          (case part_range mn mx part of
             Inl e \<Rightarrow> Inl e
           | Inr (lo, hi) \<Rightarrow>
               if lo < mn \<or> hi > mx then Inl (OutOfRange mn mx)
               else parse_parts mn mx st parts (set_range lo hi step st xs)))"

definition parse_field :: "string \<Rightarrow> int \<Rightarrow> int \<Rightarrow> (int \<Rightarrow> bool list \<Rightarrow> bool list) \<Rightarrow> bool list \<Rightarrow> field_error + bool list" where
  "parse_field f mn mx st xs = (if f = [] then Inl EmptyField else parse_parts mn mx st (split_ch (CHR '','') f) xs)"

definition set_bit_at :: "int \<Rightarrow> bool list \<Rightarrow> bool list" where
  "set_bit_at v xs = xs[nat v := True]"

definition set_dow :: "int \<Rightarrow> bool list \<Rightarrow> bool list" where
  "set_dow v xs = xs[nat (v mod 7) := True]"

definition parse_cron :: "string \<Rightarrow> cron_error + schedule" where
  "parse_cron expr =
     (let e = trim_space expr in
      case str_fields e of
        [f0, f1, f2, f3, f4] \<Rightarrow>
          (case parse_field f0 0 59 set_bit_at (replicate 60 False) of
             Inl x \<Rightarrow> Inl (FieldError ''minute'' f0 x)
           | Inr mi \<Rightarrow>
          (case parse_field f1 0 23 set_bit_at (replicate 24 False) of
             Inl x \<Rightarrow> Inl (FieldError ''hour'' f1 x)
           | Inr ho \<Rightarrow>
          (case parse_field f2 1 31 set_bit_at (replicate 32 False) of
             Inl x \<Rightarrow> Inl (FieldError ''day-of-month'' f2 x)
           | Inr dm \<Rightarrow>
          (case parse_field f3 1 12 set_bit_at (replicate 13 False) of
             Inl x \<Rightarrow> Inl (FieldError ''month'' f3 x)
           | Inr mo \<Rightarrow>
          (case parse_field f4 0 7 set_dow (replicate 7 False) of
             Inl x \<Rightarrow> Inl (FieldError ''day-of-week'' f4 x)
           | Inr dw \<Rightarrow>
               Inr \<lparr>s_minute = mi, s_hour = ho, s_dom = dm, s_month = mo, s_dow = dw,
                    s_dom_star = (f2 = ''*''), s_dow_star = (f4 = ''*''), s_expr = e\<rparr>)))))
      | fs \<Rightarrow> Inl (FieldCount (length fs) expr))"

text \<open>Schedule.Matches on the civil time of the location the ticker reads cron expressions in.\<close>

definition sched_matches :: "schedule \<Rightarrow> civil \<Rightarrow> bool" where
  "sched_matches s c =
     (if \<not> s_minute s ! nat (c_min c) \<or> \<not> s_hour s ! nat (c_hour c) \<or> \<not> s_month s ! nat (c_month c) then False
      else (let dom_ok = s_dom s ! nat (c_day c); dow_ok = s_dow s ! nat (c_wday c) in
            if s_dom_star s \<and> s_dow_star s then True
            else if s_dom_star s then dow_ok
            else if s_dow_star s then dom_ok
            else dom_ok \<or> dow_ok))"

definition fire_identity :: "time \<Rightarrow> string" where
  "fire_identity t = fmt_minute t"

section \<open>What a field means\<close>

text \<open>
  The reference: the values a field denotes, as the set of numbers each of its parts stands for.
\<close>

definition stepped :: "int \<Rightarrow> int \<Rightarrow> int \<Rightarrow> bool" where
  "stepped v step w \<longleftrightarrow> v \<le> w \<and> (w - v) mod step = 0"

definition part_values :: "int \<Rightarrow> int \<Rightarrow> string \<Rightarrow> int set" where
  "part_values mn mx part =
     (case part_step mn mx part of
        Inl e \<Rightarrow> {}
      | Inr (step, body) \<Rightarrow>
          (case part_range mn mx body of
             Inl e \<Rightarrow> {}
           | Inr (lo, hi) \<Rightarrow> {v. stepped lo step v \<and> v \<le> hi}))"

definition field_values :: "int \<Rightarrow> int \<Rightarrow> string \<Rightarrow> int set" where
  "field_values mn mx f = (\<Union>part \<in> set (split_ch (CHR '','') f). part_values mn mx part)"

lemma stepped_split:
  assumes "0 < step"
  shows "stepped v step w \<longleftrightarrow> w = v \<or> stepped (v + step) step w"
proof -
  have m: "(w - (v + step)) mod step = (w - v) mod step"
    using mod_add_self2 [of "w - (v + step)" step] by (simp add: algebra_simps)
  have "v + step \<le> w" if "v < w" "(w - v) mod step = 0"
    using that zdvd_imp_le [of step "w - v"] by (simp add: mod_eq_0_iff_dvd)
  then show ?thesis unfolding stepped_def using m assms by (cases "w = v") auto
qed

lemma set_range_nth:
  assumes "st = (\<lambda>v xs. xs[g v := True])" and "0 < step"
  shows "length (set_range v hi step st xs) = length xs"
    and "i < length xs \<Longrightarrow> set_range v hi step st xs ! i \<longleftrightarrow> xs ! i \<or> (\<exists>w. stepped v step w \<and> w \<le> hi \<and> g w = i)"
  using assms
proof (induction v hi step st xs rule: set_range.induct)
  case (1 v hi step st xs)
  {
    case 1
    then show ?case using "1.IH"(1) by (subst set_range.simps) auto
  next
    case 2
    show ?case
    proof (cases "v \<le> hi")
      case True
      have "set_range v hi step st xs ! i = set_range (v + step) hi step st (st v xs) ! i"
        using True 2 by (subst set_range.simps) simp
      also have "\<dots> \<longleftrightarrow> (st v xs) ! i \<or> (\<exists>w. stepped (v + step) step w \<and> w \<le> hi \<and> g w = i)"
        using "1.IH"(2) True 2 by simp
      also have "(st v xs) ! i \<longleftrightarrow> xs ! i \<or> g v = i"
        using 2 by (cases "g v = i") auto
      finally show ?thesis using True by (auto simp: stepped_split [OF 2(3), of v])
    next
      case False
      then have "\<not> (stepped v step w \<and> w \<le> hi)" for w by (simp add: stepped_def)
      with False show ?thesis by (subst set_range.simps) auto
    qed
  }
qed

lemma part_step_pos: "part_step mn mx part = Inr (step, body) \<Longrightarrow> 0 < step"
  by (auto simp: part_step_def Let_def split: if_splits option.splits)

lemma parse_parts_nth:
  assumes "st = (\<lambda>v xs. xs[g v := True])" and "parse_parts mn mx st parts xs = Inr ys"
  shows "length ys = length xs \<and> (\<forall>i < length xs. ys ! i \<longleftrightarrow>
      xs ! i \<or> (\<exists>part \<in> set parts. \<exists>w \<in> part_values mn mx part. g w = i))
    \<and> (\<forall>part \<in> set parts. part_values mn mx part \<subseteq> {mn..mx})"
  using assms(2)
proof (induction parts arbitrary: xs)
  case Nil
  then show ?case by simp
next
  case (Cons part parts)
  obtain step body where s: "part_step mn mx part = Inr (step, body)"
    using Cons.prems by (auto split: sum.splits)
  obtain lo hi where r: "part_range mn mx body = Inr (lo, hi)"
    using Cons.prems s by (auto split: sum.splits)
  have b: "mn \<le> lo" "hi \<le> mx" and rest: "parse_parts mn mx st parts (set_range lo hi step st xs) = Inr ys"
    using Cons.prems s r by (auto split: if_splits)
  note nth = set_range_nth [OF assms(1) part_step_pos [OF s]]
  have pv: "part_values mn mx part = {v. stepped lo step v \<and> v \<le> hi}"
    using s r by (simp add: part_values_def)
  show ?case using Cons.IH [OF rest] b by (auto simp: nth pv stepped_def)
qed

lemma parse_field_nth:
  assumes "st = (\<lambda>v xs. xs[g v := True])" and "parse_field f mn mx st xs = Inr ys"
  shows "length ys = length xs \<and> (\<forall>i < length xs. ys ! i \<longleftrightarrow> xs ! i \<or> (\<exists>w \<in> field_values mn mx f. g w = i))
    \<and> field_values mn mx f \<subseteq> {mn..mx}"
  using parse_parts_nth [OF assms(1)] assms(2)
  by (simp add: parse_field_def field_values_def split: if_splits) blast

text \<open>Every array of a parsed schedule has the source's length, so Matches never indexes out of range.\<close>

definition sched_ok :: "schedule \<Rightarrow> bool" where
  "sched_ok s \<longleftrightarrow> length (s_minute s) = 60 \<and> length (s_hour s) = 24 \<and> length (s_dom s) = 32
     \<and> length (s_month s) = 13 \<and> length (s_dow s) = 7"

lemma set_bit_at_update: "set_bit_at = (\<lambda>v xs. xs[nat v := True])"
  by (simp add: set_bit_at_def fun_eq_iff)

lemma set_dow_update: "set_dow = (\<lambda>v xs. xs[nat (v mod 7) := True])"
  by (simp add: set_dow_def fun_eq_iff)

lemma parsed_field_nth:
  assumes "parse_field f mn mx set_bit_at (replicate n False) = Inr ys" and "mx < int n" and "0 \<le> mn"
  shows "length ys = n" and "field_values mn mx f \<subseteq> {mn..mx}"
    and "0 \<le> v \<Longrightarrow> v < int n \<Longrightarrow> ys ! nat v \<longleftrightarrow> v \<in> field_values mn mx f"
proof -
  note p = parse_field_nth [OF set_bit_at_update assms(1)]
  then show "length ys = n" and r: "field_values mn mx f \<subseteq> {mn..mx}" by auto
  assume v: "0 \<le> v" "v < int n"
  then have "ys ! nat v \<longleftrightarrow> (\<exists>w \<in> field_values mn mx f. nat w = nat v)"
    using p by simp
  also have "\<dots> \<longleftrightarrow> v \<in> field_values mn mx f"
  proof -
    have "w = v" if "w \<in> field_values mn mx f" "nat w = nat v" for w
      using that r assms(3) v(1) eq_nat_nat_iff [of w v] by auto
    then show ?thesis by blast
  qed
  finally show "ys ! nat v \<longleftrightarrow> v \<in> field_values mn mx f" .
qed

lemma parsed_dow_nth:
  assumes "parse_field f 0 7 set_dow (replicate 7 False) = Inr ys"
  shows "length ys = 7"
    and "0 \<le> v \<Longrightarrow> v < 7 \<Longrightarrow> ys ! nat v \<longleftrightarrow> (\<exists>w \<in> field_values 0 7 f. w mod 7 = v)"
proof -
  note p = parse_field_nth [OF set_dow_update assms]
  then show "length ys = 7" by simp
  assume v: "0 \<le> v" "v < 7"
  then have "ys ! nat v \<longleftrightarrow> (\<exists>w \<in> field_values 0 7 f. nat (w mod 7) = nat v)"
    using p by simp
  then show "ys ! nat v \<longleftrightarrow> (\<exists>w \<in> field_values 0 7 f. w mod 7 = v)"
    using v by (simp add: eq_nat_nat_iff)
qed

lemma parse_cron_cases:
  assumes "parse_cron expr = Inr s"
  obtains f0 f1 f2 f3 f4 where "str_fields (trim_space expr) = [f0, f1, f2, f3, f4]"
    and "parse_field f0 0 59 set_bit_at (replicate 60 False) = Inr (s_minute s)"
    and "parse_field f1 0 23 set_bit_at (replicate 24 False) = Inr (s_hour s)"
    and "parse_field f2 1 31 set_bit_at (replicate 32 False) = Inr (s_dom s)"
    and "parse_field f3 1 12 set_bit_at (replicate 13 False) = Inr (s_month s)"
    and "parse_field f4 0 7 set_dow (replicate 7 False) = Inr (s_dow s)"
    and "s_dom_star s \<longleftrightarrow> f2 = ''*''" and "s_dow_star s \<longleftrightarrow> f4 = ''*''" and "s_expr s = trim_space expr"
  using assms unfolding parse_cron_def Let_def
  by (auto split: list.splits sum.splits)

section \<open>Properties\<close>

text \<open>
  C31. A parsed schedule fires exactly when the expression says. Its trimmed text has five fields;
  the schedule matches a civil time exactly when the minute, the hour and the month are among the
  values of their fields and the day rule holds: with one of the two day fields a bare star the
  other one decides, with both restricted either suffices, and 7 stands for Sunday. The values a
  field denotes never leave its range, so the arrays are never indexed out of bounds.
\<close>

theorem cron_matches_spec:
  assumes "parse_cron expr = Inr s" and "civil_ok c"
  shows "\<exists>f0 f1 f2 f3 f4. str_fields (trim_space expr) = [f0, f1, f2, f3, f4] \<and> sched_ok s \<and>
    sched_matches s c =
      (c_min c \<in> field_values 0 59 f0 \<and> c_hour c \<in> field_values 0 23 f1 \<and> c_month c \<in> field_values 1 12 f3 \<and>
       (let dom = c_day c \<in> field_values 1 31 f2; dow = (\<exists>w \<in> field_values 0 7 f4. w mod 7 = c_wday c) in
        if f2 = ''*'' \<and> f4 = ''*'' then True else if f2 = ''*'' then dow else if f4 = ''*'' then dom else dom \<or> dow))"
proof -
  from assms(1) obtain f0 f1 f2 f3 f4 where f: "str_fields (trim_space expr) = [f0, f1, f2, f3, f4]"
    and p0: "parse_field f0 0 59 set_bit_at (replicate 60 False) = Inr (s_minute s)"
    and p1: "parse_field f1 0 23 set_bit_at (replicate 24 False) = Inr (s_hour s)"
    and p2: "parse_field f2 1 31 set_bit_at (replicate 32 False) = Inr (s_dom s)"
    and p3: "parse_field f3 1 12 set_bit_at (replicate 13 False) = Inr (s_month s)"
    and p4: "parse_field f4 0 7 set_dow (replicate 7 False) = Inr (s_dow s)"
    and st: "s_dom_star s \<longleftrightarrow> f2 = ''*''" "s_dow_star s \<longleftrightarrow> f4 = ''*''"
    by (rule parse_cron_cases)
  note n0 = parsed_field_nth [OF p0, simplified] and n1 = parsed_field_nth [OF p1, simplified]
    and n2 = parsed_field_nth [OF p2, simplified] and n3 = parsed_field_nth [OF p3, simplified]
    and n4 = parsed_dow_nth [OF p4]
  have ok: "sched_ok s" using n0(1) n1(1) n2(1) n3(1) n4(1) by (simp add: sched_ok_def)
  have "sched_matches s c =
      (c_min c \<in> field_values 0 59 f0 \<and> c_hour c \<in> field_values 0 23 f1 \<and> c_month c \<in> field_values 1 12 f3 \<and>
       (let dom = c_day c \<in> field_values 1 31 f2; dow = (\<exists>w \<in> field_values 0 7 f4. w mod 7 = c_wday c) in
        if f2 = ''*'' \<and> f4 = ''*'' then True else if f2 = ''*'' then dow else if f4 = ''*'' then dom else dom \<or> dow))"
  proof -
    have "s_minute s ! nat (c_min c) = (c_min c \<in> field_values 0 59 f0)"
      and "s_hour s ! nat (c_hour c) = (c_hour c \<in> field_values 0 23 f1)"
      and "s_dom s ! nat (c_day c) = (c_day c \<in> field_values 1 31 f2)"
      and "s_month s ! nat (c_month c) = (c_month c \<in> field_values 1 12 f3)"
      and "s_dow s ! nat (c_wday c) = (\<exists>w \<in> field_values 0 7 f4. w mod 7 = c_wday c)"
      using assms(2) n0(3) n1(3) n2(3) n3(3) n4(2) by (auto simp: civil_ok_def)
    note eqs = this
    show ?thesis unfolding sched_matches_def Let_def st eqs by (simp only: if_bool_eq_conj) blast
  qed
  with f ok show ?thesis by blast
qed

theorem cron_matches_spec_witness:
  "\<exists>s. parse_cron ''*/15 9-17 1 * 7'' = Inr s \<and> sched_ok s
    \<and> sched_matches s \<lparr>c_year = 2024, c_month = 6, c_day = 2, c_hour = 9, c_min = 45, c_sec = 0, c_wday = 0\<rparr>"
proof -
  let ?c = "\<lparr>c_year = 2024, c_month = 6, c_day = 2, c_hour = 9, c_min = 45, c_sec = 0, c_wday = 0\<rparr>"
  have "isl (parse_cron ''*/15 9-17 1 * 7'') = False" by code_simp
  then obtain s where s: "parse_cron ''*/15 9-17 1 * 7'' = Inr s"
    by (cases "parse_cron ''*/15 9-17 1 * 7''") auto
  have "case parse_cron ''*/15 9-17 1 * 7'' of Inr s \<Rightarrow> sched_matches s ?c | Inl e \<Rightarrow> False" by code_simp
  then have "sched_matches s ?c" using s by simp
  moreover have "sched_ok s" using cron_matches_spec [OF s, of ?c] by (auto simp: civil_ok_def)
  ultimately show ?thesis using s by blast
qed

text \<open>
  The identity of a scheduled firing is its minute: up to the year 9999, two instants have the
  same identity exactly when they fall in the same minute of UTC.
\<close>

lemma fire_identity_minute:
  assumes "0 \<le> t" "t < end_of_9999" "0 \<le> u" "u < end_of_9999"
  shows "fire_identity t = fire_identity u \<longleftrightarrow> t div minute = u div minute"
  unfolding fire_identity_def by (rule fmt_minute_eq_iff [OF assms])

end
