(* ===== verification/Flow_Condition.thy ===== *)
theory Flow_Condition
  imports Vayu_Prelude
begin

text \<open>
  The closed condition language of a flow (src/internal/vayuflow/condition.go): the save-time check
  Complete, the evaluator Holds with its own depth guard, and the builder for the wire form. The
  kinds are a datatype; a kind byte outside the constants is \<open>CondUnknown\<close>.
\<close>

datatype cond_kind = CondAlways | CondTagEquals | CondAuthorIs | CondStatusIs | CondTitleContains
  | CondSlugIs | CondAll | CondAny | CondNot | CondUnknown nat

datatype condition = Condition (cnd_kind: cond_kind) (cnd_value: string) (cnd_sub: "condition list")

record subject =
  subj_tags :: "string list"
  subj_author :: string
  subj_status :: string
  subj_title :: string
  subj_slug :: string

datatype cond_error = TooDeep | AlwaysTakesNothing | NeedsValue cond_kind | LeafTakesNoChildren cond_kind
  | ComposesNoValue cond_kind | TooManyChildren cond_kind nat | NotTakesNoValue | NotTakesOneChild nat
  | UnknownCondKind nat | NotACondition string

fun cond_kind_string :: "cond_kind \<Rightarrow> string" where
  "cond_kind_string CondAlways = ''always''"
| "cond_kind_string CondTagEquals = ''tag-equals''"
| "cond_kind_string CondAuthorIs = ''author-is''"
| "cond_kind_string CondStatusIs = ''status-is''"
| "cond_kind_string CondTitleContains = ''title-contains''"
| "cond_kind_string CondSlugIs = ''slug-is''"
| "cond_kind_string CondAll = ''all''"
| "cond_kind_string CondAny = ''any''"
| "cond_kind_string CondNot = ''not''"
| "cond_kind_string (CondUnknown n) = ''unknown''"

definition max_condition_depth :: nat where "max_condition_depth = 5"
definition max_condition_children :: nat where "max_condition_children = 16"

definition leaf_condition_kinds :: "cond_kind list" where
  "leaf_condition_kinds = [CondTagEquals, CondAuthorIs, CondStatusIs, CondTitleContains, CondSlugIs]"

definition leaf_condition_names :: "string list" where
  "leaf_condition_names = cond_kind_string CondAlways # map cond_kind_string leaf_condition_kinds"

text \<open>Condition.complete; \<open>subs_complete\<close> is the loop over the children.\<close>

fun cond_complete_at :: "nat \<Rightarrow> condition \<Rightarrow> cond_error option"
  and subs_complete :: "nat \<Rightarrow> condition list \<Rightarrow> cond_error option" where
  "cond_complete_at depth (Condition k v subs) =
     (if depth > max_condition_depth then Some TooDeep
      else case k of
        CondAlways \<Rightarrow> if v \<noteq> [] \<or> subs \<noteq> [] then Some AlwaysTakesNothing else None
      | CondAll \<Rightarrow> if v \<noteq> [] then Some (ComposesNoValue k)
                   else if length subs > max_condition_children then Some (TooManyChildren k (length subs))
                   else subs_complete (depth + 1) subs
      | CondAny \<Rightarrow> if v \<noteq> [] then Some (ComposesNoValue k)
                   else if length subs > max_condition_children then Some (TooManyChildren k (length subs))
                   else subs_complete (depth + 1) subs
      | CondNot \<Rightarrow> if v \<noteq> [] then Some NotTakesNoValue
                   else (case subs of
                           [s] \<Rightarrow> cond_complete_at (depth + 1) s
                         | _ \<Rightarrow> Some (NotTakesOneChild (length subs)))
      | CondUnknown n \<Rightarrow> Some (UnknownCondKind n)
      | _ \<Rightarrow> if trim_space v = [] then Some (NeedsValue k)
             else if subs \<noteq> [] then Some (LeafTakesNoChildren k)
             else None)"
| "subs_complete depth [] = None"
| "subs_complete depth (s # ss) =
     (case cond_complete_at depth s of Some e \<Rightarrow> Some e | None \<Rightarrow> subs_complete depth ss)"

definition cond_complete :: "condition \<Rightarrow> cond_error option" where
  "cond_complete c = cond_complete_at 1 c"

definition leaf_holds :: "cond_kind \<Rightarrow> string \<Rightarrow> subject \<Rightarrow> bool" where
  "leaf_holds k v s =
     (case k of
        CondTagEquals \<Rightarrow> list_ex (\<lambda>t. equal_fold (trim_space t) (trim_space v)) (subj_tags s)
      | CondAuthorIs \<Rightarrow> equal_fold (trim_space (subj_author s)) (trim_space v)
      | CondStatusIs \<Rightarrow> equal_fold (trim_space (subj_status s)) (trim_space v)
      | CondTitleContains \<Rightarrow> contains_sub (to_lower (subj_title s)) (to_lower (trim_space v))
      | CondSlugIs \<Rightarrow> equal_fold (trim_space (subj_slug s)) (trim_space v)
      | _ \<Rightarrow> False)"

text \<open>Condition.holds; \<open>all_hold\<close> and \<open>any_holds\<close> are its two loops.\<close>

fun cond_holds_at :: "subject \<Rightarrow> nat \<Rightarrow> condition \<Rightarrow> bool"
  and all_hold :: "subject \<Rightarrow> nat \<Rightarrow> condition list \<Rightarrow> bool"
  and any_holds :: "subject \<Rightarrow> nat \<Rightarrow> condition list \<Rightarrow> bool" where
  "cond_holds_at s depth (Condition k v subs) =
     (if depth > max_condition_depth then False
      else case k of
        CondAlways \<Rightarrow> True
      | CondAll \<Rightarrow> all_hold s (depth + 1) subs
      | CondAny \<Rightarrow> any_holds s (depth + 1) subs
      | CondNot \<Rightarrow> (case subs of [c] \<Rightarrow> \<not> cond_holds_at s (depth + 1) c | _ \<Rightarrow> False)
      | CondUnknown n \<Rightarrow> False
      | _ \<Rightarrow> leaf_holds k v s)"
| "all_hold s depth [] = True"
| "all_hold s depth (c # cs) = (if \<not> cond_holds_at s depth c then False else all_hold s depth cs)"
| "any_holds s depth [] = False"
| "any_holds s depth (c # cs) = (if cond_holds_at s depth c then True else any_holds s depth cs)"

definition cond_holds :: "condition \<Rightarrow> subject \<Rightarrow> bool" where
  "cond_holds c s = cond_holds_at s 1 c"

fun condition_for_loop :: "cond_kind list \<Rightarrow> string \<Rightarrow> string \<Rightarrow> string \<Rightarrow> cond_error + condition" where
  "condition_for_loop [] k kind value = Inl (NotACondition kind)"
| "condition_for_loop (c # cs) k kind value =
     (if cond_kind_string c \<noteq> k then condition_for_loop cs k kind value
      else if value = [] then Inl (NeedsValue c)
      else Inr (Condition c value []))"

definition condition_for :: "string \<Rightarrow> string \<Rightarrow> cond_error + condition" where
  "condition_for kind value =
     (let k = trim_space (to_lower kind) in
      if k = [] \<or> k = ''always'' then
        (if value \<noteq> [] then Inl AlwaysTakesNothing else Inr (Condition CondAlways [] []))
      else condition_for_loop leaf_condition_kinds k kind value)"

section \<open>The meaning of a condition\<close>

text \<open>
  The reference semantics: no depth, no loops, the ordinary reading of all, any and not over
  whatever tree it is given.
\<close>

fun cond_sem :: "subject \<Rightarrow> condition \<Rightarrow> bool" where
  "cond_sem s (Condition k v subs) =
     (case k of
        CondAlways \<Rightarrow> True
      | CondAll \<Rightarrow> (\<forall>c \<in> set subs. cond_sem s c)
      | CondAny \<Rightarrow> (\<exists>c \<in> set subs. cond_sem s c)
      | CondNot \<Rightarrow> (\<exists>c \<in> set subs. \<not> cond_sem s c)
      | CondUnknown n \<Rightarrow> False
      | _ \<Rightarrow> leaf_holds k v s)"

text \<open>Depth and width of a tree.\<close>

fun cond_depth :: "condition \<Rightarrow> nat" where
  "cond_depth (Condition k v subs) = Suc (fold max (map cond_depth subs) 0)"

fun cond_size :: "condition \<Rightarrow> nat" where
  "cond_size (Condition k v subs) = Suc (sum_list (map cond_size subs))"

lemma all_hold_iff: "all_hold s d cs \<longleftrightarrow> (\<forall>c \<in> set cs. cond_holds_at s d c)"
  by (induction cs) auto

lemma any_holds_iff: "any_holds s d cs \<longleftrightarrow> (\<exists>c \<in> set cs. cond_holds_at s d c)"
  by (induction cs) auto

lemma subs_complete_iff: "subs_complete d cs = None \<longleftrightarrow> (\<forall>c \<in> set cs. cond_complete_at d c = None)"
  by (induction cs) (auto split: option.splits)

lemma complete_holds_sem:
  "cond_complete_at d c = None \<Longrightarrow> cond_holds_at s d c = cond_sem s c"
proof (induction c arbitrary: d)
  case (Condition k v subs)
  then have d: "\<not> d > max_condition_depth" by (auto split: if_splits)
  have sub: "cond_holds_at s (d + 1) c = cond_sem s c" if "c \<in> set subs" "cond_complete_at (d + 1) c = None" for c
    using Condition.IH that by blast
  show ?case
  proof (cases k)
    case CondNot
    then obtain c where "subs = [c]" "cond_complete_at (d + 1) c = None"
      using Condition.prems d by (auto split: if_splits list.splits)
    with sub CondNot d show ?thesis by simp
  qed (use Condition.prems d sub in \<open>auto simp: all_hold_iff any_holds_iff subs_complete_iff leaf_holds_def split: if_splits\<close>)
qed

lemma fold_max_le: "(\<forall>x \<in> set xs. x \<le> b) \<Longrightarrow> a \<le> b \<Longrightarrow> fold max xs a \<le> (b :: nat)"
  by (induction xs arbitrary: a) auto

lemma complete_depth: "cond_complete_at d c = None \<Longrightarrow> cond_depth c + d \<le> max_condition_depth + 1"
proof (induction c arbitrary: d)
  case (Condition k v subs)
  then have d: "d \<le> max_condition_depth" by (auto split: if_splits)
  have "cond_depth c \<le> max_condition_depth - d" if "c \<in> set subs" for c
  proof -
    have "cond_complete_at (d + 1) c = None"
      using Condition.prems that by (cases k) (auto simp: subs_complete_iff split: if_splits list.splits)
    with Condition.IH [OF that, of "d + 1"] show ?thesis by simp
  qed
  then have "fold max (map cond_depth subs) 0 \<le> max_condition_depth - d"
    by (intro fold_max_le) auto
  with d show ?case by simp
qed

lemma complete_children: "cond_complete_at d (Condition k v subs) = None \<Longrightarrow> length subs \<le> max_condition_children"
  by (cases k) (auto simp: max_condition_children_def split: if_splits list.splits)

text \<open>The largest tree of a given depth whose nodes have at most sixteen children.\<close>

fun max_nodes :: "nat \<Rightarrow> nat" where
  "max_nodes 0 = 0"
| "max_nodes (Suc n) = 1 + max_condition_children * max_nodes n"

lemma sum_list_bound: "(\<forall>x \<in> set xs. x \<le> b) \<Longrightarrow> sum_list xs \<le> length xs * (b :: nat)"
  by (induction xs) auto

lemma complete_size: "cond_complete_at d c = None \<Longrightarrow> cond_size c \<le> max_nodes (max_condition_depth + 1 - d)"
proof (induction c arbitrary: d)
  case (Condition k v subs)
  then have d: "d \<le> max_condition_depth" by (auto split: if_splits)
  have "cond_size c \<le> max_nodes (max_condition_depth - d)" if "c \<in> set subs" for c
  proof -
    have "cond_complete_at (d + 1) c = None"
      using Condition.prems that by (cases k) (auto simp: subs_complete_iff split: if_splits list.splits)
    with Condition.IH [OF that, of "d + 1"] show ?thesis by simp
  qed
  then have "sum_list (map cond_size subs) \<le> length subs * max_nodes (max_condition_depth - d)"
    using sum_list_bound [of "map cond_size subs"] by auto
  also have "\<dots> \<le> max_condition_children * max_nodes (max_condition_depth - d)"
    using complete_children [OF Condition.prems] by simp
  also have "Suc \<dots> = max_nodes (max_condition_depth + 1 - d)"
    using d by (simp add: Suc_diff_le)
  finally show ?case by simp
qed

lemma condition_for_complete:
  assumes "condition_for kind value = Inr c"
  shows "cond_complete c = None \<longleftrightarrow> value = [] \<or> trim_space value \<noteq> []"
  using assms
  by (auto simp: condition_for_def cond_complete_def leaf_condition_kinds_def max_condition_depth_def Let_def
      split: if_splits)

section \<open>Properties\<close>

text \<open>
  C35. Evaluation of an accepted condition is total, exact and small. A condition that Complete
  accepts evaluates, on every subject, to its plain meaning: the depth guard of the evaluator never
  cuts it. Its tree is at most five deep, so evaluation recurses at most five times, and has at most
  69905 nodes.
\<close>

theorem accepted_condition_exact:
  assumes "cond_complete c = None"
  shows "cond_holds c s = cond_sem s c \<and> cond_depth c \<le> 5 \<and> cond_size c \<le> 69905"
proof -
  have a: "cond_complete_at 1 c = None" using assms by (simp add: cond_complete_def)
  have "max_nodes (Suc (Suc (Suc (Suc (Suc 0))))) = 69905" by (simp add: max_condition_children_def)
  moreover have "max_condition_depth + 1 - 1 = Suc (Suc (Suc (Suc (Suc 0))))" by (simp add: max_condition_depth_def)
  ultimately have "max_nodes (max_condition_depth + 1 - 1) = 69905" by (simp only:)
  then show ?thesis
    using complete_holds_sem [OF a, of s] complete_depth [OF a] complete_size [OF a]
    by (simp add: cond_holds_def max_condition_depth_def)
qed

theorem accepted_condition_exact_witness:
  "let c = Condition CondAll [] [Condition CondTagEquals ''News '' [], Condition CondNot [] [Condition CondStatusIs ''draft'' []]];
       s = \<lparr>subj_tags = ['' news''], subj_author = [], subj_status = ''published'', subj_title = [], subj_slug = []\<rparr>
   in cond_complete c = None \<and> cond_holds c s \<and> cond_sem s c"
proof -
  let ?c = "Condition CondAll [] [Condition CondTagEquals ''News '' [], Condition CondNot [] [Condition CondStatusIs ''draft'' []]]"
  let ?s = "\<lparr>subj_tags = ['' news''], subj_author = [], subj_status = ''published'', subj_title = [], subj_slug = []\<rparr>"
  have c: "cond_complete ?c = None" and h: "cond_holds ?c ?s" by code_simp+
  with accepted_condition_exact [OF c, of ?s] show ?thesis by simp
qed

end
