(* ===== verification/Flow_Budget.thy ===== *)
theory Flow_Budget
  imports Vayu_Prelude
begin

text \<open>
  The ceilings of a flow and the ledger of one run (src/internal/vayuflow/budget.go). The three
  charge functions share one contract, the locale \<open>ceiling\<close>: a charge is refused exactly at the
  limit and otherwise adds one. The run-time guarantee that spend never passes a ceiling is proved
  once there and interpreted for steps, writes and egress.
\<close>

record fbudget =
  max_steps :: int
  max_runs_hour :: int
  max_writes :: int
  max_egress :: int
  b_timeout :: dur

record spend =
  sp_steps :: int
  sp_writes :: int
  sp_egress :: int

definition budget_ceiling :: int where "budget_ceiling = 10000"
definition max_timeout :: dur where "max_timeout = 6 * hour"

datatype budget_error = NotPositive string int | AboveCeiling string int | TimeoutNotPositive dur
  | TimeoutTooLong dur | WritesExceedSteps int int | EgressExceedsSteps int int

datatype exceeded = Exceeded string int int

fun budget_fields :: "(string \<times> int) list \<Rightarrow> budget_error option" where
  "budget_fields [] = None"
| "budget_fields ((name, v) # rest) =
     (if v \<le> 0 then Some (NotPositive name v)
      else if v > budget_ceiling then Some (AboveCeiling name v)
      else budget_fields rest)"

definition budget_complete :: "fbudget \<Rightarrow> budget_error option" where
  "budget_complete b =
     (case budget_fields [(''MaxStepsPerRun'', max_steps b), (''MaxRunsPerHour'', max_runs_hour b),
                          (''MaxWritesPerRun'', max_writes b), (''MaxEgressPerRun'', max_egress b)] of
        Some e \<Rightarrow> Some e
      | None \<Rightarrow>
          if b_timeout b \<le> 0 then Some (TimeoutNotPositive (b_timeout b))
          else if b_timeout b > max_timeout then Some (TimeoutTooLong (b_timeout b))
          else if max_writes b > max_steps b then Some (WritesExceedSteps (max_writes b) (max_steps b))
          else if max_egress b > max_steps b then Some (EgressExceedsSteps (max_egress b) (max_steps b))
          else None)"

definition zero_spend :: spend where
  "zero_spend = \<lparr>sp_steps = 0, sp_writes = 0, sp_egress = 0\<rparr>"

definition charge_step :: "fbudget \<Rightarrow> spend \<Rightarrow> exceeded + spend" where
  "charge_step b s =
     (if sp_steps s \<ge> max_steps b then Inl (Exceeded ''MaxStepsPerRun'' (max_steps b) (sp_steps s + 1))
      else Inr (s\<lparr>sp_steps := sp_steps s + 1\<rparr>))"

definition charge_write :: "fbudget \<Rightarrow> spend \<Rightarrow> exceeded + spend" where
  "charge_write b s =
     (if sp_writes s \<ge> max_writes b then Inl (Exceeded ''MaxWritesPerRun'' (max_writes b) (sp_writes s + 1))
      else Inr (s\<lparr>sp_writes := sp_writes s + 1\<rparr>))"

definition charge_egress :: "fbudget \<Rightarrow> spend \<Rightarrow> exceeded + spend" where
  "charge_egress b s =
     (if sp_egress s \<ge> max_egress b then Inl (Exceeded ''MaxEgressPerRun'' (max_egress b) (sp_egress s + 1))
      else Inr (s\<lparr>sp_egress := sp_egress s + 1\<rparr>))"

section \<open>The contract of a ceiling\<close>

locale ceiling =
  fixes spent :: "spend \<Rightarrow> int" and limit :: "fbudget \<Rightarrow> int" and chg :: "fbudget \<Rightarrow> spend \<Rightarrow> exceeded + spend"
  assumes chg_refused: "(\<exists>e. chg b s = Inl e) \<longleftrightarrow> limit b \<le> spent s"
    and chg_adds: "chg b s = Inr s' \<Longrightarrow> spent s' = spent s + 1"
begin

lemma chg_within: "chg b s = Inr s' \<Longrightarrow> spent s \<le> spent s' \<and> spent s' \<le> limit b"
  using chg_refused [of b s] chg_adds [of b s s'] by fastforce

lemma chg_ok_iff: "(\<exists>s'. chg b s = Inr s') \<longleftrightarrow> spent s < limit b"
  using chg_refused [of b s] by (metis Inl_Inr_False obj_sumE not_le)

text \<open>From an empty ledger exactly \<open>limit\<close> charges are granted, however many are asked for.\<close>

fun charges :: "fbudget \<Rightarrow> nat \<Rightarrow> spend \<Rightarrow> nat \<times> spend" where
  "charges b 0 s = (0, s)"
| "charges b (Suc n) s =
     (case chg b s of
        Inl e \<Rightarrow> charges b n s
      | Inr s' \<Rightarrow> (let (k, s'') = charges b n s' in (Suc k, s'')))"

lemma charges_granted:
  "spent s \<le> limit b \<Longrightarrow>
   int (fst (charges b n s)) = min (int n) (limit b - spent s) \<and> spent (snd (charges b n s)) = spent s + int (fst (charges b n s))"
proof (induction n arbitrary: s)
  case 0
  then show ?case by simp
next
  case (Suc n)
  show ?case
  proof (cases "chg b s")
    case (Inl e)
    then have "limit b \<le> spent s" using chg_refused by blast
    with Suc Inl show ?thesis by simp
  next
    case (Inr s')
    with chg_within [OF Inr] chg_adds [OF Inr] Suc.IH [of s'] show ?thesis
      by (simp add: split_beta Let_def)
  qed
qed

end

lemmas charge_defs = charge_step_def charge_write_def charge_egress_def

interpretation stp: ceiling sp_steps max_steps charge_step
  by unfold_locales (auto simp: charge_defs split: if_splits)

interpretation wrt: ceiling sp_writes max_writes charge_write
  by unfold_locales (auto simp: charge_defs split: if_splits)

interpretation egr: ceiling sp_egress max_egress charge_egress
  by unfold_locales (auto simp: charge_defs split: if_splits)

lemma charge_others:
  "charge_step b s = Inr s' \<Longrightarrow> sp_writes s' = sp_writes s"
  "charge_step b s = Inr s' \<Longrightarrow> sp_egress s' = sp_egress s"
  "charge_write b s = Inr s' \<Longrightarrow> sp_steps s' = sp_steps s"
  "charge_write b s = Inr s' \<Longrightarrow> sp_egress s' = sp_egress s"
  "charge_egress b s = Inr s' \<Longrightarrow> sp_steps s' = sp_steps s"
  "charge_egress b s = Inr s' \<Longrightarrow> sp_writes s' = sp_writes s"
  by (auto simp: charge_defs split: if_splits)

definition within_budget :: "fbudget \<Rightarrow> spend \<Rightarrow> bool" where
  "within_budget b s \<longleftrightarrow> 0 \<le> sp_steps s \<and> sp_steps s \<le> max_steps b \<and> 0 \<le> sp_writes s \<and> sp_writes s \<le> max_writes b
     \<and> 0 \<le> sp_egress s \<and> sp_egress s \<le> max_egress b"

lemma within_budget_charge:
  "within_budget b s \<Longrightarrow> charge_step b s = Inr s' \<Longrightarrow> within_budget b s'"
  "within_budget b s \<Longrightarrow> charge_write b s = Inr s' \<Longrightarrow> within_budget b s'"
  "within_budget b s \<Longrightarrow> charge_egress b s = Inr s' \<Longrightarrow> within_budget b s'"
  using stp.chg_within [of b s s'] wrt.chg_within [of b s s'] egr.chg_within [of b s s'] charge_others [of b s s']
  by (simp_all add: within_budget_def)

section \<open>What Complete accepts\<close>

lemma budget_fields_iff: "budget_fields fs = None \<longleftrightarrow> (\<forall>(n, v) \<in> set fs. 1 \<le> v \<and> v \<le> 10000)"
  by (induction fs rule: budget_fields.induct) (auto simp: budget_ceiling_def)

lemma budget_complete_iff:
  "budget_complete b = None \<longleftrightarrow>
     1 \<le> max_steps b \<and> max_steps b \<le> 10000 \<and> 1 \<le> max_runs_hour b \<and> max_runs_hour b \<le> 10000
     \<and> 1 \<le> max_writes b \<and> max_writes b \<le> max_steps b \<and> 1 \<le> max_egress b \<and> max_egress b \<le> max_steps b
     \<and> 0 < b_timeout b \<and> b_timeout b \<le> 6 * hour" (is "_ \<longleftrightarrow> ?r")
proof -
  let ?fs = "[(''MaxStepsPerRun'', max_steps b), (''MaxRunsPerHour'', max_runs_hour b),
    (''MaxWritesPerRun'', max_writes b), (''MaxEgressPerRun'', max_egress b)]"
  have "budget_complete b = None \<longleftrightarrow> budget_fields ?fs = None \<and> 0 < b_timeout b \<and> b_timeout b \<le> 6 * hour
      \<and> max_writes b \<le> max_steps b \<and> max_egress b \<le> max_steps b"
    unfolding budget_complete_def max_timeout_def
    by (cases "budget_fields ?fs") (simp_all only: option.case split: if_splits, auto)
  also have "budget_fields ?fs = None \<longleftrightarrow> 1 \<le> max_steps b \<and> max_steps b \<le> 10000 \<and> 1 \<le> max_runs_hour b
      \<and> max_runs_hour b \<le> 10000 \<and> 1 \<le> max_writes b \<and> max_writes b \<le> 10000 \<and> 1 \<le> max_egress b \<and> max_egress b \<le> 10000"
    unfolding budget_fields_iff by simp
  finally show ?thesis by linarith
qed

lemma zero_within: "budget_complete b = None \<Longrightarrow> within_budget b zero_spend"
  by (simp add: budget_complete_iff within_budget_def zero_spend_def)

end
