(* ===== verification/Flow_Doc.thy ===== *)
theory Flow_Doc
  imports Flow_Cron Flow_Condition Flow_Budget
begin

text \<open>
  The capability registry, the owner's ladder and the flow document
  (src/internal/vayuflow/capability.go, role.go and flow.go). The zero value of each enumeration is
  its own constructor, because the source makes it an invalid answer. The functions that format
  a message return the error as a value of \<open>flow_error\<close>.
\<close>

section \<open>Capabilities\<close>

datatype effect_kind = KindUnset | KindContent | KindMail | KindEgress | KindModel | KindAdmin
datatype write_policy = WriteUnset | WriteNone | WriteDraft | WriteLive
datatype onion_policy = OnionUnset | OnionInert | OnionActive
datatype reversible = ReversibleUnset | ReversibleByOperator | Irreversible

fun effect_kind_string :: "effect_kind \<Rightarrow> string" where
  "effect_kind_string KindContent = ''content''"
| "effect_kind_string KindMail = ''mail''"
| "effect_kind_string KindEgress = ''egress''"
| "effect_kind_string KindModel = ''model''"
| "effect_kind_string KindAdmin = ''admin''"
| "effect_kind_string KindUnset = ''unset''"

fun write_policy_string :: "write_policy \<Rightarrow> string" where
  "write_policy_string WriteNone = ''none''"
| "write_policy_string WriteDraft = ''draft''"
| "write_policy_string WriteLive = ''live''"
| "write_policy_string WriteUnset = ''unset''"

fun onion_policy_string :: "onion_policy \<Rightarrow> string" where
  "onion_policy_string OnionInert = ''inert''"
| "onion_policy_string OnionActive = ''active''"
| "onion_policy_string OnionUnset = ''unset''"

fun reversible_string :: "reversible \<Rightarrow> string" where
  "reversible_string ReversibleByOperator = ''reversible''"
| "reversible_string Irreversible = ''irreversible''"
| "reversible_string ReversibleUnset = ''unset''"

text \<open>The order of the constants, which the comparisons of the source use.\<close>

fun write_rank :: "write_policy \<Rightarrow> nat" where
  "write_rank WriteUnset = 0"
| "write_rank WriteNone = 1"
| "write_rank WriteDraft = 2"
| "write_rank WriteLive = 3"

definition at_most :: "write_policy \<Rightarrow> write_policy \<Rightarrow> bool" where
  "at_most w c \<longleftrightarrow> w \<noteq> WriteUnset \<and> c \<noteq> WriteUnset \<and> write_rank w \<le> write_rank c"

record capability =
  cap_action :: string
  cap_kind :: effect_kind
  cap_writes :: write_policy
  cap_onion :: onion_policy
  cap_undo :: reversible
  cap_min_role :: string
  cap_rationale :: string

section \<open>Roles\<close>

definition role_admin :: string where "role_admin = ''admin''"
definition role_editor :: string where "role_editor = ''editor''"
definition role_author :: string where "role_author = ''author''"

definition role_rank :: "(string, nat) gomap" where
  "role_rank = [(role_author, 1), (role_editor, 2), (role_admin, 3)]"

definition valid_owner_role :: "string \<Rightarrow> bool" where
  "valid_owner_role role \<longleftrightarrow> map_get role_rank role \<noteq> None"

definition owner_at_least :: "string \<Rightarrow> string \<Rightarrow> bool" where
  "owner_at_least have_r need =
     (case (map_get role_rank have_r, map_get role_rank need) of
        (Some h, Some n) \<Rightarrow> h \<ge> n
      | _ \<Rightarrow> False)"

definition owner_satisfies :: "string \<Rightarrow> string \<Rightarrow> bool" where
  "owner_satisfies have_r need = owner_at_least have_r need"

section \<open>The registry\<close>

datatype cap_error = NoActionName | NoKind string | NoWriteCeiling string | NoOnion string | NoUndo string
  | NoMinRole string string | NoRationale string

definition cap_complete :: "capability \<Rightarrow> cap_error option" where
  "cap_complete c =
     (if cap_action c = [] then Some NoActionName
      else if cap_kind c = KindUnset then Some (NoKind (cap_action c))
      else if cap_writes c = WriteUnset then Some (NoWriteCeiling (cap_action c))
      else if cap_onion c = OnionUnset then Some (NoOnion (cap_action c))
      else if cap_undo c = ReversibleUnset then Some (NoUndo (cap_action c))
      else if \<not> valid_owner_role (cap_min_role c) then Some (NoMinRole (cap_action c) (cap_min_role c))
      else if cap_rationale c = [] then Some (NoRationale (cap_action c))
      else None)"

definition capabilities :: "capability list" where
  "capabilities =
    [\<lparr>cap_action = ''content.draft.create'', cap_kind = KindContent, cap_writes = WriteDraft, cap_onion = OnionActive, cap_undo = ReversibleByOperator,
      cap_min_role = role_editor,
      cap_rationale = ''Creates an unpublished post. Nothing reaches a reader until a human publishes it, which is'' @
        '' why this is the one content action available before the panel gains a review step. Active'' @
        '' in a Tor Space: writing a local draft touches no network.''\<rparr>,
     \<lparr>cap_action = ''model.draft.generate'', cap_kind = KindModel, cap_writes = WriteNone, cap_onion = OnionInert, cap_undo = ReversibleByOperator,
      cap_min_role = role_editor,
      cap_rationale = ''Calls the configured model and hands the result to the next step as a value. It writes '' @
        ''nothing itself; the step that writes carries its own ceiling. Inert in a Tor Space when '' @
        ''the provider is remote, permitted when it runs on this host.''\<rparr>,
     \<lparr>cap_action = ''egress.fetch'', cap_kind = KindEgress, cap_writes = WriteNone, cap_onion = OnionInert, cap_undo = ReversibleByOperator,
      cap_min_role = role_editor,
      cap_rationale = ''Fetches one URL through the guarded client '' @
        [CHR 0xE2] @
        [CHR 0x80] @
        [CHR 0x94] @
        '' the same one that carries the SSRF defences and the Tor kill-switch '' @
        [CHR 0xE2] @
        [CHR 0x80] @
        [CHR 0x94] @
        '' and hands the body to the next step. Inert in a Tor Space: an outbound call is the leak '' @
        ''that mode exists to prevent.''\<rparr>,
     \<lparr>cap_action = ''mail.send'', cap_kind = KindMail, cap_writes = WriteLive, cap_onion = OnionActive, cap_undo = Irreversible,
      cap_min_role = role_admin,
      cap_rationale = ''Sends one message to one recipient through the built-in sender. Irreversible: delivered '' @
        ''mail cannot be recalled. Admin-only and one recipient per step, because a recipient list '' @
        ''would spend a single write and deliver many.''\<rparr>,
     \<lparr>cap_action = ''content.draft.update'', cap_kind = KindContent, cap_writes = WriteDraft, cap_onion = OnionActive, cap_undo = ReversibleByOperator,
      cap_min_role = role_editor,
      cap_rationale = ''Edits an existing unpublished post. Reversible because the prior revision is kept, so an '' @
        ''operator can restore it from the editor'' @
        [CHR 0x27] @
        ''s history.''\<rparr>]"

text \<open>The index built at start-up; a duplicate registration panics, here \<open>None\<close>.\<close>

definition build_registry :: "capability list \<Rightarrow> (string, capability) gomap option" where
  "build_registry cs = fold (\<lambda>c m. case m of
       None \<Rightarrow> None
     | Some m \<Rightarrow> if map_get m (cap_action c) \<noteq> None then None else Some (map_put (cap_action c) c m)) cs (Some [])"

definition cap_registry :: "(string, capability) gomap" where
  "cap_registry = (case build_registry capabilities of Some m \<Rightarrow> m | None \<Rightarrow> [])"

definition capability_for :: "string \<Rightarrow> capability option" where
  "capability_for action = map_get cap_registry action"

definition sorted_capabilities :: "capability list" where
  "sorted_capabilities = sort_key cap_action capabilities"

definition capabilities_of_kind :: "effect_kind \<Rightarrow> capability list" where
  "capabilities_of_kind k = filter (\<lambda>c. cap_kind c = k) sorted_capabilities"

section \<open>The flow document\<close>

datatype run_mode = RunUnset | RunDryRun | RunLive

fun run_mode_string :: "run_mode \<Rightarrow> string" where
  "run_mode_string RunDryRun = ''dry-run''"
| "run_mode_string RunLive = ''live''"
| "run_mode_string RunUnset = ''unset''"

datatype trigger_kind = TriggerUnset | TriggerSchedule | TriggerEvent | TriggerManual | TriggerUnknown nat

fun trigger_kind_string :: "trigger_kind \<Rightarrow> string" where
  "trigger_kind_string TriggerSchedule = ''schedule''"
| "trigger_kind_string TriggerEvent = ''event''"
| "trigger_kind_string TriggerManual = ''manual''"
| "trigger_kind_string TriggerUnset = ''unset''"
| "trigger_kind_string (TriggerUnknown n) = ''unset''"

record trigger =
  tg_kind :: trigger_kind
  tg_cron :: string
  tg_event :: string

record step =
  stp_action :: string
  stp_params :: "(string, string) gomap"

record flow =
  fl_id :: string
  fl_name :: string
  fl_enabled :: bool
  fl_trigger :: trigger
  fl_condition :: condition
  fl_steps :: "step list"
  fl_budget :: fbudget
  fl_owner :: string
  fl_mode :: run_mode
  fl_version :: int

definition EventArticleCreated :: string where "EventArticleCreated = ''article.created''"
definition EventArticleUpdated :: string where "EventArticleUpdated = ''article.updated''"
definition EventArticleDeleted :: string where "EventArticleDeleted = ''article.deleted''"

definition known_events :: "string list" where
  "known_events = [EventArticleCreated, EventArticleUpdated, EventArticleDeleted]"

definition known_event :: "string \<Rightarrow> bool" where
  "known_event name \<longleftrightarrow> List.member known_events name"

datatype trigger_error = NothingFires | NeedsCron | BadCron cron_error | ScheduleNamesEvent string
  | NeedsEvent | UnknownEvent string | EventCarriesCron string | ManualTakesNothing | UnknownTrigger nat

definition trigger_complete :: "trigger \<Rightarrow> trigger_error option" where
  "trigger_complete t =
     (case tg_kind t of
        TriggerUnset \<Rightarrow> Some NothingFires
      | TriggerSchedule \<Rightarrow>
          if trim_space (tg_cron t) = [] then Some NeedsCron
          else (case parse_cron (tg_cron t) of
                  Inl e \<Rightarrow> Some (BadCron e)
                | Inr s \<Rightarrow> if tg_event t \<noteq> [] then Some (ScheduleNamesEvent (tg_event t)) else None)
      | TriggerEvent \<Rightarrow>
          if trim_space (tg_event t) = [] then Some NeedsEvent
          else if \<not> known_event (tg_event t) then Some (UnknownEvent (tg_event t))
          else if tg_cron t \<noteq> [] then Some (EventCarriesCron (tg_cron t))
          else None
      | TriggerManual \<Rightarrow> if tg_cron t \<noteq> [] \<or> tg_event t \<noteq> [] then Some ManualTakesNothing else None
      | TriggerUnknown n \<Rightarrow> Some (UnknownTrigger n))"

definition max_flow_steps :: nat where "max_flow_steps = 32"

datatype flow_error = NoFlowName | NoMode string | NoOwner string | FlowTrigger trigger_error
  | FlowBudget budget_error | FlowCondition cond_error | NoSteps | TooManySteps nat | StepsAboveBudget nat int
  | StepNoCapability nat string

fun steps_complete :: "nat \<Rightarrow> step list \<Rightarrow> flow_error option" where
  "steps_complete i [] = None"
| "steps_complete i (s # ss) =
     (case capability_for (stp_action s) of
        None \<Rightarrow> Some (StepNoCapability (i + 1) (stp_action s))
      | Some c \<Rightarrow> steps_complete (i + 1) ss)"

definition flow_complete :: "flow \<Rightarrow> flow_error option" where
  "flow_complete f =
     (if trim_space (fl_name f) = [] then Some NoFlowName
      else if fl_mode f = RunUnset then Some (NoMode (fl_name f))
      else if trim_space (fl_owner f) = [] then Some (NoOwner (fl_name f))
      else case trigger_complete (fl_trigger f) of Some e \<Rightarrow> Some (FlowTrigger e) | None \<Rightarrow>
      (case budget_complete (fl_budget f) of Some e \<Rightarrow> Some (FlowBudget e) | None \<Rightarrow>
      (case cond_complete (fl_condition f) of Some e \<Rightarrow> Some (FlowCondition e) | None \<Rightarrow>
         if fl_steps f = [] then Some NoSteps
         else if length (fl_steps f) > max_flow_steps then Some (TooManySteps (length (fl_steps f)))
         else if int (length (fl_steps f)) > max_steps (fl_budget f)
              then Some (StepsAboveBudget (length (fl_steps f)) (max_steps (fl_budget f)))
         else steps_complete 0 (fl_steps f))))"

definition highest_write :: "flow \<Rightarrow> write_policy" where
  "highest_write f = fold (\<lambda>s highest.
     case capability_for (stp_action s) of
       None \<Rightarrow> highest
     | Some c \<Rightarrow> if write_rank (cap_writes c) > write_rank highest then cap_writes c else highest)
     (fl_steps f) WriteNone"

definition step_has_kind :: "effect_kind \<Rightarrow> step \<Rightarrow> bool" where
  "step_has_kind k s = (case capability_for (stp_action s) of Some c \<Rightarrow> cap_kind c = k | None \<Rightarrow> False)"

definition needs_egress :: "flow \<Rightarrow> bool" where
  "needs_egress f = list_ex (step_has_kind KindEgress) (fl_steps f)"

definition needs_model :: "flow \<Rightarrow> bool" where
  "needs_model f = list_ex (step_has_kind KindModel) (fl_steps f)"

definition min_role_step :: "step \<Rightarrow> string \<Rightarrow> string" where
  "min_role_step s need =
     (case capability_for (stp_action s) of
        None \<Rightarrow> need
      | Some c \<Rightarrow> if owner_at_least (cap_min_role c) need then cap_min_role c else need)"

definition min_owner_role :: "flow \<Rightarrow> string" where
  "min_owner_role f = fold min_role_step (fl_steps f) role_author"

definition trigger_kind_for :: "string \<Rightarrow> trigger_kind \<times> bool" where
  "trigger_kind_for v =
     (let k = trim_space (to_lower v) in
      if k = ''schedule'' then (TriggerSchedule, True)
      else if k = ''event'' then (TriggerEvent, True)
      else if k = ''manual'' then (TriggerManual, True)
      else (TriggerUnset, False))"

definition mid_dot :: string where
  "mid_dot = '' '' @ [CHR 0xC2, CHR 0xB7] @ '' ''"

definition describe_trigger :: "trigger \<Rightarrow> string" where
  "describe_trigger t =
     (case tg_kind t of
        TriggerSchedule \<Rightarrow> ''schedule'' @ mid_dot @ tg_cron t
      | TriggerEvent \<Rightarrow> ''event'' @ mid_dot @ tg_event t
      | TriggerManual \<Rightarrow> ''manual''
      | _ \<Rightarrow> ''unset'')"

section \<open>The registry's contract\<close>

lemma role_rank_code: "map_get role_rank r = (if r = ''author'' then Some 1 else if r = ''editor'' then Some 2 else if r = ''admin'' then Some 3 else None)"
  by (simp add: role_rank_def role_admin_def role_editor_def role_author_def)

lemma owner_at_least_refl: "valid_owner_role r \<Longrightarrow> owner_at_least r r"
  by (auto simp: owner_at_least_def valid_owner_role_def)

lemma owner_at_least_trans: "owner_at_least a b \<Longrightarrow> owner_at_least b c \<Longrightarrow> owner_at_least a c"
  by (auto simp: owner_at_least_def split: option.splits)

lemma owner_at_least_total: "valid_owner_role a \<Longrightarrow> valid_owner_role b \<Longrightarrow> owner_at_least a b \<or> owner_at_least b a"
  by (auto simp: owner_at_least_def valid_owner_role_def split: option.splits)

lemma owner_at_least_valid: "owner_at_least a b \<Longrightarrow> valid_owner_role a \<and> valid_owner_role b"
  by (auto simp: owner_at_least_def valid_owner_role_def split: option.splits)

lemma registry_actions: "map fst cap_registry = map cap_action capabilities"
  by code_simp

lemma registry_values: "map snd cap_registry = capabilities"
  by code_simp

lemma capabilities_complete: "list_all (\<lambda>c. cap_complete c = None) capabilities"
  by code_simp

lemma capability_for_in: "capability_for a = Some c \<Longrightarrow> c \<in> set capabilities"
  using map_of_SomeD [of cap_registry a c] registry_values
  by (metis capability_for_def image_eqI list.set_map snd_conv)

lemma capability_for_action: "capability_for a = Some c \<Longrightarrow> cap_action c = a"
proof -
  have "list_all (\<lambda>(k, c). cap_action c = k) cap_registry" by code_simp
  moreover assume "capability_for a = Some c"
  ultimately show ?thesis using map_of_SomeD [of cap_registry a c] by (auto simp: capability_for_def list_all_iff)
qed

lemma capability_for_complete: "capability_for a = Some c \<Longrightarrow> cap_complete c = None"
  using capability_for_in capabilities_complete by (auto simp: list_all_iff)

lemma cap_complete_role: "cap_complete c = None \<Longrightarrow> valid_owner_role (cap_min_role c) \<and> cap_writes c \<noteq> WriteUnset"
  by (auto simp: cap_complete_def split: if_splits)

lemma min_role_step_exact:
  assumes "valid_owner_role need"
  shows "valid_owner_role (min_role_step s need) \<and>
    (owner_at_least r (min_role_step s need) \<longleftrightarrow> owner_at_least r need \<and>
      (\<forall>c. capability_for (stp_action s) = Some c \<longrightarrow> owner_at_least r (cap_min_role c)))"
proof (cases "capability_for (stp_action s)")
  case None
  with assms show ?thesis by (simp add: min_role_step_def)
next
  case (Some c)
  then have "valid_owner_role (cap_min_role c)" using capability_for_complete cap_complete_role by blast
  then have "owner_at_least need (cap_min_role c)" if "\<not> owner_at_least (cap_min_role c) need"
    using owner_at_least_total assms that by blast
  with Some assms \<open>valid_owner_role (cap_min_role c)\<close> show ?thesis
    by (auto simp: min_role_step_def intro: owner_at_least_trans)
qed

lemma min_role_fold_exact:
  "valid_owner_role need \<Longrightarrow>
   owner_at_least r (fold min_role_step ss need) \<longleftrightarrow> owner_at_least r need \<and>
     (\<forall>s \<in> set ss. \<forall>c. capability_for (stp_action s) = Some c \<longrightarrow> owner_at_least r (cap_min_role c))"
proof (induction ss arbitrary: need)
  case (Cons s ss)
  with min_role_step_exact [OF Cons.prems, of s r] show ?case by auto
qed simp

lemma steps_complete_iff: "steps_complete i ss = None \<longleftrightarrow> (\<forall>s \<in> set ss. capability_for (stp_action s) \<noteq> None)"
  by (induction ss arbitrary: i) (auto split: option.splits)

lemma flow_complete_facts:
  assumes "flow_complete f = None"
  shows "fl_mode f \<noteq> RunUnset" "trigger_complete (fl_trigger f) = None" "budget_complete (fl_budget f) = None"
    "cond_complete (fl_condition f) = None" "fl_steps f \<noteq> []" "length (fl_steps f) \<le> 32"
    "int (length (fl_steps f)) \<le> max_steps (fl_budget f)"
    "\<forall>s \<in> set (fl_steps f). capability_for (stp_action s) \<noteq> None"
  using assms unfolding flow_complete_def max_flow_steps_def
  by (auto simp: steps_complete_iff split: if_splits option.splits)

lemma owner_role_iff:
  "owner_at_least r (min_owner_role f) \<longleftrightarrow> valid_owner_role r \<and>
     (\<forall>s \<in> set (fl_steps f). \<forall>c. capability_for (stp_action s) = Some c \<longrightarrow> owner_at_least r (cap_min_role c))"
proof -
  have v: "valid_owner_role role_author" by code_simp
  have "owner_at_least r role_author \<longleftrightarrow> valid_owner_role r"
    by (auto simp: owner_at_least_def valid_owner_role_def role_rank_code role_author_def)
  then show ?thesis unfolding min_owner_role_def min_role_fold_exact [OF v] by simp
qed

section \<open>Properties\<close>

text \<open>
  The authority a flow asks of its owner is exactly what its steps need: a role satisfies the
  flow's MinOwnerRole precisely when it is on the ladder and reaches the floor of every registered
  step. A role off the ladder, such as client or the empty role of a deleted account, satisfies none.
\<close>

theorem min_owner_role_exact:
  "owner_at_least r (min_owner_role f) \<longleftrightarrow> valid_owner_role r \<and>
     (\<forall>s \<in> set (fl_steps f). \<forall>c. capability_for (stp_action s) = Some c \<longrightarrow> owner_at_least r (cap_min_role c))"
  by (rule owner_role_iff)

theorem min_owner_role_exact_witness:
  "\<not> owner_at_least ''editor'' (min_owner_role \<lparr>fl_id = ''x'', fl_name = ''n'', fl_enabled = True,
      fl_trigger = \<lparr>tg_kind = TriggerManual, tg_cron = [], tg_event = []\<rparr>, fl_condition = Condition CondAlways [] [],
      fl_steps = [\<lparr>stp_action = ''mail.send'', stp_params = []\<rparr>],
      fl_budget = \<lparr>max_steps = 5, max_runs_hour = 5, max_writes = 1, max_egress = 1, b_timeout = minute\<rparr>,
      fl_owner = ''o'', fl_mode = RunLive, fl_version = 1\<rparr>)"
proof -
  have "capability_for ''mail.send'' \<noteq> None \<and> \<not> owner_at_least ''editor'' (cap_min_role (the (capability_for ''mail.send'')))"
    by code_simp
  then show ?thesis by (auto simp: min_owner_role_exact)
qed



end
