(* ===== verification/Flow_Store.thy ===== *)
theory Flow_Store
  imports Flow_Doc
begin

text \<open>
  The table of flows (src/internal/vayuflow/store.go). The table is the list of its rows in rowid
  order; its primary key is the id. A row holds the columns the source writes: the trigger kind and
  the mode as text, the timeout in whole milliseconds, the flag as 0 or 1 and the two timestamps
  as text. The condition and the steps are written and read with encoding/json, which is the identity
  on valid UTF-8, so those columns hold the values. A statement that the database itself fails is the
  error \<open>DbError\<close>; the argument \<open>db\<close> says whether the statement succeeds. Fresh ids are an argument.
\<close>

record flow_row =
  rw_id :: string
  rw_name :: string
  rw_enabled :: int
  rw_trigger_kind :: string
  rw_trigger_cron :: string
  rw_trigger_event :: string
  rw_condition :: condition
  rw_steps :: "step list"
  rw_max_steps :: int
  rw_max_runs_hour :: int
  rw_max_writes :: int
  rw_max_egress :: int
  rw_timeout_ms :: int
  rw_owner :: string
  rw_mode :: string
  rw_version :: int
  rw_created :: string
  rw_updated :: string

datatype store_error = SaveRefused flow_error | DbError | NoSuchFlow string | UnsetMode

definition to_row :: "flow \<Rightarrow> string \<Rightarrow> string \<Rightarrow> flow_row" where
  "to_row f created updated =
     \<lparr>rw_id = fl_id f, rw_name = fl_name f, rw_enabled = (if fl_enabled f then 1 else 0),
      rw_trigger_kind = trigger_kind_string (tg_kind (fl_trigger f)), rw_trigger_cron = tg_cron (fl_trigger f),
      rw_trigger_event = tg_event (fl_trigger f), rw_condition = fl_condition f, rw_steps = fl_steps f,
      rw_max_steps = max_steps (fl_budget f), rw_max_runs_hour = max_runs_hour (fl_budget f),
      rw_max_writes = max_writes (fl_budget f), rw_max_egress = max_egress (fl_budget f),
      rw_timeout_ms = go_quot (b_timeout (fl_budget f)) millisecond,
      rw_owner = fl_owner f, rw_mode = run_mode_string (fl_mode f), rw_version = fl_version f,
      rw_created = created, rw_updated = updated\<rparr>"

definition parse_trigger_kind :: "string \<Rightarrow> trigger_kind" where
  "parse_trigger_kind s =
     (if s = ''schedule'' then TriggerSchedule else if s = ''event'' then TriggerEvent
      else if s = ''manual'' then TriggerManual else TriggerUnset)"

definition parse_run_mode :: "string \<Rightarrow> run_mode" where
  "parse_run_mode s = (if s = ''dry-run'' then RunDryRun else if s = ''live'' then RunLive else RunUnset)"

definition scan_flow :: "flow_row \<Rightarrow> flow" where
  "scan_flow r =
     \<lparr>fl_id = rw_id r, fl_name = rw_name r, fl_enabled = (rw_enabled r = 1),
      fl_trigger = \<lparr>tg_kind = parse_trigger_kind (rw_trigger_kind r), tg_cron = rw_trigger_cron r, tg_event = rw_trigger_event r\<rparr>,
      fl_condition = rw_condition r, fl_steps = rw_steps r,
      fl_budget = \<lparr>max_steps = rw_max_steps r, max_runs_hour = rw_max_runs_hour r, max_writes = rw_max_writes r,
                   max_egress = rw_max_egress r, b_timeout = rw_timeout_ms r * millisecond\<rparr>,
      fl_owner = rw_owner r, fl_mode = parse_run_mode (rw_mode r), fl_version = rw_version r\<rparr>"

text \<open>
  Store.Save: the error, the flow as the caller's pointer holds it afterwards (the version is bumped
  before the UPDATE), and the table.
\<close>

definition flow_save :: "bool \<Rightarrow> string \<Rightarrow> time \<Rightarrow> flow \<Rightarrow> flow_row list \<Rightarrow> store_error option \<times> flow \<times> flow_row list" where
  "flow_save db new_id now f rows =
     (case flow_complete f of
        Some e \<Rightarrow> (Some (SaveRefused e), f, rows)
      | None \<Rightarrow>
          if fl_id f = [] then
            (let f = f\<lparr>fl_id := new_id, fl_version := 1\<rparr> in
             if \<not> db \<or> list_ex (\<lambda>r. rw_id r = new_id) rows then (Some DbError, f, rows)
             else (None, f, rows @ [to_row f (fmt_sql now) (fmt_sql now)]))
          else
            (let f = f\<lparr>fl_version := fl_version f + 1\<rparr> in
             if \<not> db then (Some DbError, f, rows)
             else if \<not> list_ex (\<lambda>r. rw_id r = fl_id f) rows then (Some (NoSuchFlow (fl_id f)), f, rows)
             else (None, f, map (\<lambda>r. if rw_id r = fl_id f then to_row f (rw_created r) (fmt_sql now) else r) rows)))"

definition flow_get :: "string \<Rightarrow> flow_row list \<Rightarrow> store_error + flow" where
  "flow_get i rows =
     (case find (\<lambda>r. rw_id r = i) rows of None \<Rightarrow> Inl (NoSuchFlow i) | Some r \<Rightarrow> Inr (scan_flow r))"

text \<open>Newest first; rows with the same created_at keep their table order.\<close>

definition flow_list :: "flow_row list \<Rightarrow> flow list" where
  "flow_list rows = map scan_flow (rev (sort_key rw_created (rev rows)))"

definition flow_delete :: "string \<Rightarrow> flow_row list \<Rightarrow> flow_row list" where
  "flow_delete i rows = filter (\<lambda>r. rw_id r \<noteq> i) rows"

definition flow_set_mode :: "string \<Rightarrow> run_mode \<Rightarrow> time \<Rightarrow> flow_row list \<Rightarrow> (store_error + run_mode) \<times> flow_row list" where
  "flow_set_mode i m now rows =
     (if m = RunUnset then (Inl UnsetMode, rows)
      else case flow_get i rows of
        Inl e \<Rightarrow> (Inl e, rows)
      | Inr f \<Rightarrow> (Inr (fl_mode f),
          map (\<lambda>r. if rw_id r = i then r\<lparr>rw_mode := run_mode_string m, rw_updated := fmt_sql now\<rparr> else r) rows))"

definition flow_set_enabled :: "string \<Rightarrow> bool \<Rightarrow> time \<Rightarrow> flow_row list \<Rightarrow> (store_error + bool) \<times> flow_row list" where
  "flow_set_enabled i on now rows =
     (case flow_get i rows of
        Inl e \<Rightarrow> (Inl e, rows)
      | Inr f \<Rightarrow> (Inr (fl_enabled f),
          map (\<lambda>r. if rw_id r = i then r\<lparr>rw_enabled := (if on then 1 else 0), rw_updated := fmt_sql now\<rparr> else r) rows))"

text \<open>LoadableFlows: the flows to run and, for each rejected id, why.\<close>

fun loadable_loop :: "flow list \<Rightarrow> flow list \<times> (string, flow_error) gomap \<Rightarrow> flow list \<times> (string, flow_error) gomap" where
  "loadable_loop [] acc = acc"
| "loadable_loop (f # fs) (ok, rej) =
     (if \<not> fl_enabled f then loadable_loop fs (ok, rej)
      else case flow_complete f of
        Some e \<Rightarrow> loadable_loop fs (ok, map_put (fl_id f) e rej)
      | None \<Rightarrow> loadable_loop fs (ok @ [f], rej))"

definition loadable_flows :: "flow_row list \<Rightarrow> flow list \<times> (string, flow_error) gomap" where
  "loadable_flows rows = loadable_loop (flow_list rows) ([], [])"

definition em_dash :: string where
  "em_dash = '' '' @ [CHR 0xE2, CHR 0x80, CHR 0x94] @ '' ''"

definition describe_mode :: "run_mode \<Rightarrow> string" where
  "describe_mode m =
     (case m of
        RunDryRun \<Rightarrow> ''dry-run'' @ em_dash @ ''effects are captured and refused at the capability boundary''
      | RunLive \<Rightarrow> ''live'' @ em_dash @ ''effects reach the world, bounded by the declared budget''
      | RunUnset \<Rightarrow> ''unset'' @ em_dash @ ''this flow cannot run'')"

definition trigger_summary :: "trigger \<Rightarrow> string" where
  "trigger_summary t =
     (case tg_kind t of
        TriggerSchedule \<Rightarrow> ''schedule'' @ mid_dot @ tg_cron t
      | TriggerEvent \<Rightarrow> ''event'' @ mid_dot @ tg_event t
      | TriggerManual \<Rightarrow> ''manual''
      | _ \<Rightarrow> ''unset'')"

definition action_summary :: "step list \<Rightarrow> string" where
  "action_summary steps = join_str ('' '' @ [CHR 0xE2, CHR 0x86, CHR 0x92] @ '' '') (map stp_action steps)"

section \<open>What a row gives back\<close>

lemma parse_run_mode_string [simp]: "parse_run_mode (run_mode_string m) = m"
  by (cases m) (auto simp: parse_run_mode_def)

lemma parse_trigger_kind_string: "trigger_complete t = None \<Longrightarrow> parse_trigger_kind (trigger_kind_string (tg_kind t)) = tg_kind t"
  by (cases "tg_kind t") (auto simp: parse_trigger_kind_def trigger_complete_def)

definition round_ms :: "flow \<Rightarrow> flow" where
  "round_ms f = f\<lparr>fl_budget := (fl_budget f)\<lparr>b_timeout := b_timeout (fl_budget f) div millisecond * millisecond\<rparr>\<rparr>"

lemma scan_to_row:
  assumes "flow_complete f = None"
  shows "scan_flow (to_row f c u) = round_ms f"
proof -
  have t: "parse_trigger_kind (trigger_kind_string (tg_kind (fl_trigger f))) = tg_kind (fl_trigger f)"
    using parse_trigger_kind_string flow_complete_facts(2) [OF assms] by blast
  have "0 < b_timeout (fl_budget f)" using flow_complete_facts(3) [OF assms] by (simp add: budget_complete_iff)
  then have "go_quot (b_timeout (fl_budget f)) millisecond = b_timeout (fl_budget f) div millisecond"
    by (simp add: go_quot_nonneg millisecond_def)
  with t show ?thesis by (simp add: scan_flow_def to_row_def round_ms_def)
qed

lemma flow_complete_cong:
  assumes "fl_name g = fl_name f" "fl_mode g = fl_mode f" "fl_owner g = fl_owner f" "fl_trigger g = fl_trigger f"
    "fl_condition g = fl_condition f" "fl_steps g = fl_steps f" "fl_budget g = fl_budget f"
  shows "flow_complete g = flow_complete f"
  unfolding flow_complete_def assms by (rule refl)

lemma flow_complete_budget:
  assumes "flow_complete f = None"
  shows "flow_complete (round_ms f) = None \<longleftrightarrow> millisecond \<le> b_timeout (fl_budget f)"
proof -
  let ?t = "b_timeout (fl_budget f)"
  note b = flow_complete_facts(3) [OF assms, unfolded budget_complete_iff]
  have "?t div millisecond * millisecond \<le> ?t" by (simp add: millisecond_def mult.commute)
  then have "budget_complete (fl_budget (round_ms f)) = None \<longleftrightarrow> 0 < ?t div millisecond * millisecond"
    using b by (simp add: budget_complete_iff round_ms_def)
  also have "\<dots> \<longleftrightarrow> millisecond \<le> ?t"
    by (simp add: millisecond_def pos_imp_zdiv_pos_iff)
  finally have "budget_complete (fl_budget (round_ms f)) = None \<longleftrightarrow> millisecond \<le> ?t" .
  moreover have "flow_complete (round_ms f) = None \<longleftrightarrow> budget_complete (fl_budget (round_ms f)) = None"
    using assms by (auto simp: flow_complete_def round_ms_def split: if_splits option.splits)
  ultimately show ?thesis by simp
qed

lemma find_map_update:
  assumes "\<And>r. P r \<Longrightarrow> P (g r)"
  shows "find P (map (\<lambda>r. if P r then g r else r) rows) = map_option g (find P rows)"
  using assms by (induction rows) auto

lemma find_snoc: "\<not> list_ex P rows \<Longrightarrow> find P (rows @ [r]) = (if P r then Some r else None)"
  by (induction rows) auto

lemma save_get:
  assumes "flow_save db new_id now f rows = (None, f', rows')"
  shows "flow_get (fl_id f') rows' = Inr (round_ms f') \<and> flow_complete f' = None \<and> fl_steps f' = fl_steps f
    \<and> fl_budget f' = fl_budget f \<and> fl_version f' = (if fl_id f = [] then 1 else fl_version f + 1)"
proof -
  have c: "flow_complete f = None" using assms by (auto simp: flow_save_def split: option.splits)
  show ?thesis
  proof (cases "fl_id f = []")
    case True
    then have f': "f' = f\<lparr>fl_id := new_id, fl_version := 1\<rparr>" and n: "\<not> list_ex (\<lambda>r. rw_id r = new_id) rows"
      and rows': "rows' = rows @ [to_row f' (fmt_sql now) (fmt_sql now)]"
      using assms c by (auto simp: flow_save_def Let_def split: if_splits)
    have c': "flow_complete f' = None" using c f' flow_complete_cong [of f' f] by simp
    have "rw_id (to_row f' a b) = new_id" for a b using f' by (simp add: to_row_def)
    then have "flow_get (fl_id f') rows' = Inr (round_ms f')"
      using n rows' scan_to_row [OF c'] f' by (simp add: flow_get_def find_snoc)
    with True f' c' show ?thesis by simp
  next
    case False
    let ?P = "\<lambda>r. rw_id r = fl_id f"
    from False have f': "f' = f\<lparr>fl_version := fl_version f + 1\<rparr>" and ex: "list_ex ?P rows"
      and rows': "rows' = map (\<lambda>r. if ?P r then to_row f' (rw_created r) (fmt_sql now) else r) rows"
      using assms c by (auto simp: flow_save_def Let_def split: if_splits)
    have c': "flow_complete f' = None" using c f' flow_complete_cong [of f' f] by simp
    have "find ?P rows \<noteq> None" using ex by (auto simp: list_ex_iff find_None_iff)
    moreover have "find ?P rows' = map_option (\<lambda>r. to_row f' (rw_created r) (fmt_sql now)) (find ?P rows)"
      unfolding rows' by (rule find_map_update) (simp add: f' to_row_def)
    ultimately have "flow_get (fl_id f') rows' = Inr (round_ms f')"
      using scan_to_row [OF c'] f' by (auto simp: flow_get_def)
    with False f' c' show ?thesis by simp
  qed
qed

definition ids_ok :: "flow_row list \<Rightarrow> bool" where
  "ids_ok rows \<longleftrightarrow> distinct (map rw_id rows)"

lemma map_same_id: "(\<And>r. rw_id (g r) = rw_id r) \<Longrightarrow> ids_ok (map g rows) = ids_ok rows"
  by (simp add: ids_ok_def comp_def)

lemma store_ops_keep_ids:
  "ids_ok rows \<Longrightarrow> ids_ok (snd (snd (flow_save db new_id now f rows)))"
  "ids_ok rows \<Longrightarrow> ids_ok (flow_delete i rows)"
  "ids_ok rows \<Longrightarrow> ids_ok (snd (flow_set_mode i m now rows))"
  "ids_ok rows \<Longrightarrow> ids_ok (snd (flow_set_enabled i on now rows))"
proof -
  assume ok: "ids_ok rows"
  show "ids_ok (snd (snd (flow_save db new_id now f rows)))"
    using ok map_same_id [of "\<lambda>r. if rw_id r = fl_id f then to_row (f\<lparr>fl_version := fl_version f + 1\<rparr>) (rw_created r) (fmt_sql now) else r" rows]
    by (auto simp: flow_save_def Let_def ids_ok_def to_row_def list_ex_iff split: option.splits if_splits)
  show "ids_ok (flow_delete i rows)" using ok by (simp add: ids_ok_def flow_delete_def distinct_map_filter)
  show "ids_ok (snd (flow_set_mode i m now rows))"
    using ok by (auto simp: flow_set_mode_def map_same_id split: sum.splits)
  show "ids_ok (snd (flow_set_enabled i on now rows))"
    using ok by (auto simp: flow_set_enabled_def map_same_id split: sum.splits)
qed

lemma loadable_loop_spec:
  "fst (loadable_loop fs (ok, rej)) = ok @ filter (\<lambda>f. fl_enabled f \<and> flow_complete f = None) fs"
  "set (map fst (snd (loadable_loop fs (ok, rej)))) =
     set (map fst rej) \<union> fl_id ` {f \<in> set fs. fl_enabled f \<and> flow_complete f \<noteq> None}"
proof (induction fs arbitrary: ok rej)
  case (Cons f fs)
  {
    case 1
    show ?case using Cons.IH(1) by (cases "flow_complete f") auto
  next
    case 2
    show ?case using Cons.IH(2) by (cases "flow_complete f") (auto simp: dom_update [simplified])
  }
qed auto

section \<open>Properties\<close>

text \<open>
  A saved flow reads back. When Save reports success, Get on its id returns the document with
  its new version and with its timeout rounded down to the millisecond; the stored document passes
  Complete again, and so can be armed and run, exactly when the timeout is at least a millisecond.
\<close>

theorem save_reads_back:
  assumes "flow_save db new_id now f rows = (None, f', rows')"
  shows "flow_get (fl_id f') rows' = Inr (round_ms f')
    \<and> fl_version f' = (if fl_id f = [] then 1 else fl_version f + 1)
    \<and> (flow_complete (round_ms f') = None \<longleftrightarrow> millisecond \<le> b_timeout (fl_budget f))"
  using save_get [OF assms] flow_complete_budget [of f'] by simp

definition sample_flow :: "dur \<Rightarrow> flow" where
  "sample_flow t = \<lparr>fl_id = [], fl_name = ''digest'', fl_enabled = True,
     fl_trigger = \<lparr>tg_kind = TriggerManual, tg_cron = [], tg_event = []\<rparr>,
     fl_condition = Condition CondAlways [] [], fl_steps = [\<lparr>stp_action = ''content.draft.create'', stp_params = []\<rparr>],
     fl_budget = \<lparr>max_steps = 5, max_runs_hour = 2, max_writes = 1, max_egress = 1, b_timeout = t\<rparr>,
     fl_owner = ''ann'', fl_mode = RunLive, fl_version = 0\<rparr>"

lemma sample_flow_saves: "flow_save True ''f1'' 5 (sample_flow 500) [] =
  (None, (sample_flow 500)\<lparr>fl_id := ''f1'', fl_version := 1\<rparr>, [to_row ((sample_flow 500)\<lparr>fl_id := ''f1'', fl_version := 1\<rparr>) (fmt_sql 5) (fmt_sql 5)])"
proof -
  have "flow_complete (sample_flow 500) = None" by code_simp
  moreover have "fl_id (sample_flow 500) = []" by (simp add: sample_flow_def)
  ultimately show ?thesis by (simp add: flow_save_def Let_def)
qed

theorem save_reads_back_witness:
  "fst (flow_save True ''f1'' 5 (sample_flow 500) []) = None
    \<and> flow_complete (round_ms ((sample_flow 500)\<lparr>fl_id := ''f1'', fl_version := 1\<rparr>)) \<noteq> None"
proof -
  have "b_timeout (fl_budget (sample_flow 500)) = 500" by (simp add: sample_flow_def)
  then show ?thesis
    using save_reads_back [OF sample_flow_saves] unfolding sample_flow_saves by (simp add: millisecond_def)
qed

end
