(* ===== verification/Flow_Runs.thy ===== *)
theory Flow_Runs
  imports Flow_Store
begin

text \<open>
  The run trail (src/internal/vayuflow/run.go). A table is the list of its rows in rowid order, with
  the UNIQUE index on the idempotency key and the primary key on the id. The record is both the Go
  struct and the row: the two timestamps are the text the code formats, and the step records are the
  values it marshals. Timestamps are compared as text, as SQLite does.
\<close>

datatype run_status = StatusRunning | StatusSucceeded | StatusFailed | StatusRefused | StatusInterrupted

text \<open>Errors of a step or a run. \<open>ErrDryRun\<close> is the sentinel the runner recognises.\<close>

datatype run_error = ErrDryRun | ErrBudget exceeded | ErrWriteLevel string write_policy write_policy
  | ErrTorFetch string | ErrTorModel string | ErrNoCapability string | ErrNoImplementation string
  | ErrAction string | ErrExternal string | ErrOwner string string string | ErrCondition | ErrProcessEnded

record step_record =
  sr_action :: string
  sr_params :: "(string, string) gomap"
  sr_output :: string
  sr_error :: "run_error option"
  sr_refused :: string
  sr_did :: string

record run =
  rn_id :: string
  rn_flow_id :: string
  rn_flow_version :: int
  rn_idem :: string
  rn_cause :: string
  rn_mode :: run_mode
  rn_status :: run_status
  rn_owner :: string
  rn_owner_role :: string
  rn_budget :: fbudget
  rn_spend :: spend
  rn_steps :: "step_record list"
  rn_error :: "run_error option"
  rn_started :: string
  rn_finished :: string

datatype exec_error = ErrDuplicateRun | ErrRunDb | ErrFlow flow_error | ErrDisabled | ErrRateCeiling | ErrStillRunning string

definition idempotency_key :: "string \<Rightarrow> int \<Rightarrow> string \<Rightarrow> string" where
  "idempotency_key flow_id version identity = flow_id @ ''@'' @ itoa version @ '':'' @ identity"

text \<open>
  RunStore.Begin. A key or id already in the table violates a UNIQUE constraint, which the code
  reports as a duplicate; any other failure of the INSERT is \<open>ErrRunDb\<close>.
\<close>

definition run_begin :: "bool \<Rightarrow> string \<Rightarrow> time \<Rightarrow> flow \<Rightarrow> string \<Rightarrow> string \<Rightarrow> string \<Rightarrow> run list \<Rightarrow> (exec_error + run) \<times> run list" where
  "run_begin db new_id now f cause identity owner_role runs =
     (let key = idempotency_key (fl_id f) (fl_version f) identity;
          r = \<lparr>rn_id = new_id, rn_flow_id = fl_id f, rn_flow_version = fl_version f, rn_idem = key, rn_cause = cause,
               rn_mode = fl_mode f, rn_status = StatusRunning, rn_owner = fl_owner f, rn_owner_role = owner_role,
               rn_budget = fl_budget f, rn_spend = zero_spend, rn_steps = [], rn_error = None,
               rn_started = fmt_sql now, rn_finished = []\<rparr>
      in if \<not> db then (Inl ErrRunDb, runs)
         else if list_ex (\<lambda>x. rn_idem x = key \<or> rn_id x = new_id) runs then (Inl ErrDuplicateRun, runs)
         else (Inr r, runs @ [r]))"

text \<open>RunStore.Finish writes the terminal columns of the row with the run's id.\<close>

definition run_finish :: "bool \<Rightarrow> time \<Rightarrow> run \<Rightarrow> run list \<Rightarrow> exec_error option \<times> run list" where
  "run_finish db now r runs =
     (if rn_status r = StatusRunning then (Some (ErrStillRunning (rn_id r)), runs)
      else if \<not> db then (Some ErrRunDb, runs)
      else (None, map (\<lambda>x. if rn_id x = rn_id r
                           then x\<lparr>rn_status := rn_status r, rn_spend := rn_spend r, rn_steps := rn_steps r,
                                  rn_error := rn_error r, rn_finished := fmt_sql now\<rparr>
                           else x) runs))"

definition recover_interrupted :: "time \<Rightarrow> run list \<Rightarrow> nat \<times> run list" where
  "recover_interrupted now runs =
     (length (filter (\<lambda>x. rn_status x = StatusRunning) runs),
      map (\<lambda>x. if rn_status x = StatusRunning
               then x\<lparr>rn_status := StatusInterrupted, rn_finished := fmt_sql now, rn_error := Some ErrProcessEnded\<rparr>
               else x) runs)"

text \<open>Reading a row back: the columns that are not stored come back as zero.\<close>

definition scan_run :: "run \<Rightarrow> run" where
  "scan_run r = r\<lparr>rn_budget := (rn_budget r)\<lparr>max_runs_hour := 0, b_timeout := 0\<rparr>\<rparr>"

text \<open>Newest first, the later row first within one second.\<close>

definition runs_recent :: "string \<Rightarrow> int \<Rightarrow> run list \<Rightarrow> run list" where
  "runs_recent flow_id limit runs =
     (let limit = (if limit \<le> 0 \<or> limit > 500 then 50 else limit);
          sel = (if flow_id \<noteq> [] then filter (\<lambda>x. rn_flow_id x = flow_id) runs else runs)
      in map scan_run (take (nat limit) (rev (sort_key rn_started sel))))"

record run_stats =
  ss_runs :: nat
  ss_refused :: nat
  ss_capped :: nat
  ss_interrupted :: nat
  ss_failed :: nat

definition stats_row :: "run \<Rightarrow> run_stats \<Rightarrow> run_stats" where
  "stats_row r st =
     (let st = st\<lparr>ss_runs := Suc (ss_runs st)\<rparr>;
          st = (case rn_status r of
                  StatusRefused \<Rightarrow> st\<lparr>ss_refused := Suc (ss_refused st)\<rparr>
                | StatusInterrupted \<Rightarrow> st\<lparr>ss_interrupted := Suc (ss_interrupted st)\<rparr>
                | StatusFailed \<Rightarrow> st\<lparr>ss_failed := Suc (ss_failed st)\<rparr>
                | _ \<Rightarrow> st)
      in if sp_steps (rn_spend r) \<ge> max_steps (rn_budget r) \<or> sp_writes (rn_spend r) \<ge> max_writes (rn_budget r)
            \<or> sp_egress (rn_spend r) \<ge> max_egress (rn_budget r)
         then st\<lparr>ss_capped := Suc (ss_capped st)\<rparr> else st)"

definition stats_since :: "time \<Rightarrow> run list \<Rightarrow> run_stats" where
  "stats_since since runs =
     fold stats_row (filter (\<lambda>x. rn_started x \<ge> fmt_sql since) runs)
       \<lparr>ss_runs = 0, ss_refused = 0, ss_capped = 0, ss_interrupted = 0, ss_failed = 0\<rparr>"

definition count_since :: "string \<Rightarrow> time \<Rightarrow> run list \<Rightarrow> nat" where
  "count_since flow_id since runs = length (filter (\<lambda>x. rn_flow_id x = flow_id \<and> rn_started x \<ge> fmt_sql since) runs)"

definition run_retention :: dur where "run_retention = 90 * 24 * hour"

definition runs_prune :: "time \<Rightarrow> dur \<Rightarrow> run list \<Rightarrow> nat \<times> run list" where
  "runs_prune now older runs =
     (let gone = (\<lambda>x. rn_status x \<noteq> StatusRunning \<and> rn_started x < fmt_sql (now - older))
      in (length (filter gone runs), filter (\<lambda>x. \<not> gone x) runs))"

section \<open>Keys\<close>

definition runs_ok :: "run list \<Rightarrow> bool" where
  "runs_ok runs \<longleftrightarrow> distinct (map rn_idem runs) \<and> distinct (map rn_id runs)"

lemma runs_ok_map: "(\<And>x. rn_idem (g x) = rn_idem x \<and> rn_id (g x) = rn_id x) \<Longrightarrow> runs_ok (map g runs) = runs_ok runs"
  by (simp add: runs_ok_def comp_def)

lemma runs_ok_ops:
  assumes "runs_ok runs"
  shows "runs_ok (snd (run_begin db new_id now f cause identity role runs))"
    and "runs_ok (snd (run_finish db now r runs))"
    and "runs_ok (snd (recover_interrupted now runs))"
    and "runs_ok (snd (runs_prune now older runs))"
proof -
  show "runs_ok (snd (run_begin db new_id now f cause identity role runs))"
    using assms by (auto simp: run_begin_def runs_ok_def Let_def list_ex_iff)
  show "runs_ok (snd (run_finish db now r runs))"
    using assms by (auto simp: run_finish_def runs_ok_map)
  show "runs_ok (snd (recover_interrupted now runs))"
    using assms by (simp add: recover_interrupted_def runs_ok_map)
  show "runs_ok (snd (runs_prune now older runs))"
    using assms by (simp add: runs_prune_def runs_ok_def Let_def distinct_map_filter)
qed

lemma itoa_chars: "CHR '':'' \<notin> set (itoa i)"
  by (rule itoa_digits) (simp_all add: in_range_c_def)

lemma idempotency_key_inj:
  assumes "CHR ''@'' \<notin> set i" and "CHR ''@'' \<notin> set j"
  shows "idempotency_key i v a = idempotency_key j w b \<longleftrightarrow> i = j \<and> v = w \<and> a = b"
proof -
  have "idempotency_key i v a = idempotency_key j w b \<longleftrightarrow> i = j \<and> itoa v @ CHR '':'' # a = itoa w @ CHR '':'' # b"
    unfolding idempotency_key_def using split_at_inj [OF assms] by simp
  also have "\<dots> \<longleftrightarrow> i = j \<and> v = w \<and> a = b"
    using split_at_inj [OF itoa_chars itoa_chars] itoa_inj by blast
  finally show ?thesis .
qed

section \<open>The life of a trail\<close>

datatype trail_op = Begin bool string time flow string string string | Finish bool time run
  | Recover time | Prune time dur

fun trail_step :: "trail_op \<Rightarrow> run list \<Rightarrow> run list" where
  "trail_step (Begin db new_id now f cause identity role) runs = snd (run_begin db new_id now f cause identity role runs)"
| "trail_step (Finish db now r) runs = snd (run_finish db now r runs)"
| "trail_step (Recover now) runs = snd (recover_interrupted now runs)"
| "trail_step (Prune now older) runs = snd (runs_prune now older runs)"

definition trail_run :: "trail_op list \<Rightarrow> run list \<Rightarrow> run list" where
  "trail_run ops runs = fold trail_step ops runs"

fun is_prune :: "trail_op \<Rightarrow> bool" where
  "is_prune (Prune now older) = True"
| "is_prune _ = False"

lemma trail_step_ok: "runs_ok runs \<Longrightarrow> runs_ok (trail_step op runs)"
  by (cases op) (auto intro: runs_ok_ops)

lemma trail_run_ok: "runs_ok runs \<Longrightarrow> runs_ok (trail_run ops runs)"
  unfolding trail_run_def by (induction ops arbitrary: runs) (auto intro: trail_step_ok)

lemma finish_keys: "map rn_idem (snd (run_finish db now r runs)) = map rn_idem runs"
  "map rn_id (snd (run_finish db now r runs)) = map rn_id runs"
  by (auto simp: run_finish_def)

lemma recover_keys: "map rn_idem (snd (recover_interrupted now runs)) = map rn_idem runs"
  by (simp add: recover_interrupted_def)

lemma trail_step_keys: "\<not> is_prune op \<Longrightarrow> set (map rn_idem runs) \<subseteq> set (map rn_idem (trail_step op runs))"
proof (cases op)
  case (Begin db new_id now f cause identity role)
  then show ?thesis by (auto simp: run_begin_def Let_def)
qed (use finish_keys recover_keys in \<open>simp_all only: trail_step.simps is_prune.simps subset_refl simp_thms\<close>)

lemma trail_run_keys:
  "\<forall>op \<in> set ops. \<not> is_prune op \<Longrightarrow> set (map rn_idem runs) \<subseteq> set (map rn_idem (trail_run ops runs))"
  unfolding trail_run_def
proof (induction ops arbitrary: runs)
  case (Cons op ops)
  then have "set (map rn_idem (trail_step op runs)) \<subseteq> set (map rn_idem (fold trail_step ops (trail_step op runs)))"
    by simp
  moreover have "set (map rn_idem runs) \<subseteq> set (map rn_idem (trail_step op runs))"
    using Cons.prems by (intro trail_step_keys) simp
  ultimately show ?case by simp
qed simp

lemma run_begin_success:
  "run_begin db new_id now f cause identity role runs = (Inr r, runs') \<Longrightarrow>
   rn_idem r = idempotency_key (fl_id f) (fl_version f) identity \<and> runs' = runs @ [r]
   \<and> rn_id r = new_id \<and> rn_flow_id r = fl_id f \<and> rn_spend r = zero_spend \<and> rn_status r = StatusRunning
   \<and> rn_budget r = fl_budget f \<and> rn_started r = fmt_sql now \<and> rn_steps r = []
   \<and> (\<forall>x \<in> set runs. rn_idem x \<noteq> rn_idem r \<and> rn_id x \<noteq> new_id)"
  by (auto simp: run_begin_def Let_def list_ex_iff split: if_splits)

section \<open>Properties\<close>



text \<open>
  Forgetting never loses evidence. Pruning keeps exactly the rows that are still running and
  those started, to the second, within the retention period; recovery after a crash leaves no run
  running, marks exactly those that were as interrupted, touches no other row, and so never retries.
\<close>

theorem prune_and_recover:
  assumes "rn_started x = fmt_sql t" and "0 \<le> t" "t < end_of_9999" "0 \<le> now - older" "now - older < end_of_9999"
    and "x \<in> set runs"
  shows "(x \<in> set (snd (runs_prune now older runs)) \<longleftrightarrow>
      rn_status x = StatusRunning \<or> (now - older) div second \<le> t div second)
    \<and> (\<forall>y \<in> set (snd (recover_interrupted now runs)). rn_status y \<noteq> StatusRunning)
    \<and> (rn_status x \<noteq> StatusRunning \<longrightarrow> x \<in> set (snd (recover_interrupted now runs)))
    \<and> length (snd (recover_interrupted now runs)) = length runs"
proof -
  have "rn_started x < fmt_sql (now - older) \<longleftrightarrow> t div second < (now - older) div second"
    unfolding assms(1) by (rule fmt_sql_less_iff [OF assms(2-5)])
  then have "x \<in> set (snd (runs_prune now older runs)) \<longleftrightarrow>
      rn_status x = StatusRunning \<or> (now - older) div second \<le> t div second"
    using assms(6) by (auto simp: runs_prune_def Let_def)
  then show ?thesis using assms(6) by (auto simp: recover_interrupted_def image_iff)
qed

definition sample_run :: "run_status \<Rightarrow> run" where
  "sample_run st = \<lparr>rn_id = ''r'', rn_flow_id = ''f'', rn_flow_version = 1, rn_idem = ''k'', rn_cause = [],
     rn_mode = RunLive, rn_status = st, rn_owner = [], rn_owner_role = [],
     rn_budget = \<lparr>max_steps = 5, max_runs_hour = 2, max_writes = 1, max_egress = 1, b_timeout = minute\<rparr>,
     rn_spend = zero_spend, rn_steps = [], rn_error = None, rn_started = fmt_sql 0, rn_finished = []\<rparr>"

theorem prune_and_recover_witness:
  "sample_run StatusRunning \<in> set (snd (runs_prune run_retention 0 [sample_run StatusRunning]))"
  using prune_and_recover [of "sample_run StatusRunning" 0 run_retention 0 "[sample_run StatusRunning]"]
  by (simp add: sample_run_def run_retention_def end_of_9999_def dur_defs)

end
