(* ===== verification/Flow_Runner.thy ===== *)
theory Flow_Runner
  imports Flow_Runs
begin

text \<open>
  The effect boundary, the actions and the runner (src/internal/vayuflow/runner.go and
  actions_content.go, actions_model.go, actions_reach.go). What the engine reaches outside itself is
  the record \<open>install\<close>: the content store, the fetcher, the mail sender and the model provider as
  state transformers on a world \<open>'w\<close>, the Tor kill-switch, the quality check of package aiassist
  and the scheme that url.Parse reads. A provider that is not wired is \<open>None\<close>. Durations of
  step records are left out; contexts and timeouts act only through the errors providers return.
\<close>

section \<open>The effect boundary\<close>

record effects =
  ef_mode :: run_mode
  ef_cap :: capability
  ef_budget :: fbudget
  ef_spend :: spend
  ef_refusals :: "string list"
  ef_notes :: "string list"

definition eff_write :: "write_policy \<Rightarrow> string \<Rightarrow> effects \<Rightarrow> run_error option \<times> effects" where
  "eff_write level desc e =
     (if \<not> at_most level (cap_writes (ef_cap e))
      then (Some (ErrWriteLevel (cap_action (ef_cap e)) (cap_writes (ef_cap e)) level), e)
      else case charge_write (ef_budget e) (ef_spend e) of
        Inl x \<Rightarrow> (Some (ErrBudget x), e)
      | Inr s \<Rightarrow>
          (let e = e\<lparr>ef_spend := s\<rparr> in
           if ef_mode e \<noteq> RunLive then (Some ErrDryRun, e\<lparr>ef_refusals := ef_refusals e @ [''would write: '' @ desc]\<rparr>)
           else (None, e)))"

definition eff_fetch :: "bool \<Rightarrow> string \<Rightarrow> effects \<Rightarrow> run_error option \<times> effects" where
  "eff_fetch blocked desc e =
     (if blocked then (Some (ErrTorFetch (cap_action (ef_cap e))), e)
      else case charge_egress (ef_budget e) (ef_spend e) of
        Inl x \<Rightarrow> (Some (ErrBudget x), e)
      | Inr s \<Rightarrow> (None, e\<lparr>ef_spend := s, ef_notes := ef_notes e @ [''fetched: '' @ desc]\<rparr>))"

definition note_model :: "bool \<Rightarrow> string \<Rightarrow> effects \<Rightarrow> effects" where
  "note_model is_local desc e =
     e\<lparr>ef_notes := ef_notes e @ [''called the '' @ (if is_local then ''local'' else ''remote'') @ '' model: '' @ desc]\<rparr>"

definition eff_model :: "bool \<Rightarrow> bool \<Rightarrow> string \<Rightarrow> effects \<Rightarrow> run_error option \<times> effects" where
  "eff_model blocked is_local desc e =
     (if is_local then (None, note_model is_local desc e)
      else if blocked then (Some (ErrTorModel (cap_action (ef_cap e))), e)
      else case charge_egress (ef_budget e) (ef_spend e) of
        Inl x \<Rightarrow> (Some (ErrBudget x), e)
      | Inr s \<Rightarrow> (None, note_model is_local desc (e\<lparr>ef_spend := s\<rparr>)))"

section \<open>The installation\<close>

record draft =
  d_slug :: string
  d_title :: string
  d_content :: string
  d_tags :: "string list"

record 'w content_writer =
  cw_create :: "draft \<Rightarrow> 'w \<Rightarrow> string option \<times> 'w"
  cw_update :: "draft \<Rightarrow> 'w \<Rightarrow> string option \<times> 'w"

record 'w model_runner =
  mr_generate :: "string \<Rightarrow> string \<Rightarrow> 'w \<Rightarrow> (string + string) \<times> 'w"
  mr_local :: bool

record 'w install =
  in_blocked :: "'w \<Rightarrow> bool"
  in_content :: "'w content_writer option"
  in_fetcher :: "(string \<Rightarrow> 'w \<Rightarrow> (string + string) \<times> 'w) option"
  in_mailer :: "(string \<Rightarrow> string \<Rightarrow> string \<Rightarrow> 'w \<Rightarrow> string option \<times> 'w) option"
  in_model :: "'w model_runner option"
  in_unusable :: "string \<Rightarrow> string option"
  in_url_scheme :: "string \<Rightarrow> string option"

type_synonym params = "(string, string) gomap"
type_synonym 'w action = "params \<Rightarrow> effects \<times> 'w \<Rightarrow> (string \<times> run_error option) \<times> effects \<times> 'w"

section \<open>The actions\<close>

definition draft_status :: string where "draft_status = ''draft''"

definition draft_from_params :: "params \<Rightarrow> run_error + draft" where
  "draft_from_params p =
     (let raw = trim_space (get_or [] p ''tags'');
          d = \<lparr>d_slug = trim_space (get_or [] p ''slug''), d_title = trim_space (get_or [] p ''title''),
               d_content = get_or [] p ''content'',
               d_tags = (if raw \<noteq> [] then filter (\<lambda>t. t \<noteq> []) (map trim_space (split_ch (CHR '','') raw)) else [])\<rparr>
      in if d_title d = [] then Inl (ErrAction ''a draft needs a title'')
         else if d_slug d = [] then Inl (ErrAction ''a draft needs a slug'')
         else Inr d)"

text \<open>Both content actions, which differ in the description and in the writer's method.\<close>

definition write_draft ::
  "'w install \<Rightarrow> (draft \<Rightarrow> string) \<Rightarrow> ('w content_writer \<Rightarrow> draft \<Rightarrow> 'w \<Rightarrow> string option \<times> 'w) \<Rightarrow> string \<Rightarrow> 'w action" where
  "write_draft ins desc meth did p ew =
     (case draft_from_params p of
        Inl x \<Rightarrow> (([], Some x), ew)
      | Inr d \<Rightarrow>
          (let (err, e) = eff_write WriteDraft (desc d) (fst ew); w = snd ew in
           case err of
             Some x \<Rightarrow> (([], Some x), e, w)
           | None \<Rightarrow>
               (case in_content ins of
                  None \<Rightarrow> (([], Some (ErrAction ''no content storage is wired into this build'')), e, w)
                | Some cw \<Rightarrow>
                    (case meth cw d w of
                       (Some x, w') \<Rightarrow> (([], Some (ErrExternal x)), e, w')
                     | (None, w') \<Rightarrow> ((did @ d_slug d, None), e, w')))))"

definition act_draft_create :: "'w install \<Rightarrow> 'w action" where
  "act_draft_create ins = write_draft ins (\<lambda>d. ''create draft '' @ d_slug d @ em_dash @ d_title d) cw_create ''created draft ''"

definition act_draft_update :: "'w install \<Rightarrow> 'w action" where
  "act_draft_update ins = write_draft ins (\<lambda>d. ''update draft '' @ d_slug d) cw_update ''updated draft ''"

text \<open>utf8.RuneCountInString: an invalid byte counts as one rune.\<close>

definition cont_byte :: "char \<Rightarrow> bool" where
  "cont_byte c = in_range_c 128 191 c"

fun rune_width :: "string \<Rightarrow> nat" where
  "rune_width [] = 1"
| "rune_width (a # s) =
     (case s of
        b # c # d # _ \<Rightarrow>
          if in_range_c 194 223 a \<and> cont_byte b then 2
          else if (in_range_c 224 224 a \<and> in_range_c 160 191 b \<or> in_range_c 225 236 a \<and> cont_byte b
                   \<or> in_range_c 237 237 a \<and> in_range_c 128 159 b \<or> in_range_c 238 239 a \<and> cont_byte b) \<and> cont_byte c then 3
          else if (in_range_c 240 240 a \<and> in_range_c 144 191 b \<or> in_range_c 241 243 a \<and> cont_byte b
                   \<or> in_range_c 244 244 a \<and> in_range_c 128 143 b) \<and> cont_byte c \<and> cont_byte d then 4
          else 1
      | [b, c] \<Rightarrow>
          if in_range_c 194 223 a \<and> cont_byte b then 2
          else if (in_range_c 224 224 a \<and> in_range_c 160 191 b \<or> in_range_c 225 236 a \<and> cont_byte b
                   \<or> in_range_c 237 237 a \<and> in_range_c 128 159 b \<or> in_range_c 238 239 a \<and> cont_byte b) \<and> cont_byte c then 3
          else 1
      | [b] \<Rightarrow> if in_range_c 194 223 a \<and> cont_byte b then 2 else 1
      | [] \<Rightarrow> 1)"

lemma rune_width_pos: "0 < rune_width s"
  by (cases s rule: rune_width.cases) (auto split: list.splits)

function rune_count :: "string \<Rightarrow> nat" where
  "rune_count s = (if s = [] then 0 else Suc (rune_count (drop (rune_width s) s)))"
  by pat_completeness auto
termination
proof (relation "measure length", goal_cases)
  case (2 s)
  then show ?case using rune_width_pos [of s] by (cases s) auto
qed simp

declare rune_count.simps [simp del]

definition max_model_output :: int where "max_model_output = 40000"

definition validate_model_output :: "'w install \<Rightarrow> string \<Rightarrow> run_error + string" where
  "validate_model_output ins raw =
     (let out = trim_space raw in
      if out = [] then Inl (ErrAction ''the model returned nothing'')
      else if int (rune_count out) > max_model_output then Inl (ErrAction ''the model output is too long'')
      else case in_unusable ins out of
        Some why \<Rightarrow> Inl (ErrAction (''the model output is not usable: '' @ why))
      | None \<Rightarrow> Inr out)"

definition prev_placeholder :: string where "prev_placeholder = ''$prev''"

definition substitute_prev :: "params \<Rightarrow> string \<Rightarrow> params" where
  "substitute_prev p prev = map (\<lambda>(k, v). (k, if trim_space v = prev_placeholder then prev else v)) p"

definition supported_ops :: "string list" where
  "supported_ops = [''summarize'', ''improve'', ''titles'', ''seo'', ''continue'', ''draft'']"

definition act_model_generate :: "'w install \<Rightarrow> 'w action" where
  "act_model_generate ins p ew =
     (let op0 = trim_space (get_or [] p ''op''); op = (if op0 = [] then ''draft'' else op0);
          text = trim_space (get_or [] p ''text'')
      in if \<not> List.member supported_ops op then (([], Some (ErrAction ''not a supported model operation'')), ew)
         else if text = [] then (([], Some (ErrAction ''a model step needs text to work from'')), ew)
         else case in_model ins of
           None \<Rightarrow> (([], Some (ErrAction ''no model provider is configured on this install'')), ew)
         | Some m \<Rightarrow>
             (let (err, e) = eff_model (in_blocked ins (snd ew)) (mr_local m) (''generate ('' @ op @ '')'') (fst ew); w = snd ew in
              case err of
                Some x \<Rightarrow> (([], Some x), e, w)
              | None \<Rightarrow>
                  (case mr_generate m op text w of
                     (Inl x, w') \<Rightarrow> (([], Some (ErrExternal x)), e, w')
                   | (Inr raw, w') \<Rightarrow>
                       (case validate_model_output ins raw of
                          Inl x \<Rightarrow> (([], Some x), e, w')
                        | Inr out \<Rightarrow> ((out, None), e, w')))))"

definition max_fetch_body :: int where "max_fetch_body = 40000"

definition act_egress_fetch :: "'w install \<Rightarrow> 'w action" where
  "act_egress_fetch ins p ew =
     (let raw = trim_space (get_or [] p ''url'') in
      if raw = [] then (([], Some (ErrAction ''a fetch step needs a url'')), ew)
      else case in_url_scheme ins raw of
        None \<Rightarrow> (([], Some (ErrAction ''not a usable url'')), ew)
      | Some scheme \<Rightarrow>
          if to_lower scheme \<noteq> ''http'' \<and> to_lower scheme \<noteq> ''https''
          then (([], Some (ErrAction ''a fetch step speaks http(s) only'')), ew)
          else (let (err, e) = eff_fetch (in_blocked ins (snd ew)) raw (fst ew); w = snd ew in
                case err of
                  Some x \<Rightarrow> (([], Some x), e, w)
                | None \<Rightarrow>
                    (case in_fetcher ins of
                       None \<Rightarrow> (([], Some (ErrAction ''no guarded fetcher is wired into this build'')), e, w)
                     | Some f \<Rightarrow>
                         (case f raw w of
                            (Inl x, w') \<Rightarrow> (([], Some (ErrExternal x)), e, w')
                          | (Inr body, w') \<Rightarrow>
                              if int (length body) > max_fetch_body then (([], Some (ErrAction ''the response is too long'')), e, w')
                              else ((body, None), e, w')))))"

definition act_mail_send :: "'w install \<Rightarrow> 'w action" where
  "act_mail_send ins p ew =
     (let to = trim_space (get_or [] p ''to''); subject = trim_space (get_or [] p ''subject''); body = get_or [] p ''body'' in
      if to = [] \<or> subject = [] then (([], Some (ErrAction ''a mail step needs a recipient and a subject'')), ew)
      else if trim_space body = [] then (([], Some (ErrAction ''refusing to send an empty message'')), ew)
      else if List.member to (CHR '','') \<or> List.member to (CHR '';'')
      then (([], Some (ErrAction ''a mail step sends to ONE recipient'')), ew)
      else (let (err, e) = eff_write WriteLive (''send mail to '' @ to @ em_dash @ subject) (fst ew); w = snd ew in
            case err of
              Some x \<Rightarrow> (([], Some x), e, w)
            | None \<Rightarrow>
                (case in_mailer ins of
                   None \<Rightarrow> (([], Some (ErrAction ''no mail sender is wired into this build'')), e, w)
                 | Some m \<Rightarrow>
                     (case m to subject body w of
                        (Some x, w') \<Rightarrow> (([], Some (ErrExternal x)), e, w')
                      | (None, w') \<Rightarrow> ((''sent to '' @ to, None), e, w')))))"

text \<open>The implementations wired at start-up.\<close>

definition action_for :: "'w install \<Rightarrow> string \<Rightarrow> 'w action option" where
  "action_for ins name =
     (if name = ''content.draft.create'' then Some (act_draft_create ins)
      else if name = ''content.draft.update'' then Some (act_draft_update ins)
      else if name = ''model.draft.generate'' then Some (act_model_generate ins)
      else if name = ''egress.fetch'' then Some (act_egress_fetch ins)
      else if name = ''mail.send'' then Some (act_mail_send ins)
      else None)"

section \<open>The runner\<close>

definition join_refusals :: "string list \<Rightarrow> string" where
  "join_refusals rs = join_str ''; '' rs"

definition blank_record :: "step \<Rightarrow> step_record" where
  "blank_record s = \<lparr>sr_action = stp_action s, sr_params = stp_params s, sr_output = [], sr_error = None, sr_refused = [], sr_did = []\<rparr>"

definition fail_run_with :: "run_error \<Rightarrow> step_record \<Rightarrow> run \<Rightarrow> run" where
  "fail_run_with x rc r =
     r\<lparr>rn_steps := rn_steps r @ [rc\<lparr>sr_error := Some x\<rparr>], rn_status := StatusFailed, rn_error := Some x\<rparr>"

text \<open>
  One turn of the loop over the steps: the run, the world and, when the loop goes on, the output
  handed to the next step.
\<close>

definition run_action :: "'w action \<Rightarrow> capability \<Rightarrow> flow \<Rightarrow> step \<Rightarrow> string \<Rightarrow> run \<Rightarrow> 'w \<Rightarrow> (run \<times> 'w) \<times> string option" where
  "run_action fn c f s prev r w =
     (let e0 = \<lparr>ef_mode = fl_mode f, ef_cap = c, ef_budget = fl_budget f, ef_spend = rn_spend r,
                ef_refusals = [], ef_notes = []\<rparr>;
          p = substitute_prev (stp_params s) prev;
          ((out, err), e, w') = fn p (e0, w);
          r = r\<lparr>rn_spend := ef_spend e\<rparr>;
          rc = (blank_record s)\<lparr>sr_params := p, sr_output := out, sr_refused := join_refusals (ef_refusals e),
                                 sr_did := join_refusals (ef_notes e)\<rparr>
      in if err \<noteq> None \<and> err \<noteq> Some ErrDryRun then ((fail_run_with (the err) rc r, w'), None)
         else ((r\<lparr>rn_steps := rn_steps r @ [rc]\<rparr>, w'), Some out))"

definition exec_step :: "'w install \<Rightarrow> flow \<Rightarrow> step \<Rightarrow> string \<Rightarrow> run \<Rightarrow> 'w \<Rightarrow> (run \<times> 'w) \<times> string option" where
  "exec_step ins f s prev r w =
     (case charge_step (fl_budget f) (rn_spend r) of
        Inl x \<Rightarrow> ((fail_run_with (ErrBudget x) (blank_record s) r, w), None)
      | Inr sp \<Rightarrow>
          (case capability_for (stp_action s) of
             None \<Rightarrow> ((fail_run_with (ErrNoCapability (stp_action s)) (blank_record s) (r\<lparr>rn_spend := sp\<rparr>), w), None)
           | Some c \<Rightarrow>
               (case action_for ins (stp_action s) of
                  None \<Rightarrow> ((fail_run_with (ErrNoImplementation (stp_action s)) (blank_record s) (r\<lparr>rn_spend := sp\<rparr>), w), None)
                | Some fn \<Rightarrow> run_action fn c f s prev (r\<lparr>rn_spend := sp\<rparr>) w)))"

fun exec_steps :: "'w install \<Rightarrow> flow \<Rightarrow> step list \<Rightarrow> string \<Rightarrow> run \<Rightarrow> 'w \<Rightarrow> run \<times> 'w" where
  "exec_steps ins f [] prev r w = (r\<lparr>rn_status := StatusSucceeded\<rparr>, w)"
| "exec_steps ins f (s # ss) prev r w =
     (case exec_step ins f s prev r w of
        (rw, None) \<Rightarrow> rw
      | (rw, Some out) \<Rightarrow> exec_steps ins f ss out (fst rw) (snd rw))"

text \<open>
  What one Execute reads from outside: the clock at the ceiling check, in Begin and in Finish, the
  fresh id, whether each statement succeeds, and the role resolver (\<open>None\<close> is its error).
\<close>

record exec_env =
  ev_now :: time
  ev_begin :: time
  ev_finish :: time
  ev_id :: string
  ev_count_ok :: bool
  ev_begin_ok :: bool
  ev_finish_ok :: bool
  ev_role :: "string \<Rightarrow> string option"

record exec_result =
  xr_run :: "run option"
  xr_error :: "exec_error option"

definition resolved_role :: "exec_env \<Rightarrow> flow \<Rightarrow> string" where
  "resolved_role ev f = (case ev_role ev (fl_owner f) of Some r \<Rightarrow> r | None \<Rightarrow> [])"

text \<open>What happens inside a begun run: the authority, the condition, the steps.\<close>

definition run_body :: "'w install \<Rightarrow> string \<Rightarrow> flow \<Rightarrow> subject \<Rightarrow> run \<Rightarrow> 'w \<Rightarrow> run \<times> 'w" where
  "run_body ins role f subj r w =
     (if \<not> owner_at_least role (min_owner_role f)
      then (r\<lparr>rn_status := StatusRefused, rn_error := Some (ErrOwner (fl_owner f) (min_owner_role f) role)\<rparr>, w)
      else if \<not> cond_holds (fl_condition f) subj
      then (r\<lparr>rn_status := StatusRefused, rn_error := Some ErrCondition\<rparr>, w)
      else exec_steps ins f (fl_steps f) [] r w)"

definition execute ::
  "'w install \<Rightarrow> exec_env \<Rightarrow> flow \<Rightarrow> string \<Rightarrow> string \<Rightarrow> subject \<Rightarrow> run list \<times> 'w \<Rightarrow> exec_result \<times> run list \<times> 'w" where
  "execute ins ev f cause identity subj rw =
     (let runs = fst rw; w = snd rw; no = (\<lambda>e. (\<lparr>xr_run = None, xr_error = Some e\<rparr>, runs, w)) in
      case flow_complete f of
        Some e \<Rightarrow> no (ErrFlow e)
      | None \<Rightarrow>
          if \<not> fl_enabled f then no ErrDisabled
          else if \<not> ev_count_ok ev then no ErrRunDb
          else if int (count_since (fl_id f) (ev_now ev - hour) runs) \<ge> max_runs_hour (fl_budget f) then no ErrRateCeiling
          else (case run_begin (ev_begin_ok ev) (ev_id ev) (ev_begin ev) f cause identity (resolved_role ev f) runs of
                  (Inl e, runs) \<Rightarrow> (\<lparr>xr_run = None, xr_error = Some e\<rparr>, runs, w)
                | (Inr r, runs) \<Rightarrow>
                    (let (r, w) = run_body ins (resolved_role ev f) f subj r w;
                         (err, runs) = run_finish (ev_finish_ok ev) (ev_finish ev) r runs
                     in (\<lparr>xr_run = Some r, xr_error = err\<rparr>, runs, w))))"

section \<open>What one action may do\<close>

text \<open>
  The contract every action keeps: it leaves the mode, the capability and the budget of its effects
  alone, spend only grows and stays within the budget, and whatever it did to the world was charged
  for: \<open>wc\<close> counts the persistent writes the world has seen and \<open>ec\<close> the outbound calls.
\<close>

definition writes_counted :: "'w install \<Rightarrow> ('w \<Rightarrow> nat) \<Rightarrow> bool" where
  "writes_counted ins wc \<longleftrightarrow>
     (\<forall>cw d w. in_content ins = Some cw \<longrightarrow> wc (snd (cw_create cw d w)) \<le> wc w + 1 \<and> wc (snd (cw_update cw d w)) \<le> wc w + 1)
     \<and> (\<forall>m t s b w. in_mailer ins = Some m \<longrightarrow> wc (snd (m t s b w)) \<le> wc w + 1)
     \<and> (\<forall>f u w. in_fetcher ins = Some f \<longrightarrow> wc (snd (f u w)) \<le> wc w)
     \<and> (\<forall>m x t w. in_model ins = Some m \<longrightarrow> wc (snd (mr_generate m x t w)) \<le> wc w)"

definition egress_counted :: "'w install \<Rightarrow> ('w \<Rightarrow> nat) \<Rightarrow> bool" where
  "egress_counted ins ec \<longleftrightarrow>
     (\<forall>cw d w. in_content ins = Some cw \<longrightarrow> ec (snd (cw_create cw d w)) \<le> ec w \<and> ec (snd (cw_update cw d w)) \<le> ec w)
     \<and> (\<forall>m t s b w. in_mailer ins = Some m \<longrightarrow> ec (snd (m t s b w)) \<le> ec w)
     \<and> (\<forall>f u w. in_fetcher ins = Some f \<longrightarrow> ec (snd (f u w)) \<le> ec w + 1)
     \<and> (\<forall>m x t w. in_model ins = Some m \<longrightarrow> ec (snd (mr_generate m x t w)) \<le> ec w + (if mr_local m then 0 else 1))"

definition eff_step :: "effects \<Rightarrow> effects \<Rightarrow> bool" where
  "eff_step e e' \<longleftrightarrow> ef_mode e' = ef_mode e \<and> ef_cap e' = ef_cap e \<and> ef_budget e' = ef_budget e
     \<and> sp_steps (ef_spend e') = sp_steps (ef_spend e)
     \<and> sp_writes (ef_spend e) \<le> sp_writes (ef_spend e') \<and> sp_egress (ef_spend e) \<le> sp_egress (ef_spend e')
     \<and> (within_budget (ef_budget e) (ef_spend e) \<longrightarrow> within_budget (ef_budget e) (ef_spend e'))"

lemma eff_step_refl [simp]: "eff_step e e"
  by (simp add: eff_step_def)

lemma charged_eff_step:
  assumes "ef_mode e' = ef_mode e" "ef_cap e' = ef_cap e" "ef_budget e' = ef_budget e"
    and "charge_write (ef_budget e) (ef_spend e) = Inr (ef_spend e') \<or> charge_egress (ef_budget e) (ef_spend e) = Inr (ef_spend e')"
  shows "eff_step e e'"
  using assms(4)
proof
  assume c: "charge_write (ef_budget e) (ef_spend e) = Inr (ef_spend e')"
  show ?thesis
    unfolding eff_step_def
    using assms(1-3) wrt.chg_within [OF c] charge_others(3,4) [OF c] within_budget_charge(2) [OF _ c] by simp
next
  assume c: "charge_egress (ef_budget e) (ef_spend e) = Inr (ef_spend e')"
  show ?thesis
    unfolding eff_step_def
    using assms(1-3) egr.chg_within [OF c] charge_others(5,6) [OF c] within_budget_charge(3) [OF _ c] by simp
qed

lemma eff_write_step: "eff_write l d e = (x, e') \<Longrightarrow> eff_step e e'"
  by (cases "charge_write (ef_budget e) (ef_spend e)")
    (auto simp: eff_write_def Let_def split: if_splits intro!: charged_eff_step)

lemma eff_fetch_step: "eff_fetch b d e = (x, e') \<Longrightarrow> eff_step e e'"
  by (cases "charge_egress (ef_budget e) (ef_spend e)")
    (auto simp: eff_fetch_def Let_def split: if_splits intro!: charged_eff_step)

lemma eff_model_step: "eff_model b l d e = (x, e') \<Longrightarrow> eff_step e e'"
proof -
  have n: "eff_step e (note_model l d e)" by (simp add: eff_step_def note_model_def)
  assume "eff_model b l d e = (x, e')"
  then show ?thesis
    using n by (cases "charge_egress (ef_budget e) (ef_spend e)")
      (auto simp: eff_model_def note_model_def split: if_splits intro!: charged_eff_step)
qed

lemma eff_write_granted:
  "eff_write l d e = (None, e') \<Longrightarrow> ef_mode e = RunLive \<and> at_most l (cap_writes (ef_cap e))
     \<and> sp_writes (ef_spend e') = sp_writes (ef_spend e) + 1"
  using wrt.chg_adds [of "ef_budget e" "ef_spend e"]
  by (auto simp: eff_write_def Let_def split: if_splits sum.splits)

lemma eff_fetch_granted:
  "eff_fetch b d e = (None, e') \<Longrightarrow> \<not> b \<and> sp_egress (ef_spend e') = sp_egress (ef_spend e) + 1"
  using egr.chg_adds [of "ef_budget e" "ef_spend e"]
  by (auto simp: eff_fetch_def split: if_splits sum.splits)

lemma eff_model_granted:
  "eff_model b l d e = (None, e') \<Longrightarrow> (l \<or> \<not> b \<and> sp_egress (ef_spend e') = sp_egress (ef_spend e) + 1)"
  using egr.chg_adds [of "ef_budget e" "ef_spend e"]
  by (auto simp: eff_model_def note_model_def split: if_splits sum.splits)

definition act_ok :: "'w install \<Rightarrow> effects \<times> 'w \<Rightarrow> effects \<times> 'w \<Rightarrow> bool" where
  "act_ok ins ew ew' \<longleftrightarrow> eff_step (fst ew) (fst ew')
     \<and> (\<forall>wc. writes_counted ins wc \<longrightarrow>
          int (wc (snd ew')) - int (wc (snd ew)) \<le> sp_writes (ef_spend (fst ew')) - sp_writes (ef_spend (fst ew))
          \<and> (ef_mode (fst ew) \<noteq> RunLive \<longrightarrow> wc (snd ew') \<le> wc (snd ew)))
     \<and> (\<forall>ec. egress_counted ins ec \<longrightarrow>
          int (ec (snd ew')) - int (ec (snd ew)) \<le> sp_egress (ef_spend (fst ew')) - sp_egress (ef_spend (fst ew))
          \<and> (in_blocked ins (snd ew) \<longrightarrow> ec (snd ew') \<le> ec (snd ew)))"

lemma act_ok_refl [simp]: "act_ok ins ew ew"
  by (simp add: act_ok_def)

lemma act_ok_same_world: "eff_step e e' \<Longrightarrow> act_ok ins (e, w) (e', w)"
  by (auto simp: act_ok_def eff_step_def)

lemma act_ok_write:
  assumes "eff_write l d e = (None, e')"
    and "\<And>wc. writes_counted ins wc \<Longrightarrow> wc w' \<le> wc w + 1" and "\<And>ec. egress_counted ins ec \<Longrightarrow> ec w' \<le> ec w"
  shows "act_ok ins (e, w) (e', w')"
proof -
  note st = eff_write_step [OF assms(1)] and g = eff_write_granted [OF assms(1)]
  have "sp_egress (ef_spend e) \<le> sp_egress (ef_spend e')" using st by (simp add: eff_step_def)
  moreover have "int (wc w') - int (wc w) \<le> 1" if "writes_counted ins wc" for wc
    using assms(2) [OF that] by linarith
  moreover have "int (ec w') - int (ec w) \<le> 0" if "egress_counted ins ec" for ec
    using assms(3) [OF that] by linarith
  ultimately show ?thesis
    unfolding act_ok_def fst_conv snd_conv using st g assms(3) by fastforce
qed

lemma act_ok_egress:
  assumes "eff_step e e'" and "sp_egress (ef_spend e') \<ge> sp_egress (ef_spend e) + int n" and "in_blocked ins w \<Longrightarrow> n = 0"
    and "\<And>wc. writes_counted ins wc \<Longrightarrow> wc w' \<le> wc w" and "\<And>ec. egress_counted ins ec \<Longrightarrow> ec w' \<le> ec w + n"
  shows "act_ok ins (e, w) (e', w')"
proof -
  have "sp_writes (ef_spend e) \<le> sp_writes (ef_spend e')" using assms(1) by (simp add: eff_step_def)
  moreover have "int (wc w') - int (wc w) \<le> 0" if "writes_counted ins wc" for wc
    using assms(4) [OF that] by linarith
  moreover have "int (ec w') - int (ec w) \<le> int n" if "egress_counted ins ec" for ec
    using assms(5) [OF that] by linarith
  ultimately show ?thesis
    unfolding act_ok_def fst_conv snd_conv using assms by fastforce
qed

lemma write_draft_ok:
  assumes "\<And>wc cw d w. writes_counted ins wc \<Longrightarrow> in_content ins = Some cw \<Longrightarrow> wc (snd (meth cw d w)) \<le> wc w + 1"
    and "\<And>ec cw d w. egress_counted ins ec \<Longrightarrow> in_content ins = Some cw \<Longrightarrow> ec (snd (meth cw d w)) \<le> ec w"
  shows "act_ok ins (e, w) (snd (write_draft ins desc meth did p (e, w)))"
proof (cases "draft_from_params p")
  case (Inl x)
  then show ?thesis by (simp add: write_draft_def)
next
  case (Inr d)
  obtain err e' where ew: "eff_write WriteDraft (desc d) e = (err, e')" by (cases "eff_write WriteDraft (desc d) e")
  note st = eff_write_step [OF ew]
  show ?thesis
  proof (cases err)
    case (Some x)
    with Inr ew show ?thesis by (simp add: write_draft_def act_ok_same_world [OF st])
  next
    case None
    note ew' = ew [unfolded None]
    show ?thesis
    proof (cases "in_content ins")
      case None
      with Inr ew' show ?thesis by (simp add: write_draft_def act_ok_same_world [OF st])
    next
      case (Some cw)
      have "snd (write_draft ins desc meth did p (e, w)) = (e', snd (meth cw d w))"
        using Inr ew' Some by (simp add: write_draft_def split: prod.splits option.splits)
      moreover have "act_ok ins (e, w) (e', snd (meth cw d w))"
        by (rule act_ok_write [OF ew']) (use assms Some in auto)
      ultimately show ?thesis by simp
    qed
  qed
qed

lemma draft_actions_ok:
  "act_ok ins (e, w) (snd (act_draft_create ins p (e, w)))"
  "act_ok ins (e, w) (snd (act_draft_update ins p (e, w)))"
  unfolding act_draft_create_def act_draft_update_def
  by (rule write_draft_ok; auto simp: writes_counted_def egress_counted_def)+

lemma mail_send_ok: "act_ok ins (e, w) (snd (act_mail_send ins p (e, w)))"
proof -
  let ?to = "trim_space (get_or [] p ''to'')" and ?su = "trim_space (get_or [] p ''subject'')" and ?b = "get_or [] p ''body''"
  let ?desc = "''send mail to '' @ ?to @ em_dash @ ?su"
  obtain err e' where ew: "eff_write WriteLive ?desc e = (err, e')" by (cases "eff_write WriteLive ?desc e")
  have send: "act_ok ins (e, w) (e', snd (m ?to ?su ?b w))" if "err = None" "in_mailer ins = Some m" for m
    by (rule act_ok_write [OF ew [unfolded that(1)]]) (use that(2) in \<open>auto simp: writes_counted_def egress_counted_def\<close>)
  show ?thesis
    unfolding act_mail_send_def Let_def fst_conv snd_conv ew prod.case
    using act_ok_same_world [OF eff_write_step [OF ew], of ins w] send
    by (auto split: option.splits prod.splits)
qed

lemma egress_fetch_ok: "act_ok ins (e, w) (snd (act_egress_fetch ins p (e, w)))"
proof -
  let ?u = "trim_space (get_or [] p ''url'')"
  obtain err e' where ew: "eff_fetch (in_blocked ins w) ?u e = (err, e')" by (cases "eff_fetch (in_blocked ins w) ?u e")
  note st = eff_fetch_step [OF ew]
  have call: "act_ok ins (e, w) (e', snd (f ?u w))" if "err = None" "in_fetcher ins = Some f" for f
  proof (rule act_ok_egress [OF st, where n = 1])
    show "sp_egress (ef_spend e') \<ge> sp_egress (ef_spend e) + int 1" "in_blocked ins w \<Longrightarrow> 1 = 0"
      using eff_fetch_granted [OF ew [unfolded that(1)]] by auto
  qed (use that(2) in \<open>auto simp: writes_counted_def egress_counted_def\<close>)
  show ?thesis
    unfolding act_egress_fetch_def Let_def fst_conv snd_conv ew prod.case
    using act_ok_same_world [OF st, of ins w] call
    by (auto split: option.splits prod.splits sum.splits if_splits)
qed

lemma model_generate_ok: "act_ok ins (e, w) (snd (act_model_generate ins p (e, w)))"
proof -
  let ?o = "trim_space (get_or [] p ''op'')" and ?t = "trim_space (get_or [] p ''text'')"
  let ?op = "if ?o = [] then ''draft'' else ?o"
  show ?thesis
  proof (cases "in_model ins")
    case None
    then show ?thesis unfolding act_model_generate_def Let_def by simp
  next
    case (Some m)
    obtain err e' where ew: "eff_model (in_blocked ins w) (mr_local m) (''generate ('' @ ?op @ '')'') e = (err, e')"
      by (cases "eff_model (in_blocked ins w) (mr_local m) (''generate ('' @ ?op @ '')'') e")
    note st = eff_model_step [OF ew]
    let ?n = "if mr_local m then 0 else 1 :: nat"
    have call: "act_ok ins (e, w) (e', snd (mr_generate m ?op ?t w))" if "err = None"
    proof (rule act_ok_egress [OF st, where n = ?n])
      have "sp_egress (ef_spend e) \<le> sp_egress (ef_spend e')" using st by (simp add: eff_step_def)
      then show "sp_egress (ef_spend e') \<ge> sp_egress (ef_spend e) + int ?n" "in_blocked ins w \<Longrightarrow> ?n = 0"
        using eff_model_granted [OF ew [unfolded that]] by auto
    qed (use Some in \<open>auto simp: writes_counted_def egress_counted_def\<close>)
    show ?thesis
      unfolding act_model_generate_def Let_def fst_conv snd_conv Some option.case ew prod.case
      using act_ok_same_world [OF st, of ins w] call
      by (auto split: option.splits prod.splits sum.splits simp del: append.simps)
  qed
qed

lemma action_ok: "action_for ins name = Some fn \<Longrightarrow> act_ok ins (e, w) (snd (fn p (e, w)))"
  using draft_actions_ok mail_send_ok egress_fetch_ok model_generate_ok
  by (auto simp: action_for_def split: if_splits)

section \<open>What a run may do\<close>

definition same_run :: "run \<Rightarrow> run \<Rightarrow> bool" where
  "same_run r r' \<longleftrightarrow> rn_id r' = rn_id r \<and> rn_flow_id r' = rn_flow_id r \<and> rn_idem r' = rn_idem r
     \<and> rn_started r' = rn_started r \<and> rn_budget r' = rn_budget r"

definition run_ok :: "'w install \<Rightarrow> flow \<Rightarrow> run \<times> 'w \<Rightarrow> run \<times> 'w \<Rightarrow> bool" where
  "run_ok ins f rw rw' \<longleftrightarrow> same_run (fst rw) (fst rw')
     \<and> (within_budget (fl_budget f) (rn_spend (fst rw)) \<longrightarrow> within_budget (fl_budget f) (rn_spend (fst rw')))
     \<and> (\<forall>wc. writes_counted ins wc \<longrightarrow>
          int (wc (snd rw')) - int (wc (snd rw)) \<le> sp_writes (rn_spend (fst rw')) - sp_writes (rn_spend (fst rw))
          \<and> (fl_mode f \<noteq> RunLive \<longrightarrow> wc (snd rw') \<le> wc (snd rw)))
     \<and> (\<forall>ec. egress_counted ins ec \<longrightarrow>
          int (ec (snd rw')) - int (ec (snd rw)) \<le> sp_egress (rn_spend (fst rw')) - sp_egress (rn_spend (fst rw))
          \<and> ((\<forall>w. in_blocked ins w) \<longrightarrow> ec (snd rw') \<le> ec (snd rw)))"

lemma run_ok_writes: "run_ok ins f rw rw' \<Longrightarrow> writes_counted ins wc \<Longrightarrow> fl_mode f \<noteq> RunLive \<Longrightarrow> wc (snd rw') \<le> wc (snd rw)"
  by (simp add: run_ok_def)

lemma run_ok_egress: "run_ok ins f rw rw' \<Longrightarrow> egress_counted ins ec \<Longrightarrow> \<forall>w. in_blocked ins w \<Longrightarrow> ec (snd rw') \<le> ec (snd rw)"
  by (simp add: run_ok_def)

lemma run_ok_trans:
  assumes "run_ok ins f a b" and "run_ok ins f b c"
  shows "run_ok ins f a c"
proof -
  have "same_run (fst a) (fst c)" using assms by (simp add: run_ok_def same_run_def)
  moreover have "within_budget (fl_budget f) (rn_spend (fst a)) \<longrightarrow> within_budget (fl_budget f) (rn_spend (fst c))"
    using assms by (simp add: run_ok_def)
  moreover have "int (wc (snd c)) - int (wc (snd a)) \<le> sp_writes (rn_spend (fst c)) - sp_writes (rn_spend (fst a))
      \<and> (fl_mode f \<noteq> RunLive \<longrightarrow> wc (snd c) \<le> wc (snd a))" if w: "writes_counted ins wc" for wc
  proof -
    from assms w have "int (wc (snd b)) - int (wc (snd a)) \<le> sp_writes (rn_spend (fst b)) - sp_writes (rn_spend (fst a))
        \<and> (fl_mode f \<noteq> RunLive \<longrightarrow> wc (snd b) \<le> wc (snd a))"
      and "int (wc (snd c)) - int (wc (snd b)) \<le> sp_writes (rn_spend (fst c)) - sp_writes (rn_spend (fst b))
        \<and> (fl_mode f \<noteq> RunLive \<longrightarrow> wc (snd c) \<le> wc (snd b))"
      by (auto simp: run_ok_def)
    then show ?thesis by linarith
  qed
  moreover have "int (ec (snd c)) - int (ec (snd a)) \<le> sp_egress (rn_spend (fst c)) - sp_egress (rn_spend (fst a))
      \<and> ((\<forall>w. in_blocked ins w) \<longrightarrow> ec (snd c) \<le> ec (snd a))" if e: "egress_counted ins ec" for ec
  proof -
    from assms e have "int (ec (snd b)) - int (ec (snd a)) \<le> sp_egress (rn_spend (fst b)) - sp_egress (rn_spend (fst a))
        \<and> ((\<forall>w. in_blocked ins w) \<longrightarrow> ec (snd b) \<le> ec (snd a))"
      and "int (ec (snd c)) - int (ec (snd b)) \<le> sp_egress (rn_spend (fst c)) - sp_egress (rn_spend (fst b))
        \<and> ((\<forall>w. in_blocked ins w) \<longrightarrow> ec (snd c) \<le> ec (snd b))"
      by (auto simp: run_ok_def)
    then show ?thesis by (auto intro: order_trans)
  qed
  ultimately show ?thesis unfolding run_ok_def by blast
qed

lemma run_ok_record:
  "same_run r r' \<Longrightarrow> rn_spend r' = rn_spend r \<Longrightarrow> run_ok ins f (r, w) (r', w)"
  by (simp add: run_ok_def)

lemma same_run_simps [simp]: "same_run r r" "same_run r (r\<lparr>rn_spend := s\<rparr>)" "same_run r (r\<lparr>rn_status := st\<rparr>)"
  "same_run r (fail_run_with x rc r)" "same_run r (r\<lparr>rn_status := st, rn_error := oe\<rparr>)"
  "same_run r (r\<lparr>rn_spend := s, rn_steps := xs\<rparr>)" "same_run r (fail_run_with x rc (r\<lparr>rn_spend := s\<rparr>))"
  by (simp_all add: same_run_def fail_run_with_def)

lemma run_ok_charge:
  assumes "charge_step (fl_budget f) (rn_spend r) = Inr sp"
  shows "run_ok ins f (r, w) (r\<lparr>rn_spend := sp\<rparr>, w)"
  using within_budget_charge(1) [OF _ assms] charge_others(1,2) [OF assms] by (simp add: run_ok_def)

lemma run_ok_action:
  assumes "act_ok ins (e0, w) (e, w')" and "ef_mode e0 = fl_mode f" "ef_budget e0 = fl_budget f" "ef_spend e0 = rn_spend r"
    and "same_run r r'" "rn_spend r' = ef_spend e"
  shows "run_ok ins f (r, w) (r', w')"
  using assms by (simp add: act_ok_def run_ok_def eff_step_def)

lemma run_action_ok:
  assumes "action_for ins name = Some fn"
  shows "run_ok ins f (r, w) (fst (run_action fn c f s prev r w))"
proof -
  define e0 where "e0 = \<lparr>ef_mode = fl_mode f, ef_cap = c, ef_budget = fl_budget f, ef_spend = rn_spend r,
    ef_refusals = [], ef_notes = []\<rparr>"
  define p where "p = substitute_prev (stp_params s) prev"
  obtain out err e w' where res: "fn p (e0, w) = ((out, err), e, w')" by (metis prod.collapse)
  have a: "act_ok ins (e0, w) (e, w')" using action_ok [OF assms, of e0 w p] res by simp
  have "\<exists>r'. fst (run_action fn c f s prev r w) = (r', w') \<and> same_run r r' \<and> rn_spend r' = ef_spend e"
    unfolding run_action_def Let_def e0_def [symmetric] p_def [symmetric] res prod.case
    by (cases "err \<noteq> None \<and> err \<noteq> Some ErrDryRun") (simp_all add: fail_run_with_def same_run_def)
  then obtain r' where "fst (run_action fn c f s prev r w) = (r', w')" and "same_run r r'" "rn_spend r' = ef_spend e"
    by blast
  moreover from this have "run_ok ins f (r, w) (r', w')"
    by (intro run_ok_action [OF a]) (simp_all add: e0_def)
  ultimately show ?thesis by simp
qed

lemma exec_step_ok: "run_ok ins f (r, w) (fst (exec_step ins f s prev r w))"
proof (cases "charge_step (fl_budget f) (rn_spend r)")
  case (Inl x)
  then show ?thesis by (simp add: exec_step_def run_ok_record fail_run_with_def same_run_def)
next
  case (Inr sp)
  have c: "run_ok ins f (r, w) (r\<lparr>rn_spend := sp\<rparr>, w)" by (rule run_ok_charge [OF Inr])
  have f: "run_ok ins f (r\<lparr>rn_spend := sp\<rparr>, w) (fail_run_with x (blank_record s) (r\<lparr>rn_spend := sp\<rparr>), w)" for x
    by (rule run_ok_record) (simp_all add: fail_run_with_def same_run_def)
  show ?thesis
    using Inr run_ok_trans [OF c f] run_ok_trans [OF c run_action_ok]
    by (auto simp: exec_step_def split: option.split)
qed

lemma exec_steps_ok: "run_ok ins f (r, w) (exec_steps ins f ss prev r w)"
proof (induction ss arbitrary: prev r w)
  case Nil
  show ?case unfolding exec_steps.simps by (rule run_ok_record) simp_all
next
  case (Cons s ss)
  obtain r' w' o' where st: "exec_step ins f s prev r w = ((r', w'), o')" by (metis prod.collapse)
  then have "run_ok ins f (r, w) (r', w')" using exec_step_ok [of ins f r w s prev] by simp
  with Cons.IH [of r' w'] st show ?case by (cases o') (auto intro: run_ok_trans)
qed

lemma exec_step_stop: "exec_step ins f s prev r w = ((r', w'), None) \<Longrightarrow> rn_status r' = StatusFailed"
  by (auto simp: exec_step_def run_action_def fail_run_with_def Let_def split: sum.splits option.splits prod.splits if_splits)

lemma exec_steps_status: "rn_status (fst (exec_steps ins f ss prev r w)) \<in> {StatusFailed, StatusSucceeded}"
proof (induction ss arbitrary: prev r w)
  case (Cons s ss)
  obtain r' w' o' where st: "exec_step ins f s prev r w = ((r', w'), o')" by (metis prod.collapse)
  with Cons.IH [of _ r' w'] exec_step_stop [of ins f s prev r w r' w'] show ?case by (cases o') auto
qed simp

lemma run_body_ok: "run_ok ins f (r, w) (run_body ins role f subj r w)"
  unfolding run_body_def using exec_steps_ok by (auto intro!: run_ok_record)

lemma run_body_status: "rn_status (fst (run_body ins role f subj r w)) \<noteq> StatusRunning"
  using exec_steps_status [of ins f "fl_steps f" "[]" r w] by (auto simp: run_body_def)

text \<open>How an Execute that got as far as a run looks.\<close>

lemma execute_run:
  assumes "execute ins ev f cause identity subj (runs, w) = (res, runs', w')" and "xr_run res = Some r"
  obtains r0 where "flow_complete f = None" "fl_enabled f"
    "int (count_since (fl_id f) (ev_now ev - hour) runs) < max_runs_hour (fl_budget f)"
    "run_begin (ev_begin_ok ev) (ev_id ev) (ev_begin ev) f cause identity (resolved_role ev f) runs = (Inr r0, runs @ [r0])"
    "run_body ins (resolved_role ev f) f subj r0 w = (r, w')"
    "run_finish (ev_finish_ok ev) (ev_finish ev) r (runs @ [r0]) = (xr_error res, runs')"
proof -
  let ?b = "run_begin (ev_begin_ok ev) (ev_id ev) (ev_begin ev) f cause identity (resolved_role ev f) runs"
  have c: "flow_complete f = None" "fl_enabled f" "int (count_since (fl_id f) (ev_now ev - hour) runs) < max_runs_hour (fl_budget f)"
    using assms unfolding execute_def Let_def fst_conv snd_conv by (auto split: option.splits if_splits)
  obtain b runs1 where b: "?b = (b, runs1)" by (cases ?b)
  have "\<exists>r0. b = Inr r0"
    using assms c b unfolding execute_def Let_def fst_conv snd_conv by (auto split: if_splits sum.splits)
  then obtain r0 where r0: "b = Inr r0" by blast
  then have runs1: "runs1 = runs @ [r0]" using run_begin_success b by metis
  have "run_body ins (resolved_role ev f) f subj r0 w = (r, w') \<and>
      run_finish (ev_finish_ok ev) (ev_finish ev) r (runs @ [r0]) = (xr_error res, runs')"
    using assms c b r0 runs1 unfolding execute_def Let_def fst_conv snd_conv
    by (auto split: if_splits prod.splits)
  then show ?thesis using that c b r0 runs1 by blast
qed

lemma execute_no_run:
  assumes "execute ins ev f cause identity subj (runs, w) = (res, runs', w')" and "xr_run res = None"
  shows "runs' = runs \<and> w' = w"
  using assms unfolding execute_def Let_def fst_conv snd_conv run_begin_def
  by (auto simp: Let_def split: option.splits if_splits prod.splits)

lemma execute_ok:
  assumes "execute ins ev f cause identity subj (runs, w) = (res, runs', w')" and "xr_run res = Some r"
  shows "\<exists>r0. rn_spend r0 = zero_spend \<and> run_ok ins f (r0, w) (r, w') \<and> flow_complete f = None"
proof -
  from assms obtain r0 where "flow_complete f = None"
    and b: "run_begin (ev_begin_ok ev) (ev_id ev) (ev_begin ev) f cause identity (resolved_role ev f) runs = (Inr r0, runs @ [r0])"
    and "run_body ins (resolved_role ev f) f subj r0 w = (r, w')"
    by (rule execute_run)
  then show ?thesis using run_body_ok [of ins f r0 w "resolved_role ev f" subj] run_begin_success [OF b] by metis
qed

section \<open>Properties\<close>

text \<open>
  C2. The blast radius of a run. Let wc count the persistent writes the world has seen and ec its
  outbound calls, so that only the content store and the mail sender can raise the first and only the
  fetcher and a remote model the second, by at most one per call. Whatever the steps, the parameters,
  the model output and the providers' errors: an Execute that starts no run changes nothing, and a run
  performs at most the writes and outbound calls it recorded as spend, which stay within the declared
  budget, and so below ten thousand.
\<close>

theorem run_blast_radius:
  assumes "execute ins ev f cause identity subj (runs, w) = (res, runs', w')"
    and "writes_counted ins wc" and "egress_counted ins ec"
  shows "case xr_run res of
      None \<Rightarrow> runs' = runs \<and> w' = w
    | Some r \<Rightarrow> within_budget (fl_budget f) (rn_spend r) \<and> max_writes (fl_budget f) \<le> 10000 \<and> max_egress (fl_budget f) \<le> 10000
        \<and> int (wc w') - int (wc w) \<le> sp_writes (rn_spend r) \<and> int (ec w') - int (ec w) \<le> sp_egress (rn_spend r)"
proof (cases "xr_run res")
  case None
  then show ?thesis using execute_no_run [OF assms(1)] by simp
next
  case (Some r)
  from execute_ok [OF assms(1) Some] obtain r0 where z: "rn_spend r0 = zero_spend"
    and ok: "run_ok ins f (r0, w) (r, w')" and c: "flow_complete f = None" by blast
  note b = flow_complete_facts(3) [OF c]
  have "within_budget (fl_budget f) (rn_spend r0)" using zero_within [OF b] z by simp
  then have "within_budget (fl_budget f) (rn_spend r)" using ok by (simp add: run_ok_def)
  moreover have "int (wc w') - int (wc w) \<le> sp_writes (rn_spend r)" "int (ec w') - int (ec w) \<le> sp_egress (rn_spend r)"
    using ok assms(2,3) z by (auto simp: run_ok_def zero_spend_def)
  moreover have "max_writes (fl_budget f) \<le> 10000" "max_egress (fl_budget f) \<le> 10000"
    using b unfolding budget_complete_iff by linarith+
  ultimately show ?thesis using Some by simp
qed

text \<open>A world that counts: a pair of counters that the providers advance.\<close>

definition counting_install :: "bool \<Rightarrow> (nat \<times> nat) install" where
  "counting_install tor =
     \<lparr>in_blocked = (\<lambda>w. tor),
      in_content = Some \<lparr>cw_create = (\<lambda>d w. (None, fst w + 1, snd w)), cw_update = (\<lambda>d w. (None, fst w + 1, snd w))\<rparr>,
      in_fetcher = Some (\<lambda>u w. (Inr ''body'', fst w, snd w + 1)),
      in_mailer = Some (\<lambda>t s b w. (None, fst w + 1, snd w)),
      in_model = Some \<lparr>mr_generate = (\<lambda>x t w. (Inr ''text'', fst w, snd w + 1)), mr_local = False\<rparr>,
      in_unusable = (\<lambda>s. None), in_url_scheme = (\<lambda>u. Some ''https'')\<rparr>"

definition demo_flow :: "run_mode \<Rightarrow> flow" where
  "demo_flow m = \<lparr>fl_id = ''ab'', fl_name = ''digest'', fl_enabled = True,
     fl_trigger = \<lparr>tg_kind = TriggerManual, tg_cron = [], tg_event = []\<rparr>, fl_condition = Condition CondAlways [] [],
     fl_steps = [\<lparr>stp_action = ''egress.fetch'', stp_params = [(''url'', ''https://x'')]\<rparr>,
       \<lparr>stp_action = ''content.draft.create'', stp_params = [(''slug'', ''s''), (''title'', ''T''), (''content'', ''$prev'')]\<rparr>],
     fl_budget = \<lparr>max_steps = 5, max_runs_hour = 1, max_writes = 1, max_egress = 1, b_timeout = minute\<rparr>,
     fl_owner = ''ann'', fl_mode = m, fl_version = 1\<rparr>"

definition demo_env :: exec_env where
  "demo_env = \<lparr>ev_now = 2 * hour, ev_begin = 2 * hour, ev_finish = 2 * hour, ev_id = ''r1'', ev_count_ok = True,
     ev_begin_ok = True, ev_finish_ok = True, ev_role = (\<lambda>w. Some ''editor'')\<rparr>"

definition demo_subject :: subject where
  "demo_subject = \<lparr>subj_tags = [], subj_author = [], subj_status = [], subj_title = [], subj_slug = []\<rparr>"

definition demo_exec :: "bool \<Rightarrow> run_mode \<Rightarrow> exec_result \<times> run list \<times> nat \<times> nat" where
  "demo_exec tor m = execute (counting_install tor) demo_env (demo_flow m) ''manual'' ''t1'' demo_subject ([], 0, 0)"

lemma counting_counted: "writes_counted (counting_install tor) fst" "egress_counted (counting_install tor) snd"
  by (simp_all add: writes_counted_def egress_counted_def counting_install_def)

lemma demo_exec_split: "execute (counting_install tor) demo_env (demo_flow m) ''manual'' ''t1'' demo_subject ([], 0, 0)
  = (fst (demo_exec tor m), fst (snd (demo_exec tor m)), snd (snd (demo_exec tor m)))"
  by (simp add: demo_exec_def)

theorem run_blast_radius_witness:
  "map_option (\<lambda>r. (rn_status r, sp_writes (rn_spend r), sp_egress (rn_spend r))) (xr_run (fst (demo_exec False RunLive)))
     = Some (StatusSucceeded, 1, 1)
   \<and> int (fst (snd (snd (demo_exec False RunLive)))) \<le> 1"
proof -
  have run: "map_option (\<lambda>r. (rn_status r, sp_writes (rn_spend r), sp_egress (rn_spend r))) (xr_run (fst (demo_exec False RunLive)))
     = Some (StatusSucceeded, 1, 1)" by code_simp
  then show ?thesis
    using run_blast_radius [OF demo_exec_split counting_counted, of False RunLive] by auto
qed

text \<open>
  C20. A dry run writes nothing. Let obs be anything about the world that fetching a page and asking
  the model leave as it is. If the flow is not live, Execute leaves obs as it was, whatever its steps
  are: no draft is created or edited and no mail is sent.
\<close>

theorem dry_run_writes_nothing:
  assumes "execute ins ev f cause identity subj (runs, w) = (res, runs', w')" and "fl_mode f \<noteq> RunLive"
    and "\<And>g u x. in_fetcher ins = Some g \<Longrightarrow> obs (snd (g u x)) = obs x"
    and "\<And>m p t x. in_model ins = Some m \<Longrightarrow> obs (snd (mr_generate m p t x)) = obs x"
  shows "obs w' = obs w"
proof (cases "xr_run res")
  case None
  then show ?thesis using execute_no_run [OF assms(1)] by simp
next
  case (Some r)
  let ?wc = "\<lambda>x. if obs x = obs w then 0 else 1 :: nat"
  have "writes_counted ins ?wc" unfolding writes_counted_def using assms(3,4) by simp
  moreover obtain r0 where "run_ok ins f (r0, w) (r, w')" using execute_ok [OF assms(1) Some] by blast
  ultimately have "?wc (snd (r, w')) \<le> ?wc (snd (r0, w))" using assms(2) by (intro run_ok_writes)
  then show ?thesis by (simp split: if_splits)
qed

theorem dry_run_writes_nothing_witness:
  "fst (snd (snd (demo_exec False RunDryRun))) = 0 \<and> snd (snd (snd (demo_exec False RunDryRun))) = 1
   \<and> fst (snd (snd (demo_exec False RunLive))) = 1"
proof -
  have "fst (snd (snd (demo_exec False RunDryRun))) = fst (0 :: nat, 0 :: nat)"
    by (rule dry_run_writes_nothing [OF demo_exec_split]) (auto simp: demo_flow_def counting_install_def)
  moreover have "snd (snd (demo_exec False RunDryRun)) = (0, 1)" by code_simp
  moreover have "snd (snd (demo_exec False RunLive)) = (1, 1)" by code_simp
  ultimately show ?thesis by simp
qed

text \<open>
  C22. In a Tor Space nothing goes out. Let obs be anything about the world that the local stores, the
  mail sender and a local model leave as it is. While the kill-switch is on, Execute leaves obs as it
  was: no page is fetched and no remote model is called, in a live run and in a dry run alike.
\<close>

theorem tor_space_no_egress:
  assumes "execute ins ev f cause identity subj (runs, w) = (res, runs', w')" and "\<forall>x. in_blocked ins x"
    and "\<And>c d x. in_content ins = Some c \<Longrightarrow> obs (snd (cw_create c d x)) = obs x \<and> obs (snd (cw_update c d x)) = obs x"
    and "\<And>m t s b x. in_mailer ins = Some m \<Longrightarrow> obs (snd (m t s b x)) = obs x"
    and "\<And>m p t x. in_model ins = Some m \<Longrightarrow> mr_local m \<Longrightarrow> obs (snd (mr_generate m p t x)) = obs x"
  shows "obs w' = obs w"
proof (cases "xr_run res")
  case None
  then show ?thesis using execute_no_run [OF assms(1)] by simp
next
  case (Some r)
  let ?ec = "\<lambda>x. if obs x = obs w then 0 else 1 :: nat"
  have "egress_counted ins ?ec" unfolding egress_counted_def using assms(3-5) by simp
  moreover obtain r0 where "run_ok ins f (r0, w) (r, w')" using execute_ok [OF assms(1) Some] by blast
  ultimately have "?ec (snd (r, w')) \<le> ?ec (snd (r0, w))" using assms(2) by (intro run_ok_egress)
  then show ?thesis by (simp split: if_splits)
qed

theorem tor_space_no_egress_witness:
  "snd (snd (snd (demo_exec True RunLive))) = 0 \<and> xr_run (fst (demo_exec True RunLive)) \<noteq> None"
proof -
  have "snd (snd (snd (demo_exec True RunLive))) = snd (0 :: nat, 0 :: nat)"
    by (rule tor_space_no_egress [OF demo_exec_split]) (auto simp: counting_install_def)
  moreover have "xr_run (fst (demo_exec True RunLive)) \<noteq> None" by code_simp
  ultimately show ?thesis by simp
qed

text \<open>
  C28. A refused run touches nothing. If the resolved role of the owner misses the floor of some step,
  or the role cannot be resolved, or the condition does not hold for the subject, then Execute leaves
  the world as it was; when it records a run at all, that run is refused, with nothing spent and no
  step taken.
\<close>

theorem refusal_touches_nothing:
  assumes "execute ins ev f cause identity subj (runs, w) = (res, runs', w')"
    and "(\<exists>s \<in> set (fl_steps f). \<exists>c. capability_for (stp_action s) = Some c \<and> \<not> owner_at_least (resolved_role ev f) (cap_min_role c))
      \<or> ev_role ev (fl_owner f) = None \<or> \<not> cond_sem subj (fl_condition f)"
  shows "w' = w \<and> (case xr_run res of None \<Rightarrow> True
    | Some r \<Rightarrow> rn_status r = StatusRefused \<and> rn_spend r = zero_spend \<and> rn_steps r = [])"
proof (cases "xr_run res")
  case None
  then show ?thesis using execute_no_run [OF assms(1)] by simp
next
  case (Some r)
  from execute_run [OF assms(1) Some] obtain r0 where c: "flow_complete f = None"
    and b: "run_begin (ev_begin_ok ev) (ev_id ev) (ev_begin ev) f cause identity (resolved_role ev f) runs = (Inr r0, runs @ [r0])"
    and body: "run_body ins (resolved_role ev f) f subj r0 w = (r, w')" by metis
  have "\<not> valid_owner_role []" by code_simp
  then have "ev_role ev (fl_owner f) = None \<longrightarrow> \<not> valid_owner_role (resolved_role ev f)" by (simp add: resolved_role_def)
  moreover have "cond_holds (fl_condition f) subj = cond_sem subj (fl_condition f)"
    unfolding cond_holds_def
    by (rule complete_holds_sem) (use flow_complete_facts(4) [OF c] in \<open>simp add: cond_complete_def\<close>)
  ultimately have "\<not> owner_at_least (resolved_role ev f) (min_owner_role f) \<or> \<not> cond_holds (fl_condition f) subj"
    using assms(2) unfolding owner_role_iff by auto
  then have "r = r0\<lparr>rn_status := StatusRefused, rn_error := rn_error r\<rparr> \<and> w' = w"
    using body by (auto simp: run_body_def split: if_splits)
  then have "w' = w \<and> rn_status r = StatusRefused \<and> rn_spend r = rn_spend r0 \<and> rn_steps r = rn_steps r0"
    by (metis run.select_convs(7,11,12) run.simps run.surjective run.update_convs(7,13))
  then show ?thesis using Some run_begin_success [OF b] by simp
qed

theorem refusal_touches_nothing_witness:
  "let x = execute (counting_install False) (demo_env\<lparr>ev_role := (\<lambda>w. Some ''client'')\<rparr>) (demo_flow RunLive) ''manual'' ''t1'' demo_subject ([], 0, 0)
   in snd (snd x) = (0, 0) \<and> map_option rn_status (xr_run (fst x)) = Some StatusRefused"
proof -
  let ?ev = "demo_env\<lparr>ev_role := (\<lambda>w. Some ''client'')\<rparr>"
  let ?x = "execute (counting_install False) ?ev (demo_flow RunLive) ''manual'' ''t1'' demo_subject ([], 0, 0)"
  have x: "?x = (fst ?x, fst (snd ?x), snd (snd ?x))" by simp
  have "capability_for ''egress.fetch'' \<noteq> None \<and> \<not> owner_at_least ''client'' (cap_min_role (the (capability_for ''egress.fetch'')))"
    by code_simp
  then have "\<exists>s \<in> set (fl_steps (demo_flow RunLive)). \<exists>c. capability_for (stp_action s) = Some c
      \<and> \<not> owner_at_least (resolved_role ?ev (demo_flow RunLive)) (cap_min_role c)"
    by (auto simp: demo_flow_def resolved_role_def demo_env_def)
  then have "snd (snd ?x) = (0, 0)" using refusal_touches_nothing [OF x] by blast
  moreover have "map_option rn_status (xr_run (fst ?x)) = Some StatusRefused" by code_simp
  ultimately show ?thesis by simp
qed

section \<open>The rate of runs\<close>

text \<open>A request to run: the environment it finds, the flow, the cause, the identity and the subject.\<close>

type_synonym request = "exec_env \<times> flow \<times> string \<times> string \<times> subject"

fun exec_all :: "'w install \<Rightarrow> request list \<Rightarrow> run list \<times> 'w \<Rightarrow> run list \<times> 'w" where
  "exec_all ins [] rw = rw"
| "exec_all ins ((ev, f, cause, identity, subj) # qs) rw = exec_all ins qs (snd (execute ins ev f cause identity subj rw))"

text \<open>Rows of a flow started, to the second, within the hour from \<open>a\<close>.\<close>

definition hour_rows :: "string \<Rightarrow> time \<Rightarrow> run list \<Rightarrow> nat" where
  "hour_rows i a runs = length (filter (\<lambda>x. rn_flow_id x = i \<and> fmt_sql a \<le> rn_started x \<and> rn_started x \<le> fmt_sql (a + hour)) runs)"

lemma hour_rows_starts:
  "map rn_flow_id xs = map rn_flow_id ys \<Longrightarrow> map rn_started xs = map rn_started ys \<Longrightarrow> hour_rows i a xs = hour_rows i a ys"
proof (induction xs arbitrary: ys)
  case (Cons x xs)
  then obtain y ys' where y: "ys = y # ys'" "rn_flow_id x = rn_flow_id y" "rn_started x = rn_started y"
    and t: "map rn_flow_id xs = map rn_flow_id ys'" "map rn_started xs = map rn_started ys'"
    by (cases ys) auto
  with Cons.IH [OF t] show ?case by (simp add: hour_rows_def)
qed (simp add: hour_rows_def)

lemma length_filter_imp: "(\<And>x. P x \<Longrightarrow> Q x) \<Longrightarrow> length (filter P xs) \<le> length (filter Q xs)"
  by (induction xs) (auto simp: le_Suc_eq)

lemma finish_starts:
  "map rn_flow_id (snd (run_finish db now r runs)) = map rn_flow_id runs"
  "map rn_started (snd (run_finish db now r runs)) = map rn_started runs"
  by (auto simp: run_finish_def)

lemma window_counted:
  assumes "0 \<le> n - hour" "n \<le> b" "b < end_of_9999" "0 \<le> a" "a + hour < end_of_9999"
    and "fmt_sql b \<le> fmt_sql (a + hour)"
  shows "hour_rows i a runs \<le> count_since i (n - hour) runs"
proof -
  have h: "0 < hour" by (simp add: hour_def)
  have "b div second \<le> (a + hour) div second"
    using assms h by (subst (asm) fmt_sql_le_iff) auto
  moreover have "(a + hour) div second = a div second + 3600" "(n - hour) div second = n div second - 3600"
    using div_mult_self1 [of second a 3600] div_mult_self1 [of second n "- 3600"] by (simp_all add: hour_def second_def)
  moreover have "n div second \<le> b div second" using assms(2) by (intro zdiv_mono1) (auto simp: second_def)
  ultimately have "(n - hour) div second \<le> a div second" by simp
  then have "fmt_sql (n - hour) \<le> fmt_sql a" using assms h by (subst fmt_sql_le_iff) auto
  then show ?thesis
    unfolding hour_rows_def count_since_def by (intro length_filter_imp) (metis order_trans)
qed

definition clock_ok :: "exec_env \<Rightarrow> bool" where
  "clock_ok ev \<longleftrightarrow> hour \<le> ev_now ev \<and> ev_now ev \<le> ev_begin ev \<and> ev_begin ev < end_of_9999"

lemma execute_hour_rows:
  assumes "execute ins ev f cause identity subj (runs, w) = (res, runs', w')" and "clock_ok ev"
    and "0 \<le> a" "a + hour < end_of_9999" and "fl_id f = i \<Longrightarrow> max_runs_hour (fl_budget f) \<le> int n"
    and "hour_rows i a runs \<le> n"
  shows "hour_rows i a runs' \<le> n"
proof (cases "xr_run res")
  case None
  then show ?thesis using execute_no_run [OF assms(1)] assms(6) by simp
next
  case (Some r)
  from execute_run [OF assms(1) Some] obtain r0 where
    cnt: "int (count_since (fl_id f) (ev_now ev - hour) runs) < max_runs_hour (fl_budget f)"
    and b: "run_begin (ev_begin_ok ev) (ev_id ev) (ev_begin ev) f cause identity (resolved_role ev f) runs = (Inr r0, runs @ [r0])"
    and fin: "run_finish (ev_finish_ok ev) (ev_finish ev) r (runs @ [r0]) = (xr_error res, runs')" by metis
  have "hour_rows i a runs' = hour_rows i a (runs @ [r0])"
    using finish_starts [of "ev_finish_ok ev" "ev_finish ev" r "runs @ [r0]"] fin by (intro hour_rows_starts) simp_all
  moreover have r0: "rn_flow_id r0 = fl_id f" "rn_started r0 = fmt_sql (ev_begin ev)" using run_begin_success [OF b] by auto
  moreover have "hour_rows i a runs < n" if "fl_id f = i" "fmt_sql (ev_begin ev) \<le> fmt_sql (a + hour)"
    using window_counted [of "ev_now ev" "ev_begin ev" a i runs] that assms(2-5) cnt by (auto simp: clock_ok_def)
  ultimately show ?thesis using assms(6) by (auto simp: hour_rows_def)
qed

lemma exec_all_hour_rows:
  assumes "\<forall>(ev, f, c, k, s) \<in> set qs. clock_ok ev \<and> (fl_id f = i \<longrightarrow> max_runs_hour (fl_budget f) \<le> int n)"
    and "0 \<le> a" "a + hour < end_of_9999" and "hour_rows i a (fst rw) \<le> n"
  shows "hour_rows i a (fst (exec_all ins qs rw)) \<le> n"
  using assms(1,4)
proof (induction qs arbitrary: rw)
  case (Cons q qs)
  obtain ev f c k s where q: "q = (ev, f, c, k, s)" by (cases q)
  obtain res runs' w' where x: "execute ins ev f c k s (fst rw, snd rw) = (res, runs', w')" by (metis prod.collapse)
  have "hour_rows i a runs' \<le> n"
    by (rule execute_hour_rows [OF x]) (use Cons.prems q assms(2,3) in auto)
  with Cons.IH [of "(runs', w')"] Cons.prems q x show ?case by simp
qed simp

text \<open>
  The rate of runs is bounded by the declared ceiling. Start from an empty trail and let any
  requests arrive one after another, for any flows, each reading the clock before it begins. If every
  request for one flow declares at most n runs per hour, then in every hour the trail holds at most n
  rows of that flow, counting refused and failed runs: a trigger storm cannot grow it further.
\<close>

theorem runs_per_hour_bounded:
  assumes "\<forall>(ev, f, c, k, s) \<in> set qs. clock_ok ev \<and> (fl_id f = i \<longrightarrow> max_runs_hour (fl_budget f) \<le> int n)"
    and "0 \<le> a" "a + hour < end_of_9999"
  shows "hour_rows i a (fst (exec_all ins qs ([], w))) \<le> n"
  by (rule exec_all_hour_rows [OF assms]) (simp add: hour_rows_def)

theorem runs_per_hour_bounded_witness:
  "hour_rows ''ab'' hour (fst (exec_all (counting_install False)
     [(demo_env, demo_flow RunLive, ''manual'', ''t1'', demo_subject),
      (demo_env\<lparr>ev_id := ''r2''\<rparr>, demo_flow RunLive, ''manual'', ''t2'', demo_subject)] ([], 0, 0))) \<le> 1"
  by (rule runs_per_hour_bounded) (auto simp: clock_ok_def demo_env_def demo_flow_def end_of_9999_def dur_defs)

text \<open>
  The bound is for requests served one after another. The ceiling is checked and the row inserted in
  two statements, so two requests that both check before either inserts both run: with a ceiling of
  one, two rows of the flow in one hour.
\<close>

lemma rate_ceiling_race:
  "let f = demo_flow RunLive; t = 2 * hour;
       first = run_begin True ''r1'' t f ''manual'' ''t1'' ''editor'' [];
       second = run_begin True ''r2'' t f ''event'' ''inbox-1'' ''editor'' (snd first)
   in int (count_since (fl_id f) (t - hour) []) < max_runs_hour (fl_budget f) \<and> max_runs_hour (fl_budget f) = 1
      \<and> hour_rows (fl_id f) t (snd second) = 2"
  by code_simp

section \<open>The trail of a run\<close>

lemma exec_step_record:
  assumes "exec_step ins f s prev r w = ((r', w'), next_in)"
  shows "\<exists>rc. rn_steps r' = rn_steps r @ [rc] \<and> sr_action rc = stp_action s
    \<and> (case next_in of None \<Rightarrow> rn_status r' = StatusFailed \<and> rn_error r' \<noteq> None \<and> sr_error rc = rn_error r'
       | Some x \<Rightarrow> sr_error rc = None \<and> sr_output rc = x \<and> rn_error r' = rn_error r)"
  using assms
  by (auto simp: exec_step_def run_action_def fail_run_with_def blank_record_def Let_def
      split: sum.splits option.splits prod.splits if_splits)

lemma exec_steps_records:
  "\<exists>recs. rn_steps (fst (exec_steps ins f ss prev r w)) = rn_steps r @ recs
     \<and> map sr_action recs = take (length recs) (map stp_action ss) \<and> length recs \<le> length ss
     \<and> (rn_status (fst (exec_steps ins f ss prev r w)) = StatusSucceeded \<longrightarrow>
          length recs = length ss \<and> (\<forall>rc \<in> set recs. sr_error rc = None))
     \<and> (rn_status (fst (exec_steps ins f ss prev r w)) \<noteq> StatusSucceeded \<longrightarrow>
          recs \<noteq> [] \<and> (\<forall>rc \<in> set (butlast recs). sr_error rc = None)
          \<and> sr_error (last recs) = rn_error (fst (exec_steps ins f ss prev r w)) \<and> sr_error (last recs) \<noteq> None)"
  (is "\<exists>recs. ?P ss prev r w recs")
proof (induction ss arbitrary: prev r w)
  case Nil
  show ?case by (rule exI [of _ "[]"]) simp
next
  case (Cons s ss)
  obtain r' w' o' where st: "exec_step ins f s prev r w = ((r', w'), o')" by (metis prod.collapse)
  from exec_step_record [OF st] obtain rc where rc: "rn_steps r' = rn_steps r @ [rc]" "sr_action rc = stp_action s"
    and cs: "case o' of None \<Rightarrow> rn_status r' = StatusFailed \<and> rn_error r' \<noteq> None \<and> sr_error rc = rn_error r'
       | Some x \<Rightarrow> sr_error rc = None \<and> sr_output rc = x \<and> rn_error r' = rn_error r" by blast
  show ?case
  proof (cases o')
    case None
    with st rc cs show ?thesis by (intro exI [of _ "[rc]"]) auto
  next
    case (Some x)
    from Cons.IH [of x r' w'] obtain recs where "?P ss x r' w' recs" by blast
    with Some st rc cs show ?thesis by (intro exI [of _ "rc # recs"]) (auto intro: sym)
  qed
qed

text \<open>
  The trail says what happened. A run that reports success has one record per step of the flow,
  in order and without an error; a run that fails has the records of the steps up to the failing one,
  which alone carries an error, the error of the run; no step after it was tried. A run that Execute
  returns is never left running.
\<close>

theorem trail_is_faithful:
  assumes "execute ins ev f cause identity subj (runs, w) = (res, runs', w')" and "xr_run res = Some r"
  shows "rn_status r \<in> {StatusSucceeded, StatusFailed, StatusRefused}
    \<and> map sr_action (rn_steps r) = take (length (rn_steps r)) (map stp_action (fl_steps f))
    \<and> (rn_status r = StatusSucceeded \<longrightarrow> length (rn_steps r) = length (fl_steps f) \<and> (\<forall>rc \<in> set (rn_steps r). sr_error rc = None))
    \<and> (rn_status r = StatusFailed \<longrightarrow> rn_steps r \<noteq> [] \<and> (\<forall>rc \<in> set (butlast (rn_steps r)). sr_error rc = None)
         \<and> sr_error (last (rn_steps r)) = rn_error r \<and> rn_error r \<noteq> None)"
proof -
  from execute_run [OF assms] obtain r0 where
    b: "run_begin (ev_begin_ok ev) (ev_id ev) (ev_begin ev) f cause identity (resolved_role ev f) runs = (Inr r0, runs @ [r0])"
    and body: "run_body ins (resolved_role ev f) f subj r0 w = (r, w')" by metis
  have r0: "rn_steps r0 = []" using run_begin_success [OF b] by simp
  show ?thesis
  proof (cases "rn_status r = StatusRefused")
    case True
    have "exec_steps ins f (fl_steps f) [] r0 w \<noteq> (r, w')"
      using exec_steps_status [of ins f "fl_steps f" "[]" r0 w] True by auto
    then have "rn_steps r = []" using body r0 by (auto simp: run_body_def split: if_splits)
    with True show ?thesis by simp
  next
    case False
    then have e: "exec_steps ins f (fl_steps f) [] r0 w = (r, w')" using body by (auto simp: run_body_def split: if_splits)
    from exec_steps_records [of ins f "fl_steps f" "[]" r0 w] exec_steps_status [of ins f "fl_steps f" "[]" r0 w]
    show ?thesis unfolding e r0 fst_conv by (auto intro: sym)
  qed
qed

theorem trail_is_faithful_witness:
  "map_option (\<lambda>r. (rn_status r, length (rn_steps r))) (xr_run (fst (demo_exec True RunLive))) = Some (StatusFailed, 1)
   \<and> (\<exists>r. xr_run (fst (demo_exec True RunLive)) = Some r \<and> sr_error (last (rn_steps r)) = rn_error r)"
proof -
  have v: "map_option (\<lambda>r. (rn_status r, length (rn_steps r))) (xr_run (fst (demo_exec True RunLive))) = Some (StatusFailed, 1)"
    by code_simp
  then obtain r where r: "xr_run (fst (demo_exec True RunLive)) = Some r" "rn_status r = StatusFailed" by auto
  from trail_is_faithful [OF demo_exec_split r(1)] r v show ?thesis by auto
qed

end
