(* ===== verification/Flow_Inbox.thy ===== *)
theory Flow_Inbox
  imports Flow_Runner
begin

text \<open>
  The durable inbox, the drainer and the ticker (src/internal/vayuflow/inbox.go and ticker.go). The
  inbox table is its rows in id order and the next AUTOINCREMENT id; the column drained_at is an
  option. The subject is written and read with encoding/json, so the column holds the value. What an
  Execute reads from outside is an argument indexed by the flow and the identity; whether the other
  statements succeed is an argument of each operation.
\<close>

record inbox_row =
  ib_id :: int
  ib_event :: string
  ib_event_id :: string
  ib_subject :: subject
  ib_created :: string
  ib_drained :: "string option"

record inbox =
  ib_rows :: "inbox_row list"
  ib_next :: int

datatype inbox_error = RefusesEvent string | InboxDb

definition new_inbox :: inbox where
  "new_inbox = \<lparr>ib_rows = [], ib_next = 1\<rparr>"

definition inbox_append :: "bool \<Rightarrow> time \<Rightarrow> string \<Rightarrow> string \<Rightarrow> subject \<Rightarrow> inbox \<Rightarrow> inbox_error option \<times> inbox" where
  "inbox_append db now event event_id subj ib =
     (if \<not> known_event event then (Some (RefusesEvent event), ib)
      else if \<not> db then (Some InboxDb, ib)
      else if event_id \<noteq> [] \<and> list_ex (\<lambda>r. ib_event_id r = event_id) (ib_rows ib) then (None, ib)
      else (None, \<lparr>ib_rows = ib_rows ib @ [\<lparr>ib_id = ib_next ib, ib_event = event, ib_event_id = event_id, ib_subject = subj,
                    ib_created = fmt_sql now, ib_drained = None\<rparr>], ib_next = ib_next ib + 1\<rparr>))"

definition inbox_limit :: "int \<Rightarrow> nat" where
  "inbox_limit limit = nat (if limit \<le> 0 \<or> limit > 500 then 100 else limit)"

definition inbox_pending :: "int \<Rightarrow> inbox \<Rightarrow> inbox_row list" where
  "inbox_pending limit ib = take (inbox_limit limit) (filter (\<lambda>r. ib_drained r = None) (ib_rows ib))"

definition mark_drained :: "time \<Rightarrow> int \<Rightarrow> inbox \<Rightarrow> inbox" where
  "mark_drained now i ib =
     ib\<lparr>ib_rows := map (\<lambda>r. if ib_id r = i then r\<lparr>ib_drained := Some (fmt_sql now)\<rparr> else r) (ib_rows ib)\<rparr>"

definition prune_drained :: "time \<Rightarrow> dur \<Rightarrow> inbox \<Rightarrow> nat \<times> inbox" where
  "prune_drained now older ib =
     (let gone = (\<lambda>r. case ib_drained r of None \<Rightarrow> False | Some d \<Rightarrow> d < fmt_sql (now - older))
      in (length (filter gone (ib_rows ib)), ib\<lparr>ib_rows := filter (\<lambda>r. \<not> gone r) (ib_rows ib)\<rparr>))"

definition pending_count :: "inbox \<Rightarrow> nat" where
  "pending_count ib = length (filter (\<lambda>r. ib_drained r = None) (ib_rows ib))"

record drain_result =
  dn_rows :: nat
  dn_fired :: nat
  dn_duplicate :: nat
  dn_no_flow :: nat
  dn_broken :: "(string, exec_error) gomap"

definition inbox_retention :: dur where "inbox_retention = 30 * 24 * hour"
definition inbox_prune_every :: dur where "inbox_prune_every = hour"

text \<open>pruneIfDue: the two flags say whether each DELETE succeeds; a failure leaves lastPrune alone.\<close>

definition prune_if_due :: "bool \<Rightarrow> bool \<Rightarrow> time \<Rightarrow> inbox \<times> run list \<times> time \<Rightarrow> inbox \<times> run list \<times> time" where
  "prune_if_due ok1 ok2 now st =
     (case st of (ib, runs, last_prune) \<Rightarrow>
        if last_prune \<noteq> zero_time \<and> time_sub now last_prune < inbox_prune_every then st
        else if \<not> ok1 then st
        else (let ib = snd (prune_drained now inbox_retention ib) in
              if \<not> ok2 then (ib, runs, last_prune)
              else (ib, snd (runs_prune now run_retention runs), now)))"

definition row_identity :: "int \<Rightarrow> string" where
  "row_identity i = ''inbox-'' @ itoa i"

text \<open>The flows offered one row: the inner loop of Drain.\<close>

fun offer_row ::
  "'w install \<Rightarrow> (string \<Rightarrow> string \<Rightarrow> exec_env) \<Rightarrow> inbox_row \<Rightarrow> flow list \<Rightarrow> bool \<times> drain_result \<times> run list \<times> 'w \<Rightarrow> bool \<times> drain_result \<times> run list \<times> 'w" where
  "offer_row ins env row [] st = st"
| "offer_row ins env row (f # fs) st =
     (if tg_kind (fl_trigger f) \<noteq> TriggerEvent \<or> tg_event (fl_trigger f) \<noteq> ib_event row then offer_row ins env row fs st
      else (case execute ins (env (fl_id f) (row_identity (ib_id row))) f (''event'' @ mid_dot @ ib_event row)
                   (row_identity (ib_id row)) (ib_subject row) (snd (snd st)) of
              (x, rw) \<Rightarrow>
                offer_row ins env row fs
                  (True,
                   (case xr_error x of
                      None \<Rightarrow> (fst (snd st))\<lparr>dn_fired := Suc (dn_fired (fst (snd st)))\<rparr>
                    | Some e \<Rightarrow>
                        if e = ErrDuplicateRun then (fst (snd st))\<lparr>dn_duplicate := Suc (dn_duplicate (fst (snd st)))\<rparr>
                        else (fst (snd st))\<lparr>dn_broken := map_put (fl_id f) e (dn_broken (fst (snd st)))\<rparr>),
                   rw)))"

text \<open>The loop over the pending rows; a row that cannot be marked ends the pass with an error.\<close>

fun drain_rows ::
  "'w install \<Rightarrow> (string \<Rightarrow> string \<Rightarrow> exec_env) \<Rightarrow> (int \<Rightarrow> bool) \<Rightarrow> time \<Rightarrow> flow list \<Rightarrow> inbox_row list \<Rightarrow> drain_result \<times> inbox \<times> run list \<times> 'w
     \<Rightarrow> inbox_error option \<times> drain_result \<times> inbox \<times> run list \<times> 'w" where
  "drain_rows ins env mark_ok now flows [] st = (None, st)"
| "drain_rows ins env mark_ok now flows (row # rows) st =
     (case st of (res, ib, rw) \<Rightarrow>
        (case offer_row ins env row flows (False, res\<lparr>dn_rows := Suc (dn_rows res)\<rparr>, rw) of
           (matched, res, rw) \<Rightarrow>
             (let res = (if matched then res else res\<lparr>dn_no_flow := Suc (dn_no_flow res)\<rparr>) in
              if \<not> mark_ok (ib_id row) then (Some InboxDb, res, ib, rw)
              else drain_rows ins env mark_ok now flows rows (res, mark_drained now (ib_id row) ib, rw))))"

definition reject_errors :: "(string, flow_error) gomap \<Rightarrow> (string, exec_error) gomap" where
  "reject_errors rej = map (\<lambda>(i, e). (i, ErrFlow e)) rej"

definition zero_drain :: drain_result where
  "zero_drain = \<lparr>dn_rows = 0, dn_fired = 0, dn_duplicate = 0, dn_no_flow = 0, dn_broken = []\<rparr>"

text \<open>Drainer.Drain after its pruning; the rows are read before the flows.\<close>

definition drain ::
  "'w install \<Rightarrow> (string \<Rightarrow> string \<Rightarrow> exec_env) \<Rightarrow> (int \<Rightarrow> bool) \<Rightarrow> time \<Rightarrow> int \<Rightarrow> flow_row list \<Rightarrow> inbox \<times> run list \<times> 'w
     \<Rightarrow> inbox_error option \<times> drain_result \<times> inbox \<times> run list \<times> 'w" where
  "drain ins env mark_ok now limit table st =
     (case st of (ib, rw) \<Rightarrow>
        (let rows = inbox_pending limit ib in
         if rows = [] then (None, zero_drain, ib, rw)
         else (case loadable_flows table of (flows, rejected) \<Rightarrow>
                 drain_rows ins env mark_ok now flows rows (zero_drain\<lparr>dn_broken := reject_errors rejected\<rparr>, ib, rw))))"

section \<open>The ticker\<close>

record tick_result =
  tk_fired :: nat
  tk_duplicate :: nat
  tk_rate_limited :: nat
  tk_broken :: "(string, exec_error) gomap"

definition empty_subject :: subject where
  "empty_subject = \<lparr>subj_tags = [], subj_author = [], subj_status = [], subj_title = [], subj_slug = []\<rparr>"

fun tick_flows ::
  "'w install \<Rightarrow> (string \<Rightarrow> string \<Rightarrow> exec_env) \<Rightarrow> civil \<Rightarrow> string \<Rightarrow> flow list \<Rightarrow> tick_result \<times> run list \<times> 'w \<Rightarrow> tick_result \<times> run list \<times> 'w" where
  "tick_flows ins env c identity [] st = st"
| "tick_flows ins env c identity (f # fs) st =
     (if tg_kind (fl_trigger f) \<noteq> TriggerSchedule then tick_flows ins env c identity fs st
      else case parse_cron (tg_cron (fl_trigger f)) of
        Inl e \<Rightarrow> tick_flows ins env c identity fs
          ((fst st)\<lparr>tk_broken := map_put (fl_id f) (ErrFlow (FlowTrigger (BadCron e))) (tk_broken (fst st))\<rparr>, snd st)
      | Inr s \<Rightarrow>
          if \<not> sched_matches s c then tick_flows ins env c identity fs st
          else (case execute ins (env (fl_id f) identity) f (''schedule '' @ tg_cron (fl_trigger f)) identity empty_subject (snd st) of
                  (x, rw) \<Rightarrow>
                    tick_flows ins env c identity fs
                      ((case xr_error x of
                          None \<Rightarrow> (fst st)\<lparr>tk_fired := Suc (tk_fired (fst st))\<rparr>
                        | Some e \<Rightarrow>
                            if e = ErrDuplicateRun then (fst st)\<lparr>tk_duplicate := Suc (tk_duplicate (fst st))\<rparr>
                            else if e = ErrRateCeiling then (fst st)\<lparr>tk_rate_limited := Suc (tk_rate_limited (fst st))\<rparr>
                            else (fst st)\<lparr>tk_broken := map_put (fl_id f) e (tk_broken (fst st))\<rparr>),
                       rw)))"

text \<open>Ticker.Tick; \<open>off\<close> is the offset of the install timezone at an instant.\<close>

definition tick ::
  "'w install \<Rightarrow> (string \<Rightarrow> string \<Rightarrow> exec_env) \<Rightarrow> (time \<Rightarrow> dur) \<Rightarrow> time \<Rightarrow> flow_row list \<Rightarrow> run list \<times> 'w \<Rightarrow> tick_result \<times> run list \<times> 'w" where
  "tick ins env off now table rw =
     (case loadable_flows table of (flows, rejected) \<Rightarrow>
        tick_flows ins env (civil_of (now + off now)) (fire_identity now) flows
          (\<lparr>tk_fired = 0, tk_duplicate = 0, tk_rate_limited = 0, tk_broken = reject_errors rejected\<rparr>, rw))"

text \<open>One pass of the drainer: housekeeping first, then the rows.\<close>

definition drain_pass ::
  "'w install \<Rightarrow> (string \<Rightarrow> string \<Rightarrow> exec_env) \<Rightarrow> (int \<Rightarrow> bool) \<Rightarrow> bool \<Rightarrow> bool \<Rightarrow> time \<Rightarrow> int \<Rightarrow> flow_row list
     \<Rightarrow> time \<times> inbox \<times> run list \<times> 'w \<Rightarrow> (inbox_error option \<times> drain_result) \<times> time \<times> inbox \<times> run list \<times> 'w" where
  "drain_pass ins env mark_ok ok1 ok2 now limit table st =
     (case st of (last_prune, ib, runs, w) \<Rightarrow>
        (case prune_if_due ok1 ok2 now (ib, runs, last_prune) of (ib, runs, last_prune) \<Rightarrow>
           (case drain ins env mark_ok now limit table (ib, runs, w) of (err, res, ib, rw) \<Rightarrow>
              ((err, res), last_prune, ib, rw))))"

section \<open>Progress of the drainer\<close>

definition inbox_ok :: "inbox \<Rightarrow> bool" where
  "inbox_ok ib \<longleftrightarrow> distinct (map ib_id (ib_rows ib)) \<and> (\<forall>r \<in> set (ib_rows ib). ib_id r < ib_next ib)
     \<and> distinct (filter (\<lambda>e. e \<noteq> []) (map ib_event_id (ib_rows ib)))"

abbreviation pending_rows :: "inbox \<Rightarrow> inbox_row list" where
  "pending_rows ib \<equiv> filter (\<lambda>r. ib_drained r = None) (ib_rows ib)"

lemma inbox_ok_new: "inbox_ok new_inbox"
  by (simp add: inbox_ok_def new_inbox_def)

lemma inbox_ok_append: "inbox_ok ib \<Longrightarrow> inbox_ok (snd (inbox_append db now event event_id subj ib))"
  by (auto simp: inbox_ok_def inbox_append_def list_ex_iff)

lemma mark_keys: "map ib_id (ib_rows (mark_drained now i ib)) = map ib_id (ib_rows ib)"
  "map ib_event_id (ib_rows (mark_drained now i ib)) = map ib_event_id (ib_rows ib)" "ib_next (mark_drained now i ib) = ib_next ib"
  by (simp_all add: mark_drained_def)

lemma inbox_ok_mark: "inbox_ok ib \<Longrightarrow> inbox_ok (mark_drained now i ib)"
proof -
  assume ok: "inbox_ok ib"
  have "set (map ib_id (ib_rows (mark_drained now i ib))) = set (map ib_id (ib_rows ib))" by (simp only: mark_keys)
  then have "\<forall>r \<in> set (ib_rows (mark_drained now i ib)). ib_id r < ib_next ib"
    using ok unfolding inbox_ok_def set_map by (metis (no_types, lifting) imageE imageI)
  then show ?thesis using ok unfolding inbox_ok_def mark_keys by blast
qed

lemma distinct_filter_map: "distinct (filter Q (map f xs)) \<Longrightarrow> distinct (filter Q (map f (filter P xs)))"
  by (induction xs) auto

lemma inbox_ok_prune: "inbox_ok ib \<Longrightarrow> inbox_ok (snd (prune_drained now older ib))"
  by (auto simp: inbox_ok_def prune_drained_def Let_def distinct_map_filter distinct_filter_map)

lemma pending_mark:
  "pending_rows (mark_drained now i ib) = filter (\<lambda>r. ib_id r \<noteq> i) (pending_rows ib)"
proof -
  have "filter (\<lambda>r. ib_drained r = None) (map (\<lambda>r. if ib_id r = i then r\<lparr>ib_drained := Some (fmt_sql now)\<rparr> else r) rs)
      = filter (\<lambda>r. ib_id r \<noteq> i) (filter (\<lambda>r. ib_drained r = None) rs)" for rs
    by (induction rs) auto
  then show ?thesis by (simp add: mark_drained_def)
qed

lemma pending_marks:
  "pending_rows (fold (mark_drained now) is ib) = filter (\<lambda>r. ib_id r \<notin> set is) (pending_rows ib)"
proof (induction "is" arbitrary: ib)
  case (Cons i "is")
  have "pending_rows (fold (mark_drained now) (i # is) ib) = filter (\<lambda>r. ib_id r \<notin> set is) (pending_rows (mark_drained now i ib))"
    using Cons.IH [of "mark_drained now i ib"] by (simp only: fold_Cons comp_def)
  also have "\<dots> = filter (\<lambda>r. ib_id r \<notin> set (i # is)) (pending_rows ib)"
    unfolding pending_mark filter_filter by (rule filter_cong) auto
  finally show ?case .
qed simp

lemma offer_row_rows: "dn_rows (fst (snd (offer_row ins env row fs st))) = dn_rows (fst (snd st))"
  by (induction fs arbitrary: st) (auto split: prod.split option.split)

lemma drain_rows_marks:
  assumes "\<forall>r \<in> set rows. mark_ok (ib_id r)"
  shows "\<exists>res' rw'. drain_rows ins env mark_ok now flows rows (res, ib, rw)
      = (None, res', fold (mark_drained now) (map ib_id rows) ib, rw') \<and> dn_rows res' = dn_rows res + length rows"
  using assms
proof (induction rows arbitrary: res ib rw)
  case Nil
  then show ?case by simp
next
  case (Cons row rows)
  obtain matched res1 rw1 where o: "offer_row ins env row flows (False, res\<lparr>dn_rows := Suc (dn_rows res)\<rparr>, rw) = (matched, res1, rw1)"
    by (metis prod.collapse)
  have n: "dn_rows res1 = Suc (dn_rows res)"
    using offer_row_rows [of ins env row flows "(False, res\<lparr>dn_rows := Suc (dn_rows res)\<rparr>, rw)"] o by simp
  let ?res2 = "if matched then res1 else res1\<lparr>dn_no_flow := Suc (dn_no_flow res1)\<rparr>"
  have n2: "dn_rows ?res2 = Suc (dn_rows res)" using n by simp
  have "drain_rows ins env mark_ok now flows (row # rows) (res, ib, rw)
      = drain_rows ins env mark_ok now flows rows (?res2, mark_drained now (ib_id row) ib, rw1)"
    using Cons.prems o by (simp add: Let_def)
  with Cons.IH [of ?res2 "mark_drained now (ib_id row) ib" rw1] Cons.prems n2 show ?case by auto
qed

lemma drop_by_ids:
  assumes "distinct (map ib_id rs)"
  shows "filter (\<lambda>r. ib_id r \<notin> set (map ib_id (take n rs))) rs = drop n rs"
proof -
  have d: "distinct (map ib_id (take n rs @ drop n rs))" using assms by simp
  have "filter (\<lambda>r. ib_id r \<notin> set (map ib_id (take n rs))) (take n rs @ drop n rs) = drop n rs"
    unfolding filter_append using d by (auto simp: filter_empty_conv filter_id_conv simp del: append_take_drop_id)
  then show ?thesis by simp
qed

lemma drain_progress:
  assumes "inbox_ok ib" and "\<forall>i. mark_ok i"
  shows "\<exists>res ib' rw'. drain ins env mark_ok now limit table (ib, rw) = (None, res, ib', rw')
    \<and> pending_rows ib' = drop (inbox_limit limit) (pending_rows ib) \<and> dn_rows res = length (inbox_pending limit ib) \<and> inbox_ok ib'"
proof (cases "inbox_pending limit ib = []")
  case True
  then have "inbox_limit limit = 0 \<or> pending_rows ib = []" unfolding inbox_pending_def take_eq_Nil .
  moreover have "0 < inbox_limit limit" by (simp add: inbox_limit_def)
  ultimately have "pending_rows ib = []" by simp
  with True assms(1) show ?thesis by (simp add: drain_def zero_drain_def)
next
  case False
  obtain flows rej where l: "loadable_flows table = (flows, rej)" by (cases "loadable_flows table")
  from drain_rows_marks [of "inbox_pending limit ib" mark_ok ins env now flows "zero_drain\<lparr>dn_broken := reject_errors rej\<rparr>" ib rw] assms(2)
  obtain res' rw' where d: "drain_rows ins env mark_ok now flows (inbox_pending limit ib) (zero_drain\<lparr>dn_broken := reject_errors rej\<rparr>, ib, rw)
      = (None, res', fold (mark_drained now) (map ib_id (inbox_pending limit ib)) ib, rw')"
    and n: "dn_rows res' = length (inbox_pending limit ib)" by (auto simp: zero_drain_def)
  have "distinct (map ib_id (pending_rows ib))" using assms(1) by (simp add: inbox_ok_def distinct_map_filter)
  then have "pending_rows (fold (mark_drained now) (map ib_id (inbox_pending limit ib)) ib) = drop (inbox_limit limit) (pending_rows ib)"
    unfolding pending_marks inbox_pending_def by (rule drop_by_ids)
  moreover have "inbox_ok (fold (mark_drained now) is ib)" for "is"
    using assms(1) by (induction "is" arbitrary: ib) (auto intro: inbox_ok_mark)
  ultimately show ?thesis using False l d n by (simp add: drain_def Let_def)
qed

lemma pending_prune: "pending_rows (snd (prune_drained now older ib)) = pending_rows ib"
  by (auto simp: prune_drained_def Let_def intro!: filter_cong)

lemma prune_if_due_pending:
  "prune_if_due ok1 ok2 now (ib, runs, lp) = (ib', runs', lp') \<Longrightarrow> pending_rows ib' = pending_rows ib \<and> (inbox_ok ib \<longrightarrow> inbox_ok ib')"
  by (auto simp: prune_if_due_def Let_def pending_prune inbox_ok_prune split: if_splits)


text \<open>A pass of the drainer, housekeeping included, takes the next rows off the inbox.\<close>

lemma drain_pass_progress:
  assumes "inbox_ok ib" and "\<forall>i. mark_ok i"
  shows "\<exists>res lp' ib' runs' w'. drain_pass ins env mark_ok ok1 ok2 now limit table (lp, ib, runs, w) = ((None, res), lp', ib', runs', w')
    \<and> pending_rows ib' = drop (inbox_limit limit) (pending_rows ib) \<and> inbox_ok ib'"
proof -
  obtain ib1 runs1 lp1 where p: "prune_if_due ok1 ok2 now (ib, runs, lp) = (ib1, runs1, lp1)"
    by (metis prod.collapse)
  from prune_if_due_pending [OF p] assms(1) have q: "pending_rows ib1 = pending_rows ib" and ok: "inbox_ok ib1" by auto
  from drain_progress [OF ok assms(2), of ins env now limit table "(runs1, w)"]
  obtain res ib' rw' where d: "drain ins env mark_ok now limit table (ib1, runs1, w) = (None, res, ib', rw')"
    and r: "pending_rows ib' = drop (inbox_limit limit) (pending_rows ib)" "inbox_ok ib'" unfolding q by blast
  obtain runs' w' where "rw' = (runs', w')" by (cases rw')
  with p d r show ?thesis by (auto simp: drain_pass_def)
qed

text \<open>
  What the passes of a process find: each its own flow table, instant, environment and outcome of the
  housekeeping, with \<open>Drain(ctx, 100)\<close> as Run calls it.
\<close>

type_synonym pass_env = "(string \<Rightarrow> string \<Rightarrow> exec_env) \<times> bool \<times> bool \<times> time \<times> flow_row list"

fun drain_passes :: "'w install \<Rightarrow> pass_env list \<Rightarrow> time \<times> inbox \<times> run list \<times> 'w \<Rightarrow> time \<times> inbox \<times> run list \<times> 'w" where
  "drain_passes ins [] st = st"
| "drain_passes ins ((env, ok1, ok2, now, table) # ps) st =
     drain_passes ins ps (snd (drain_pass ins env (\<lambda>_. True) ok1 ok2 now 100 table st))"


definition demo_inbox :: inbox where
  "demo_inbox = snd (inbox_append True 0 EventArticleUpdated ''ev2'' demo_subject
     (snd (inbox_append True 0 EventArticleUpdated ''ev1'' demo_subject new_inbox)))"


text \<open>
  Redelivery of an event is absorbed: appending an event whose non-empty id is already in the table,
  drained or not, succeeds and changes nothing.
\<close>

lemma append_again:
  assumes "inbox_append True now event event_id subj ib = (None, ib')" and "event_id \<noteq> []"
  shows "inbox_append db now' event event_id subj' ib' = (if db then None else Some InboxDb, ib')"
  using assms by (auto simp: inbox_append_def list_ex_iff split: if_splits)

section \<open>Ticks in the same minute\<close>

lemma execute_key:
  assumes "execute ins ev f cause identity subj (runs, w) = (res, runs', w')"
  shows "rn_idem ` set runs \<subseteq> rn_idem ` set runs'"
    and "xr_error res = None \<Longrightarrow> idempotency_key (fl_id f) (fl_version f) identity \<in> rn_idem ` set runs'"
proof -
  have "rn_idem ` set runs \<subseteq> rn_idem ` set runs' \<and>
    (xr_error res = None \<longrightarrow> idempotency_key (fl_id f) (fl_version f) identity \<in> rn_idem ` set runs')"
  proof (cases "xr_run res")
    case None
    then have "xr_error res \<noteq> None" using assms unfolding execute_def Let_def fst_conv snd_conv run_begin_def
      by (auto simp: Let_def split: option.splits if_splits prod.splits)
    with None show ?thesis using execute_no_run [OF assms] by auto
  next
    case (Some r)
    from execute_run [OF assms Some] obtain r0 where
      b: "run_begin (ev_begin_ok ev) (ev_id ev) (ev_begin ev) f cause identity (resolved_role ev f) runs = (Inr r0, runs @ [r0])"
      and fin: "run_finish (ev_finish_ok ev) (ev_finish ev) r (runs @ [r0]) = (xr_error res, runs')" by metis
    have "map rn_idem runs' = map rn_idem (runs @ [r0])"
      using finish_keys(1) [of "ev_finish_ok ev" "ev_finish ev" r "runs @ [r0]"] fin by simp
    then have "rn_idem ` set runs' = rn_idem ` set (runs @ [r0])" by (metis image_set)
    then show ?thesis using run_begin_success [OF b] by auto
  qed
  then show "rn_idem ` set runs \<subseteq> rn_idem ` set runs'"
    and "xr_error res = None \<Longrightarrow> idempotency_key (fl_id f) (fl_version f) identity \<in> rn_idem ` set runs'" by auto
qed

lemma execute_known_key:
  assumes "idempotency_key (fl_id f) (fl_version f) identity \<in> rn_idem ` set (fst rw)"
  shows "\<exists>e. execute ins ev f cause identity subj rw = (\<lparr>xr_run = None, xr_error = Some e\<rparr>, rw)"
proof -
  have "list_ex (\<lambda>x. rn_idem x = idempotency_key (fl_id f) (fl_version f) identity \<or> rn_id x = ev_id ev) (fst rw)"
    using assms by (auto simp: list_ex_iff)
  then show ?thesis
    by (cases rw) (auto simp: execute_def run_begin_def Let_def split: option.split)
qed

definition due :: "civil \<Rightarrow> flow \<Rightarrow> bool" where
  "due c f \<longleftrightarrow> tg_kind (fl_trigger f) = TriggerSchedule \<and>
     (case parse_cron (tg_cron (fl_trigger f)) of Inl e \<Rightarrow> False | Inr s \<Rightarrow> sched_matches s c)"

definition clean_tick :: "tick_result \<Rightarrow> bool" where
  "clean_tick res \<longleftrightarrow> tk_duplicate res = 0 \<and> tk_rate_limited res = 0 \<and> tk_broken res = []"

lemma map_put_not_nil [simp]: "map_put k v m \<noteq> []"
  by (cases m) (auto split: if_splits)

lemma tick_flows_not_due:
  assumes "\<not> due c f"
  obtains res1 where "tick_flows ins env c identity (f # flows) (res, rw) = tick_flows ins env c identity flows (res1, rw)"
    "tk_fired res1 = tk_fired res" "clean_tick res1 \<longrightarrow> clean_tick res"
proof (cases "parse_cron (tg_cron (fl_trigger f))")
  case (Inl e)
  show ?thesis
  proof (cases "tg_kind (fl_trigger f) = TriggerSchedule")
    case True
    with Inl show ?thesis
      by (intro that [of "res\<lparr>tk_broken := map_put (fl_id f) (ErrFlow (FlowTrigger (BadCron e))) (tk_broken res)\<rparr>"])
        (simp_all add: clean_tick_def)
  qed (intro that [of res], simp_all)
next
  case (Inr s)
  with assms show ?thesis by (intro that [of res]) (auto simp: due_def)
qed

lemma tick_flows_again:
  assumes "\<forall>f \<in> set flows. due c f \<longrightarrow> idempotency_key (fl_id f) (fl_version f) identity \<in> rn_idem ` set (fst rw)"
  shows "\<exists>res'. tick_flows ins env c identity flows (res, rw) = (res', rw) \<and> tk_fired res' = tk_fired res"
  using assms
proof (induction flows arbitrary: res)
  case (Cons f flows)
  show ?case
  proof (cases "due c f")
    case True
    then obtain s where s: "parse_cron (tg_cron (fl_trigger f)) = Inr s" "sched_matches s c" "tg_kind (fl_trigger f) = TriggerSchedule"
      by (auto simp: due_def split: sum.splits)
    from execute_known_key [of f identity rw ins "env (fl_id f) identity" "''schedule '' @ tg_cron (fl_trigger f)" empty_subject] True Cons.prems
    obtain e where "execute ins (env (fl_id f) identity) f (''schedule '' @ tg_cron (fl_trigger f)) identity empty_subject rw
      = (\<lparr>xr_run = None, xr_error = Some e\<rparr>, rw)" by auto
    then obtain res1 where "tick_flows ins env c identity (f # flows) (res, rw) = tick_flows ins env c identity flows (res1, rw)"
      and "tk_fired res1 = tk_fired res"
      using s by (auto split: if_splits)
    with Cons.IH [of res1] Cons.prems show ?thesis by simp
  next
    case False
    then obtain res1 where "tick_flows ins env c identity (f # flows) (res, rw) = tick_flows ins env c identity flows (res1, rw)"
      and "tk_fired res1 = tk_fired res" by (rule tick_flows_not_due)
    with Cons.IH [of res1] Cons.prems show ?thesis by simp
  qed
qed simp

lemma tick_flows_clean:
  assumes "tick_flows ins env c identity flows (res, rw) = (res', rw')" and "clean_tick res'"
  shows "clean_tick res \<and> rn_idem ` set (fst rw) \<subseteq> rn_idem ` set (fst rw')
    \<and> (\<forall>f \<in> set flows. due c f \<longrightarrow> idempotency_key (fl_id f) (fl_version f) identity \<in> rn_idem ` set (fst rw'))"
  using assms(1)
proof (induction flows arbitrary: res rw)
  case Nil
  then show ?case using assms(2) by simp
next
  case (Cons f flows)
  show ?case
  proof (cases "due c f")
    case False
    then obtain res1 where "tick_flows ins env c identity (f # flows) (res, rw) = tick_flows ins env c identity flows (res1, rw)"
      and "clean_tick res1 \<longrightarrow> clean_tick res" by (rule tick_flows_not_due)
    with Cons.IH [of res1 rw] Cons.prems False show ?thesis by auto
  next
    case True
    then obtain s where s: "parse_cron (tg_cron (fl_trigger f)) = Inr s" "sched_matches s c" "tg_kind (fl_trigger f) = TriggerSchedule"
      by (auto simp: due_def split: sum.splits)
    obtain x runs1 w1 where x: "execute ins (env (fl_id f) identity) f (''schedule '' @ tg_cron (fl_trigger f)) identity empty_subject (fst rw, snd rw)
      = (x, runs1, w1)" by (metis prod.collapse)
    note mono = execute_key [OF x]
    obtain res1 where t: "tick_flows ins env c identity flows (res1, runs1, w1) = (res', rw')"
      and r1: "clean_tick res1 \<longrightarrow> clean_tick res \<and> xr_error x = None"
      using Cons.prems s x by (auto simp: clean_tick_def split: option.splits if_splits)
    from Cons.IH [OF t] r1 mono show ?thesis by (auto simp: clean_tick_def)
  qed
qed

lemma same_minute_due:
  assumes "t div minute = u div minute"
  shows "due (civil_of t) f = due (civil_of u) f"
proof -
  have m: "c_month (civil_of t) = c_month (civil_of u)" "c_day (civil_of t) = c_day (civil_of u)"
    "c_hour (civil_of t) = c_hour (civil_of u)" "c_min (civil_of t) = c_min (civil_of u)"
    using minute_parts_eq_iff [of t u] assms by auto
  have "t div second div 86400 = u div second div 86400"
    using date_eq_iff [of t u] minute_parts_eq_iff [of t u] assms by blast
  then have "c_wday (civil_of t) = c_wday (civil_of u)" by (simp add: civil_of_def Let_def split: prod.split)
  then show ?thesis by (simp add: due_def sched_matches_def m split: sum.split)
qed

text \<open>
  Ticking more than once a minute is harmless. After a tick that fired every flow it found due
  (nothing duplicate, rate-limited or broken), another tick in the same minute, at any later or earlier
  instant of it and with whatever owners, clocks and ids it finds, fires nothing and leaves the run
  trail and the world as they are. The install's zone is taken to keep one offset of whole minutes
  within that minute.
\<close>

theorem tick_again_is_harmless:
  assumes "tick ins env off now table rw = (res, rw')"
    and "tk_duplicate res = 0" "tk_rate_limited res = 0" "tk_broken res = []"
    and "now' div minute = now div minute" "off now' = off now" "off now mod minute = 0"
    and "0 \<le> now" "now < end_of_9999" "0 \<le> now'" "now' < end_of_9999"
  shows "\<exists>res'. tick ins env' off now' table rw' = (res', rw') \<and> tk_fired res' = 0"
proof -
  obtain flows rej where l: "loadable_flows table = (flows, rej)" by (cases "loadable_flows table")
  let ?r = "\<lparr>tk_fired = 0, tk_duplicate = 0, tk_rate_limited = 0, tk_broken = reject_errors rej\<rparr>"
  have t: "tick_flows ins env (civil_of (now + off now)) (fire_identity now) flows (?r, rw) = (res, rw')"
    using assms(1) l by (simp add: tick_def)
  have id: "fire_identity now' = fire_identity now"
    unfolding fire_identity_def using fmt_minute_eq_iff [OF assms(10,11,8,9)] assms(5) by simp
  obtain k where k: "off now = minute * k" using assms(7) by (metis mod_0_imp_dvd dvd_def)
  have "(now' + off now) div minute = (now + off now) div minute"
    using assms(5) unfolding k by (simp add: minute_def second_def)
  then have same: "due (civil_of (now' + off now')) f = due (civil_of (now + off now)) f" for f
    unfolding assms(6) by (rule same_minute_due)
  from tick_flows_clean [OF t] assms(2-4) have
    "\<forall>f \<in> set flows. due (civil_of (now' + off now')) f \<longrightarrow> idempotency_key (fl_id f) (fl_version f) (fire_identity now') \<in> rn_idem ` set (fst rw')"
    unfolding same id by (simp add: clean_tick_def)
  from tick_flows_again [OF this, of ins env' ?r] l show ?thesis by (auto simp: tick_def)
qed

definition hourly_flow :: flow where
  "hourly_flow = (demo_flow RunLive)\<lparr>fl_trigger := \<lparr>tg_kind = TriggerSchedule, tg_cron = ''0 * * * *'', tg_event = []\<rparr>\<rparr>"

definition hourly_tick :: "time \<Rightarrow> tick_result \<times> run list \<times> nat \<times> nat" where
  "hourly_tick now = tick (counting_install False) (\<lambda>i k. demo_env) (\<lambda>t. 0) now [to_row hourly_flow (fmt_sql 5) (fmt_sql 5)] ([], 0, 0)"

definition tick_counts :: "tick_result \<Rightarrow> nat \<times> nat \<times> nat \<times> (string, exec_error) gomap" where
  "tick_counts r = (tk_fired r, tk_duplicate r, tk_rate_limited r, tk_broken r)"

theorem tick_again_is_harmless_witness:
  "tk_fired (fst (hourly_tick (2 * hour))) = 1
   \<and> (\<exists>res'. tick (counting_install False) (\<lambda>i k. demo_env) (\<lambda>t. 0) (2 * hour + 30 * second) [to_row hourly_flow (fmt_sql 5) (fmt_sql 5)]
         (snd (hourly_tick (2 * hour))) = (res', snd (hourly_tick (2 * hour))) \<and> tk_fired res' = 0)"
proof -
  have r: "tick_counts (fst (hourly_tick (2 * hour))) = (1, 0, 0, [])" by code_simp
  have t: "tick (counting_install False) (\<lambda>i k. demo_env) (\<lambda>t. 0) (2 * hour) [to_row hourly_flow (fmt_sql 5) (fmt_sql 5)] ([], 0, 0)
      = (fst (hourly_tick (2 * hour)), snd (hourly_tick (2 * hour)))" by (simp add: hourly_tick_def)
  show ?thesis
    using r tick_again_is_harmless [OF t, of "2 * hour + 30 * second" "\<lambda>i k. demo_env"]
    by (simp add: tick_counts_def dur_defs end_of_9999_def)
qed

end
