(* ===== verification/Tag_Rules.thy ===== *)
theory Tag_Rules
  imports Vayu_Prelude "HOL-Library.Sublist"
begin

text \<open>
  What a tag is (src/internal/tagrules/tagrules.go): the key that identifies a tag, the tag as shown,
  and the tags a post keeps. A string is its list of runes. The character classes and the lower-case
  mapping come from the Unicode tables of the Go library, which are an argument; \<open>tables_ok\<close> says
  what is used of them.
\<close>

type_synonym rune = int
type_synonym runestr = "rune list"

record tables =
  is_letter :: "rune \<Rightarrow> bool"
  is_digit_rune :: "rune \<Rightarrow> bool"
  is_space_rune :: "rune \<Rightarrow> bool"
  lower_rune :: "rune \<Rightarrow> rune"

definition runes :: "string \<Rightarrow> runestr" where
  "runes s = map (\<lambda>c. int (of_char c)) s"

definition max_tag_len :: nat where "max_tag_len = 40"
definition max_per_post :: nat where "max_per_post = 10"

definition hyphen :: rune where "hyphen = 45"

text \<open>What the key uses of package strings.\<close>

definition trim_func :: "(rune \<Rightarrow> bool) \<Rightarrow> runestr \<Rightarrow> runestr" where
  "trim_func p s = rev (dropWhile p (rev (dropWhile p s)))"

function words_by :: "(rune \<Rightarrow> bool) \<Rightarrow> runestr \<Rightarrow> runestr list" where
  "words_by p [] = []"
| "words_by p (r # rs) = (if p r then (r # takeWhile p rs) # words_by p (dropWhile p rs) else words_by p rs)"
  by pat_completeness auto
termination
  by (relation "measure (\<lambda>(p, s). length s)") (auto simp: le_imp_less_Suc length_dropWhile_le)

definition fields_of :: "tables \<Rightarrow> runestr \<Rightarrow> runestr list" where
  "fields_of u s = words_by (\<lambda>r. \<not> is_space_rune u r) s"

fun join_with :: "rune \<Rightarrow> runestr list \<Rightarrow> runestr" where
  "join_with c [] = []"
| "join_with c [w] = w"
| "join_with c (w # v # ws) = w @ c # join_with c (v # ws)"

definition kept_rune :: "tables \<Rightarrow> rune \<Rightarrow> bool" where
  "kept_rune u r \<longleftrightarrow> is_letter u r \<or> is_digit_rune u r \<or> r = 43 \<or> r = 35 \<or> r = 46"

definition stop_word_list :: "string list" where
  "stop_word_list =
    [''i'', ''me'', ''my'', ''myself'', ''we'', ''our'', ''ours'', ''ourselves'', ''you'', ''your'', ''yours'', ''yourself'', ''yourselves'',
     ''he'', ''him'', ''his'', ''himself'', ''she'', ''her'', ''hers'', ''herself'', ''it'', ''its'', ''itself'', ''they'', ''them'', ''their'', ''theirs'', ''themselves'', ''what'', ''which'', ''who'',
     ''whom'', ''this'', ''that'', ''these'', ''those'', ''am'', ''is'', ''are'', ''was'', ''were'', ''be'', ''been'', ''being'', ''have'', ''has'', ''had'', ''having'', ''do'', ''does'', ''did'', ''doing'', ''a'', ''an'',
     ''the'', ''and'', ''but'', ''if'', ''or'', ''because'', ''as'', ''until'', ''while'', ''of'', ''at'', ''by'', ''for'', ''with'', ''about'', ''against'', ''between'', ''into'', ''through'', ''during'',
     ''before'', ''after'', ''above'', ''below'', ''to'', ''from'', ''up'', ''down'', ''in'', ''out'', ''on'', ''off'', ''over'', ''under'', ''again'', ''further'', ''then'', ''once'', ''here'', ''there'',
     ''when'', ''where'', ''why'', ''how'', ''all'', ''any'', ''both'', ''each'', ''few'', ''more'', ''most'', ''other'', ''some'', ''such'', ''no'', ''nor'', ''not'', ''only'', ''own'', ''same'', ''so'', ''than'', ''too'',
     ''very'', ''s'', ''t'', ''can'', ''will'', ''just'', ''don'', ''should'', ''now'', ''d'', ''ll'', ''m'', ''o'', ''re'', ''ve'', ''y'', ''ain'', ''aren'', ''couldn'', ''didn'', ''doesn'', ''hadn'', ''hasn'', ''haven'', ''isn'', ''ma'',
     ''mightn'', ''mustn'', ''needn'', ''shan'', ''shouldn'', ''wasn'', ''weren'', ''won'', ''wouldn'']"

definition stop_words :: "runestr list" where
  "stop_words = map runes (filter (\<lambda>w. \<not> List.member [''it'', ''can'', ''d''] w) stop_word_list)"

text \<open>The loop of Key: \<open>sep\<close> and the builder \<open>b\<close>.\<close>

fun key_loop :: "tables \<Rightarrow> runestr \<Rightarrow> bool \<Rightarrow> runestr \<Rightarrow> runestr" where
  "key_loop u [] sep b = b"
| "key_loop u (r # rs) sep b =
     (if kept_rune u r then key_loop u rs False (b @ (if sep \<and> b \<noteq> [] then [hyphen] else []) @ [r])
      else key_loop u rs True b)"

definition no_tag :: "tables \<Rightarrow> runestr \<Rightarrow> bool" where
  "no_tag u k \<longleftrightarrow> k = [] \<or> length k > max_tag_len \<or> List.member stop_words k
     \<or> \<not> list_ex (\<lambda>r. is_letter u r \<or> is_digit_rune u r) k"

text \<open>The same test with the words compared rune by rune, for evaluation.\<close>

fun runes_eq :: "string \<Rightarrow> runestr \<Rightarrow> bool" where
  "runes_eq [] [] = True"
| "runes_eq (c # cs) (r # rs) = (int (of_char c) = r \<and> runes_eq cs rs)"
| "runes_eq _ _ = False"

lemma runes_eq_iff: "runes_eq w k \<longleftrightarrow> runes w = k"
  by (induction w k rule: runes_eq.induct) (auto simp: runes_def)

lemma no_tag_code [code]:
  "no_tag u k \<longleftrightarrow> k = [] \<or> length k > max_tag_len
     \<or> list_ex (\<lambda>w. runes_eq w k \<and> \<not> List.member [''it'', ''can'', ''d''] w) stop_word_list
     \<or> \<not> list_ex (\<lambda>r. is_letter u r \<or> is_digit_rune u r) k"
proof -
  have "List.member stop_words k \<longleftrightarrow> list_ex (\<lambda>w. runes_eq w k \<and> \<not> List.member [''it'', ''can'', ''d''] w) stop_word_list"
    unfolding stop_words_def list_ex_iff runes_eq_iff by auto
  then show ?thesis by (simp only: no_tag_def)
qed

definition tag_key :: "tables \<Rightarrow> runestr \<Rightarrow> runestr" where
  "tag_key u tag =
     (let k = key_loop u (map (lower_rune u) (trim_func (is_space_rune u) tag)) False [] in
      if no_tag u k then [] else k)"

definition tag_display :: "tables \<Rightarrow> runestr \<Rightarrow> runestr" where
  "tag_display u tag = join_with 32 (fields_of u (trim_func (\<lambda>r. \<not> kept_rune u r) tag))"

record cand =
  cd_show :: runestr
  cd_key :: runestr
  cd_at :: nat

text \<open>The first loop of Clean; \<open>seen\<close> is the keys of the candidates so far.\<close>

fun candidates :: "tables \<Rightarrow> runestr list \<Rightarrow> cand list \<Rightarrow> cand list" where
  "candidates u [] acc = acc"
| "candidates u (t # ts) acc =
     (let show = tag_display u t; k = tag_key u show in
      if k = [] \<or> List.member (map cd_key acc) k then candidates u ts acc
      else candidates u ts (acc @ [\<lparr>cd_show = show, cd_key = k, cd_at = length acc\<rparr>]))"

text \<open>Clean: SliceStable by frequency is a stable sort; the final sort is by distinct positions.\<close>

definition tag_clean :: "tables \<Rightarrow> runestr list \<Rightarrow> (runestr \<Rightarrow> int) option \<Rightarrow> runestr list" where
  "tag_clean u tags frequency =
     (let ks = candidates u tags [] in
      map cd_show
        (if length ks > max_per_post then
           sort_key cd_at (take max_per_post
             (case frequency of None \<Rightarrow> ks | Some f \<Rightarrow> sort_key (\<lambda>c. f (cd_key c)) ks))
         else ks))"

section \<open>Keys\<close>

text \<open>What is used of the tables; the ASCII part of the tables has it.\<close>

definition tables_ok :: "tables \<Rightarrow> bool" where
  "tables_ok u \<longleftrightarrow> (\<forall>r. lower_rune u (lower_rune u r) = lower_rune u r)
     \<and> (\<forall>r. is_space_rune u r \<longrightarrow> \<not> kept_rune u r \<and> lower_rune u r = r)
     \<and> is_space_rune u 32 \<and> \<not> kept_rune u hyphen \<and> \<not> is_space_rune u hyphen \<and> lower_rune u hyphen = hyphen"

definition ascii_tables :: tables where
  "ascii_tables = \<lparr>is_letter = (\<lambda>r. 65 \<le> r \<and> r \<le> 90 \<or> 97 \<le> r \<and> r \<le> 122), is_digit_rune = (\<lambda>r. 48 \<le> r \<and> r \<le> 57),
     is_space_rune = (\<lambda>r. r = 32 \<or> 9 \<le> r \<and> r \<le> 13), lower_rune = (\<lambda>r. if 65 \<le> r \<and> r \<le> 90 then r + 32 else r)\<rparr>"

lemma ascii_tables_ok: "tables_ok ascii_tables"
  by (auto simp: tables_ok_def ascii_tables_def kept_rune_def hyphen_def)

text \<open>The words of a tag: its maximal runs of kept runes.\<close>

abbreviation words :: "tables \<Rightarrow> runestr \<Rightarrow> runestr list" where
  "words u s \<equiv> words_by (kept_rune u) s"

lemma join_with_Cons: "join_with c (w # ws) = w @ concat (map ((#) c) ws)"
  by (induction ws arbitrary: w) auto

lemma key_loop_started:
  "b \<noteq> [] \<Longrightarrow> key_loop u rs sep b =
     b @ (if sep then concat (map ((#) hyphen) (words u rs))
          else takeWhile (kept_rune u) rs @ concat (map ((#) hyphen) (words u (dropWhile (kept_rune u) rs))))"
  by (induction rs arbitrary: sep b) auto

lemma key_loop_words: "key_loop u rs sep [] = join_with hyphen (words u rs)"
  by (induction rs arbitrary: sep) (simp_all add: key_loop_started join_with_Cons)

lemma words_by_append_sep:
  "\<not> p r \<Longrightarrow> words_by p (xs @ r # ys) = words_by p xs @ words_by p ys"
proof (induction p xs rule: words_by.induct)
  case (2 p x xs)
  then show ?case
  proof (cases "p x")
    case True
    have "takeWhile p (xs @ r # ys) = takeWhile p xs" and "dropWhile p (xs @ r # ys) = dropWhile p xs @ r # ys"
      using \<open>\<not> p r\<close> by (induction xs) auto
    with 2 True show ?thesis by simp
  qed simp
qed simp

lemma words_by_all: "\<forall>r \<in> set w. p r \<Longrightarrow> w \<noteq> [] \<Longrightarrow> words_by p w = [w]"
  by (cases w) (simp_all add: takeWhile_eq_all_conv [THEN iffD2] dropWhile_eq_Nil_conv [THEN iffD2])

lemma words_by_none: "\<forall>r \<in> set w. \<not> p r \<Longrightarrow> words_by p w = []"
  by (induction w) auto

lemma words_by_props: "\<forall>w \<in> set (words_by p s). w \<noteq> [] \<and> set w \<subseteq> Collect p \<inter> set s"
proof (induction p s rule: words_by.induct)
  case (2 p r rs)
  show ?case
  proof (cases "p r")
    case True
    have "set (takeWhile p rs) \<subseteq> Collect p \<inter> set rs" by (auto dest: set_takeWhileD)
    moreover have "set (dropWhile p rs) \<subseteq> set rs" by (auto dest: set_dropWhileD)
    ultimately show ?thesis using 2(1) [OF True] True by auto
  next
    case False
    then show ?thesis using 2(2) [OF False] by auto
  qed
qed simp

lemma words_by_join:
  assumes "\<not> p c" and "\<forall>w \<in> set ws. w \<noteq> [] \<and> (\<forall>r \<in> set w. p r)"
  shows "words_by p (join_with c ws) = ws"
  using assms(2)
proof (induction ws)
  case (Cons w ws)
  show ?case
  proof (cases ws)
    case Nil
    with Cons.prems show ?thesis by (simp add: words_by_all)
  next
    case (Cons v vs)
    then have "words_by p (join_with c (w # ws)) = words_by p w @ words_by p (join_with c ws)"
      by (simp add: words_by_append_sep [of p c, OF assms(1)])
    with Cons.IH Cons.prems show ?thesis by (simp add: words_by_all)
  qed
qed simp

lemma words_by_pad:
  assumes "\<forall>r \<in> set xs. \<not> p r" and "\<forall>r \<in> set zs. \<not> p r"
  shows "words_by p (xs @ ys @ zs) = words_by p ys"
proof -
  have "words_by p (xs @ ys) = words_by p ys" for ys using assms(1) by (induction xs) auto
  moreover have "words_by p (ys @ zs) = words_by p ys"
    using assms(2) by (cases zs) (simp_all add: words_by_append_sep words_by_none)
  ultimately show ?thesis by simp
qed

lemma trim_func_split:
  obtains xs zs where "s = xs @ trim_func p s @ zs" "\<forall>r \<in> set xs. p r" "\<forall>r \<in> set zs. p r"
proof -
  let ?m = "dropWhile p s"
  have "s = takeWhile p s @ trim_func p s @ rev (takeWhile p (rev ?m))"
    unfolding trim_func_def by (metis rev_append rev_rev_ident takeWhile_dropWhile_id)
  then show ?thesis by (rule that) (auto dest: set_takeWhileD)
qed

lemma key_is_joined_words:
  assumes "tables_ok u"
  shows "tag_key u t = (let k = join_with hyphen (words u (map (lower_rune u) t)) in if no_tag u k then [] else k)"
proof -
  obtain xs zs where t: "t = xs @ trim_func (is_space_rune u) t @ zs"
    and x: "\<forall>r \<in> set xs. is_space_rune u r" and z: "\<forall>r \<in> set zs. is_space_rune u r" by (rule trim_func_split)
  have "words u (map (lower_rune u) (xs @ trim_func (is_space_rune u) t @ zs)) = words u (map (lower_rune u) (trim_func (is_space_rune u) t))"
    unfolding map_append by (rule words_by_pad) (use x z assms in \<open>auto simp: tables_ok_def\<close>)
  then have "words u (map (lower_rune u) t) = words u (map (lower_rune u) (trim_func (is_space_rune u) t))" using t by metis
  then show ?thesis by (simp add: tag_key_def key_loop_words Let_def)
qed

lemma lower_words:
  assumes "tables_ok u"
  shows "map (lower_rune u) (join_with hyphen (words u (map (lower_rune u) t))) = join_with hyphen (words u (map (lower_rune u) t))"
proof -
  have "\<forall>w \<in> set ws. \<forall>r \<in> set w. lower_rune u r = r \<Longrightarrow> map (lower_rune u) (join_with hyphen ws) = join_with hyphen ws" for ws
    using assms by (induction hyphen ws rule: join_with.induct) (auto simp: tables_ok_def map_idI)
  moreover have "\<forall>w \<in> set (words u (map (lower_rune u) t)). \<forall>r \<in> set w. lower_rune u r = r"
    using words_by_props [of "kept_rune u" "map (lower_rune u) t"] assms by (fastforce simp: tables_ok_def)
  ultimately show ?thesis by blast
qed

text \<open>
  The key of a tag is canonical. For every tag that has one, the key is the words of the
  lower-cased tag (its maximal runs of letters, digits, plus, hash and dot) joined by single hyphens,
  at most forty runes, not a stop-word; it is its own key; and two tags have the same key exactly when
  they have the same lower-cased words, whatever the case and the separators they were written with.
\<close>

theorem tag_key_canonical:
  assumes "tables_ok u" and "tag_key u t \<noteq> []"
  shows "tag_key u t = join_with hyphen (words_by (kept_rune u) (map (lower_rune u) t))
    \<and> length (tag_key u t) \<le> 40 \<and> tag_key u t \<notin> set stop_words
    \<and> tag_key u (tag_key u t) = tag_key u t
    \<and> (tag_key u t' = tag_key u t \<longleftrightarrow>
         words_by (kept_rune u) (map (lower_rune u) t') = words_by (kept_rune u) (map (lower_rune u) t))"
proof -
  let ?w = "\<lambda>t. words u (map (lower_rune u) t)"
  have k: "tag_key u t = join_with hyphen (?w t)" and n: "\<not> no_tag u (join_with hyphen (?w t))"
    using assms(2) unfolding key_is_joined_words [OF assms(1)] by (simp_all add: Let_def split: if_splits)
  have h: "\<not> kept_rune u hyphen" using assms(1) by (simp add: tables_ok_def)
  have wj: "words u (join_with hyphen (?w s)) = ?w s" for s
    by (rule words_by_join [of "kept_rune u" hyphen, OF h]) (use words_by_props [of "kept_rune u"] in blast)
  have "tag_key u (tag_key u t) = tag_key u t"
    unfolding k key_is_joined_words [OF assms(1), of "join_with hyphen (?w t)"] lower_words [OF assms(1)] wj using n by (simp add: Let_def)
  moreover have "?w t' = ?w t" if "tag_key u t' = tag_key u t"
  proof -
    have "tag_key u t' = join_with hyphen (?w t')"
      using that assms(2) unfolding key_is_joined_words [OF assms(1), of t'] by (simp add: Let_def split: if_splits)
    with that k wj show ?thesis by metis
  qed
  moreover have "tag_key u t' = tag_key u t" if "?w t' = ?w t"
    using that unfolding key_is_joined_words [OF assms(1)] by simp
  ultimately show ?thesis using k n by (auto simp: no_tag_def max_tag_len_def)
qed

theorem tag_key_canonical_witness:
  "tag_key ascii_tables (runes ''  Machine_ Learning '') = runes ''machine-learning''
   \<and> tag_key ascii_tables (runes ''MACHINE--learning'') = tag_key ascii_tables (runes ''  Machine_ Learning '')"
proof -
  have k: "tag_key ascii_tables (runes ''  Machine_ Learning '') = runes ''machine-learning''" by code_simp
  moreover have "words_by (kept_rune ascii_tables) (map (lower_rune ascii_tables) (runes ''MACHINE--learning''))
    = words_by (kept_rune ascii_tables) (map (lower_rune ascii_tables) (runes ''  Machine_ Learning ''))" by code_simp
  moreover have "tag_key ascii_tables (runes ''  Machine_ Learning '') \<noteq> []" unfolding k by code_simp
  ultimately show ?thesis
    using tag_key_canonical [OF ascii_tables_ok, of "runes ''  Machine_ Learning ''" "runes ''MACHINE--learning''"] by blast
qed

section \<open>The tags a post keeps\<close>

lemma trim_func_ends: "trim_func p s \<noteq> [] \<Longrightarrow> \<not> p (hd (trim_func p s)) \<and> \<not> p (last (trim_func p s))"
proof -
  assume ne: "trim_func p s \<noteq> []"
  let ?m = "dropWhile p s"
  have r: "dropWhile p (rev ?m) \<noteq> []" using ne by (simp add: trim_func_def)
  then have l: "\<not> p (last (trim_func p s))" unfolding trim_func_def last_rev by (rule hd_dropWhile)
  have m: "?m = trim_func p s @ rev (takeWhile p (rev ?m))"
    unfolding trim_func_def by (metis rev_append rev_rev_ident takeWhile_dropWhile_id)
  then have "hd (trim_func p s) = hd ?m" using ne by (metis hd_append2)
  moreover have "?m \<noteq> []" using m ne by (metis append_is_Nil_conv)
  ultimately show ?thesis using l hd_dropWhile [of p s] by simp
qed

lemma trim_func_id: "s = [] \<or> \<not> p (hd s) \<and> \<not> p (last s) \<Longrightarrow> trim_func p s = s"
proof (cases "s = []")
  case False
  assume "s = [] \<or> \<not> p (hd s) \<and> \<not> p (last s)"
  with False have "\<not> p (hd s)" "\<not> p (hd (rev s))" by (simp_all add: hd_rev)
  moreover have "dropWhile p xs = xs" if "\<not> p (hd xs)" for xs using that by (cases xs) auto
  ultimately show ?thesis by (simp add: trim_func_def)
qed (simp add: trim_func_def)

lemma words_by_ends:
  assumes "s \<noteq> []" "p (last s)"
  shows "words_by p s \<noteq> [] \<and> last (join_with c (words_by p s)) = last s"
  using assms
proof (induction p s rule: words_by.induct)
  case (2 p r rs)
  show ?case
  proof (cases "p r")
    case True
    show ?thesis
    proof (cases "dropWhile p rs = []")
      case e: True
      then have t: "takeWhile p rs = rs" by (simp add: takeWhile_eq_all_conv dropWhile_eq_Nil_conv)
      have "words_by p (r # rs) = [r # rs]" using True by (simp only: words_by.simps e t if_True)
      then show ?thesis by simp
    next
      case False
      then have l: "last (dropWhile p rs) = last rs" by (metis last_appendR takeWhile_dropWhile_id)
      moreover have "rs \<noteq> []" using False by auto
      ultimately have ih: "words_by p (dropWhile p rs) \<noteq> [] \<and> last (join_with c (words_by p (dropWhile p rs))) = last rs"
        using 2(1) [OF True False] 2(4) by simp
      then obtain v vs where "words_by p (dropWhile p rs) = v # vs" by (cases "words_by p (dropWhile p rs)") auto
      moreover from this have "join_with c (v # vs) \<noteq> []"
        using words_by_props [of p "dropWhile p rs"] by (simp add: join_with_Cons)
      ultimately show ?thesis using True ih \<open>rs \<noteq> []\<close> by simp
    qed
  next
    case False
    with 2(4) have "rs \<noteq> []" by (cases rs) auto
    with 2(2) [OF False] 2(4) False show ?thesis by simp
  qed
qed simp

lemma display_idem:
  assumes "tables_ok u"
  shows "tag_display u (tag_display u t) = tag_display u t"
proof -
  let ?p = "\<lambda>r. \<not> is_space_rune u r" and ?m = "trim_func (\<lambda>r. \<not> kept_rune u r) t"
  let ?d = "join_with 32 (words_by ?p ?m)"
  have sp: "is_space_rune u r \<Longrightarrow> \<not> kept_rune u r" for r using assms by (simp add: tables_ok_def)
  have "trim_func (\<lambda>r. \<not> kept_rune u r) ?d = ?d"
  proof (cases "?m = []")
    case True
    show ?thesis unfolding True words_by.simps join_with.simps by (rule trim_func_id) simp
  next
    case False
    then have k: "kept_rune u (hd ?m)" "kept_rune u (last ?m)" using trim_func_ends [of "\<lambda>r. \<not> kept_rune u r" t] by auto
    then have l: "last ?d = last ?m" using words_by_ends [of ?m ?p 32] False sp by blast
    obtain r rs where m: "?m = r # rs" using False by (cases ?m) auto
    have "?p r" using k(1) sp [of r] unfolding m list.sel by blast
    then have "words_by ?p (r # rs) = (r # takeWhile ?p rs) # words_by ?p (dropWhile ?p rs)" by (simp only: words_by.simps if_True not_False_eq_True)
    then have "hd ?d = hd ?m" unfolding m by (simp only: join_with_Cons append_Cons list.sel)
    then show ?thesis using k l by (intro trim_func_id) simp
  qed
  moreover have "words_by ?p ?d = words_by ?p ?m"
    by (rule words_by_join) (use assms words_by_props [of ?p ?m] in \<open>auto simp: tables_ok_def\<close>)
  ultimately show ?thesis by (simp add: tag_display_def fields_of_def)
qed

definition cands_ok :: "tables \<Rightarrow> cand list \<Rightarrow> bool" where
  "cands_ok u cs \<longleftrightarrow> map cd_at cs = [0..<length cs] \<and> distinct (map cd_key cs)
     \<and> (\<forall>c \<in> set cs. cd_key c = tag_key u (cd_show c) \<and> cd_key c \<noteq> [])"

lemma candidates_props:
  assumes "cands_ok u acc"
  shows "cands_ok u (candidates u ts acc)
    \<and> (\<exists>bs. candidates u ts acc = acc @ bs \<and> subseq (map cd_show bs) (map (tag_display u) ts))
    \<and> (\<forall>t \<in> set ts. tag_key u (tag_display u t) \<noteq> [] \<longrightarrow> tag_key u (tag_display u t) \<in> cd_key ` set (candidates u ts acc))"
  using assms
proof (induction ts arbitrary: acc)
  case (Cons t ts)
  let ?s = "tag_display u t"
  let ?c = "\<lparr>cd_show = ?s, cd_key = tag_key u ?s, cd_at = length acc\<rparr>"
  show ?case
  proof (cases "tag_key u ?s = [] \<or> tag_key u ?s \<in> set (map cd_key acc)")
    case True
    then have r: "candidates u (t # ts) acc = candidates u ts acc" by simp
    from Cons.IH [OF Cons.prems] obtain bs where "candidates u ts acc = acc @ bs" by blast
    with True have "tag_key u ?s \<noteq> [] \<longrightarrow> tag_key u ?s \<in> cd_key ` set (candidates u ts acc)" by auto
    with Cons.IH [OF Cons.prems] r show ?thesis by auto
  next
    case False
    then have r: "candidates u (t # ts) acc = candidates u ts (acc @ [?c])" by (simp add: Let_def)
    have "cands_ok u (acc @ [?c])" using Cons.prems False by (auto simp: cands_ok_def)
    from Cons.IH [OF this] obtain bs where ok: "cands_ok u (candidates u ts (acc @ [?c]))"
      and bs: "candidates u ts (acc @ [?c]) = (acc @ [?c]) @ bs" "subseq (map cd_show bs) (map (tag_display u) ts)"
      and k: "\<forall>t \<in> set ts. tag_key u (tag_display u t) \<noteq> [] \<longrightarrow> tag_key u (tag_display u t) \<in> cd_key ` set (candidates u ts (acc @ [?c]))"
      by blast
    have "candidates u (t # ts) acc = acc @ (?c # bs)" "subseq (map cd_show (?c # bs)) (map (tag_display u) (t # ts))"
      using r bs by auto
    moreover have "tag_key u ?s \<in> cd_key ` set (candidates u (t # ts) acc)" unfolding r bs by force
    ultimately show ?thesis using ok k r by (metis set_ConsD)
  qed
qed (auto intro: exI [of _ "[]"])

text \<open>Sorting a selection by position puts it back in the order of the candidates.\<close>

lemma sort_back:
  assumes "map cd_at ks = [0..<length ks]" and "set S \<subseteq> set ks" and "distinct S"
  shows "sort_key cd_at S = filter (\<lambda>c. c \<in> set S) ks"
proof (rule map_sorted_distinct_set_unique)
  have d: "distinct (map cd_at ks)" "sorted (map cd_at ks)" unfolding assms(1) by simp_all
  then show "inj_on cd_at (set (sort_key cd_at S) \<union> set (filter (\<lambda>c. c \<in> set S) ks))"
    using assms(2) by (auto simp: distinct_map intro: inj_on_subset)
  show "sorted (map cd_at (sort_key cd_at S))" by simp
  show "distinct (map cd_at (sort_key cd_at S))"
    using d(1) assms(2,3) by (auto simp: distinct_map intro: inj_on_subset)
  show "sorted (map cd_at (filter (\<lambda>c. c \<in> set S) ks))" using d(2) by (rule sorted_filter)
  show "distinct (map cd_at (filter (\<lambda>c. c \<in> set S) ks))" using d(1) by (rule distinct_map_filter)
  show "set (sort_key cd_at S) = set (filter (\<lambda>c. c \<in> set S) ks)" using assms(2) by auto
qed

lemma taken_least:
  assumes "sorted (map f xs)" "x \<in> set (take n xs)" "y \<in> set xs" "y \<notin> set (take n xs)"
  shows "f x \<le> f y"
proof -
  have "y \<in> set (drop n xs)" using assms(3,4) by (metis append_take_drop_id UnE set_append)
  moreover have "sorted (map f (take n xs) @ map f (drop n xs))" using assms(1) by (metis append_take_drop_id map_append)
  ultimately show ?thesis using assms(2) by (auto simp: sorted_append)
qed

text \<open>What Clean keeps of the candidates.\<close>

lemma clean_selection:
  assumes "ks = candidates u tags []"
  obtains P where "tag_clean u tags fr = map cd_show (filter P ks)" "length (filter P ks) = min (length ks) max_per_post"
    "\<And>c d f. c \<in> set ks \<Longrightarrow> d \<in> set ks \<Longrightarrow> P c \<Longrightarrow> \<not> P d \<Longrightarrow> fr = Some f \<Longrightarrow> f (cd_key c) \<le> f (cd_key d)"
proof (cases "length ks > max_per_post")
  case False
  have "tag_clean u tags fr = map cd_show (filter (\<lambda>c. True) ks)" using False assms by (simp add: tag_clean_def)
  then show ?thesis by (rule that) (use False in simp_all)
next
  case True
  have ok: "map cd_at ks = [0..<length ks]"
    using candidates_props [of u "[]" tags] assms by (simp add: cands_ok_def)
  then have d: "distinct ks" by (metis distinct_map distinct_upt)
  define T where "T = (case fr of None \<Rightarrow> ks | Some f \<Rightarrow> sort_key (\<lambda>c. f (cd_key c)) ks)"
  have T: "set T = set ks" "distinct T" "length T = length ks" using d by (auto simp: T_def split: option.split)
  let ?S = "take max_per_post T"
  have S: "set ?S \<subseteq> set ks" "distinct ?S" using T set_take_subset by (fastforce, simp)
  have e: "tag_clean u tags fr = map cd_show (filter (\<lambda>c. c \<in> set ?S) ks)"
    using True sort_back [OF ok S] unfolding tag_clean_def Let_def assms [symmetric] T_def [symmetric] by (simp only: if_True)
  have "length (filter (\<lambda>c. c \<in> set ?S) ks) = length ?S"
    using sort_back [OF ok S] by (metis length_sort)
  then have "length (filter (\<lambda>c. c \<in> set ?S) ks) = min (length ks) max_per_post" using T(3) by simp
  moreover have "f (cd_key c) \<le> f (cd_key e)" if "c \<in> set ks" "e \<in> set ks" "c \<in> set ?S" "e \<notin> set ?S" "fr = Some f" for c e f
    using taken_least [of "\<lambda>c. f (cd_key c)" T c max_per_post e] that T(1) by (simp add: T_def)
  ultimately show ?thesis using that [OF e] by blast
qed

text \<open>A list that is already clean is left alone.\<close>

lemma candidates_clean:
  assumes "\<forall>t \<in> set ts. tag_display u t = t" and "distinct (map cd_key acc @ map (tag_key u) ts)" "[] \<notin> set (map (tag_key u) ts)"
  shows "map cd_show (candidates u ts acc) = map cd_show acc @ ts"
  using assms
proof (induction ts arbitrary: acc)
  case (Cons t ts)
  then have "tag_key u t \<noteq> []" "tag_key u t \<notin> set (map cd_key acc)" "tag_display u t = t" by auto
  then have "candidates u (t # ts) acc = candidates u ts (acc @ [\<lparr>cd_show = t, cd_key = tag_key u t, cd_at = length acc\<rparr>])"
    by (simp add: Let_def)
  with Cons show ?case by simp
qed simp

lemma clean_clean:
  assumes "\<forall>t \<in> set ts. tag_display u t = t" and "distinct (map (tag_key u) ts)" "[] \<notin> set (map (tag_key u) ts)" and "length ts \<le> 10"
  shows "tag_clean u ts fr = ts"
proof -
  have "map cd_show (candidates u ts []) = ts" using candidates_clean [of ts u "[]"] assms by simp
  moreover from this have "length (candidates u ts []) \<le> 10" using assms(4) by (metis length_map)
  ultimately show ?thesis by (simp add: tag_clean_def Let_def max_per_post_def)
qed

text \<open>
  The tags a post keeps. Clean returns, in the order sent, the displayed form of some of the tags
  sent: at most ten, each a tag with a key of its own, no key twice. A tag sent that has a key is kept
  under that key unless ten others are, and when frequencies are given each of those is at most as
  frequent. Cleaning again changes nothing.
\<close>

theorem tag_clean_spec:
  assumes "tables_ok u" and "out = tag_clean u tags fr"
  shows "subseq out (map (tag_display u) tags) \<and> length out \<le> 10
    \<and> distinct (map (tag_key u) out) \<and> [] \<notin> set (map (tag_key u) out)
    \<and> (\<forall>t \<in> set tags. let k = tag_key u (tag_display u t) in k = [] \<or> k \<in> set (map (tag_key u) out)
         \<or> length out = 10 \<and> (\<forall>f. fr = Some f \<longrightarrow> (\<forall>s \<in> set out. f (tag_key u s) \<le> f k)))
    \<and> tag_clean u out fr' = out"
proof -
  let ?ks = "candidates u tags []"
  obtain P where o: "out = map cd_show (filter P ?ks)" and n: "length (filter P ?ks) = min (length ?ks) max_per_post"
    and least: "\<And>c d f. c \<in> set ?ks \<Longrightarrow> d \<in> set ?ks \<Longrightarrow> P c \<Longrightarrow> \<not> P d \<Longrightarrow> fr = Some f \<Longrightarrow> f (cd_key c) \<le> f (cd_key d)"
    using clean_selection [OF refl] assms(2) by metis
  have ok: "cands_ok u ?ks" and sub: "subseq (map cd_show ?ks) (map (tag_display u) tags)"
    and all: "\<forall>t \<in> set tags. tag_key u (tag_display u t) \<noteq> [] \<longrightarrow> tag_key u (tag_display u t) \<in> cd_key ` set ?ks"
    using candidates_props [of u "[]" tags] by (auto simp: cands_ok_def)
  have keys: "map (tag_key u) out = map cd_key (filter P ?ks)"
    unfolding o map_map using ok by (auto simp: cands_ok_def)
  have "subseq out (map cd_show ?ks)" unfolding o by (intro subseq_map subseq_filter_left)
  then have s: "subseq out (map (tag_display u) tags)" using sub by (rule subseq_order.trans)
  have dk: "distinct (map (tag_key u) out)" "[] \<notin> set (map (tag_key u) out)"
    unfolding keys using ok by (auto simp: cands_ok_def intro: distinct_map_filter)
  have len: "length out \<le> 10" unfolding o using n by (simp add: max_per_post_def)
  have kept: "let k = tag_key u (tag_display u t) in k = [] \<or> k \<in> set (map (tag_key u) out)
       \<or> length out = 10 \<and> (\<forall>f. fr = Some f \<longrightarrow> (\<forall>s \<in> set out. f (tag_key u s) \<le> f k))" if "t \<in> set tags" for t
  proof (cases "tag_key u (tag_display u t) = []")
    case False
    with all that have "tag_key u (tag_display u t) \<in> cd_key ` set ?ks" by blast
    then obtain d where d: "d \<in> set ?ks" "cd_key d = tag_key u (tag_display u t)" by (elim imageE) simp
    show ?thesis
    proof (cases "P d")
      case True
      then have "tag_key u (tag_display u t) \<in> set (map (tag_key u) out)" unfolding keys using d by force
      then show ?thesis by simp
    next
      case nP: False
      with d(1) have "length (filter P ?ks) < length ?ks" by (rule length_filter_less)
      then have "length out = 10" unfolding o using n by (simp add: max_per_post_def)
      moreover have "f (tag_key u s) \<le> f (cd_key d)" if "fr = Some f" "s \<in> set out" for f s
      proof -
        obtain c where "c \<in> set ?ks" "P c" "s = cd_show c" using \<open>s \<in> set out\<close> unfolding o by auto
        moreover have "cd_key c = tag_key u s" using calculation ok by (auto simp: cands_ok_def)
        ultimately show ?thesis using least [of c d f] d(1) nP that(1) by simp
      qed
      ultimately show ?thesis using d(2) by simp
    qed
  qed simp
  have fix_d: "\<forall>t \<in> set out. tag_display u t = t"
  proof
    fix t assume "t \<in> set out"
    then obtain t' where "t = tag_display u t'" using list_emb_set [OF s] by auto
    then show "tag_display u t = t" using display_idem [OF assms(1)] by simp
  qed
  have "tag_clean u out fr' = out" by (rule clean_clean [OF fix_d dk len])
  then show ?thesis using s dk len kept by blast
qed

theorem tag_clean_spec_witness:
  "tag_clean ascii_tables [runes ''Machine  Learning'', runes ''with'', runes ''machine-learning'', runes ''Go''] None
     = [runes ''Machine Learning'', runes ''Go'']
   \<and> tag_clean ascii_tables [runes ''Machine Learning'', runes ''Go''] (Some (\<lambda>k. 3)) = [runes ''Machine Learning'', runes ''Go'']"
proof -
  have c: "tag_clean ascii_tables [runes ''Machine  Learning'', runes ''with'', runes ''machine-learning'', runes ''Go''] None
     = [runes ''Machine Learning'', runes ''Go'']" by code_simp
  show ?thesis using tag_clean_spec [OF ascii_tables_ok c [symmetric], of "Some (\<lambda>k. 3)"] c by blast
qed

end
