(* ===== verification/Content_Store.thy ===== *)
theory Content_Store
  imports Tag_Rules Civil_Time
begin

text \<open>
  The content tables and the transactions on them: RunInTx (src/internal/db/tx.go), the tag membership
  table (src/internal/db/article_tags.go, with the triggers of migration 106) and the three article
  transactions of the write queue (src/internal/queue/queue.go), each of which writes the article and
  its outbox events together. A column that holds JSON holds the value. Only the columns these
  statements use are kept. Tags are rune strings; the tags column is their join.

  Every statement may fail: \<open>ok\<close> says which do. A transaction body takes the tables and returns an
  error, if any, with the tables as they are at that point; RunInTx throws those away on an error.
\<close>

record article =
  ar_id :: string
  ar_title :: string
  ar_slug :: string
  ar_content :: string
  ar_tags :: "runestr list"
  ar_created :: time
  ar_updated :: time
  ar_status :: string
  ar_author :: string
  ar_domain :: string
  ar_is_page :: bool

record article_row =
  aw_id :: string
  aw_title :: string
  aw_slug :: string
  aw_content :: string
  aw_tags :: runestr
  aw_created :: time
  aw_updated :: time
  aw_is_page :: bool
  aw_status :: string

record tag_row =
  tw_article :: string
  tw_tag :: runestr
  tw_norm :: runestr
  tw_created :: time
  tw_live :: bool

record version_row =
  vw_article :: string
  vw_slug :: string
  vw_title :: string
  vw_content :: string
  vw_tags :: runestr
  vw_label :: string

datatype event =
    ArticleCreated string string "runestr list"
  | ArticleUpdated string string "runestr list"
  | ArticleDeleted string string
  | CacheInvalidated string "runestr list" string

record envelope =
  en_id :: string
  en_type :: string
  en_version :: string
  en_causation :: string
  en_correlation :: string
  en_occurred :: time
  en_payload :: event

datatype outbox_status = OutPending | OutDelivered | OutDead

record outbox_row =
  ob_id :: int
  ob_type :: string
  ob_payload :: "envelope option"
  ob_status :: outbox_status
  ob_retry_at :: "string option"
  ob_retries :: nat
  ob_dead_reason :: "string option"
  ob_delivered :: "string option"

record content_db =
  db_articles :: "article_row list"
  db_tags :: "tag_row list"
  db_versions :: "version_row list"
  db_outbox :: "outbox_row list"
  db_next_event :: int

datatype stmt =
    TxBegin | TxCommit | InsertArticle | ReadVersion | InsertVersion | UpdateArticle | DeleteArticle
  | ResolveSlug | DeleteTags | InsertTag runestr | DeleteTagsBySlug | InsertEvent string

datatype db_error = DbError stmt | UniqueViolation

type_synonym tx = "content_db \<Rightarrow> db_error option \<times> content_db"

text \<open>A failed statement ends the body; otherwise the next one runs.\<close>

definition tx_then :: "tx \<Rightarrow> tx \<Rightarrow> tx" where
  "tx_then f g db = (case f db of (Some e, db) \<Rightarrow> (Some e, db) | (None, db) \<Rightarrow> g db)"

definition tx_stmt :: "(stmt \<Rightarrow> bool) \<Rightarrow> stmt \<Rightarrow> (content_db \<Rightarrow> content_db) \<Rightarrow> tx" where
  "tx_stmt ok st f db = (if ok st then (None, f db) else (Some (DbError st), db))"

definition run_in_tx :: "(stmt \<Rightarrow> bool) \<Rightarrow> tx \<Rightarrow> tx" where
  "run_in_tx ok fn db =
     (if \<not> ok TxBegin then (Some (DbError TxBegin), db)
      else case fn db of
        (Some e, _) \<Rightarrow> (Some e, db)
      | (None, db') \<Rightarrow> if ok TxCommit then (None, db') else (Some (DbError TxCommit), db))"

section \<open>Tag membership\<close>

definition published :: string where "published = ''published''"

definition article_by_id :: "string \<Rightarrow> content_db \<Rightarrow> article_row option" where
  "article_by_id i db = find (\<lambda>a. aw_id a = i) (db_articles db)"

definition article_by_slug :: "string \<Rightarrow> content_db \<Rightarrow> article_row option" where
  "article_by_slug s db = find (\<lambda>a. aw_slug a = s) (db_articles db)"

text \<open>An insert into article_tags with its trigger, which reads the post's status.\<close>

definition insert_tag_row :: "string \<Rightarrow> runestr \<Rightarrow> runestr \<Rightarrow> time \<Rightarrow> content_db \<Rightarrow> content_db" where
  "insert_tag_row i t k c db =
     db\<lparr>db_tags := db_tags db @ [\<lparr>tw_article = i, tw_tag = t, tw_norm = k, tw_created = c,
       tw_live = (case article_by_id i db of None \<Rightarrow> True | Some a \<Rightarrow> aw_status a = published)\<rparr>]\<rparr>"

definition normalise_tags :: "tables \<Rightarrow> runestr list \<Rightarrow> runestr list" where
  "normalise_tags u tags = tag_clean u tags None"

fun insert_tags :: "tables \<Rightarrow> (stmt \<Rightarrow> bool) \<Rightarrow> string \<Rightarrow> time \<Rightarrow> runestr list \<Rightarrow> tx" where
  "insert_tags u ok i c [] db = (None, db)"
| "insert_tags u ok i c (t # ts) db =
     (if ok (InsertTag t) then insert_tags u ok i c ts (insert_tag_row i t (tag_key u t) c db)
      else (Some (DbError (InsertTag t)), db))"

definition replace_article_tags :: "tables \<Rightarrow> (stmt \<Rightarrow> bool) \<Rightarrow> string \<Rightarrow> time \<Rightarrow> runestr list \<Rightarrow> tx" where
  "replace_article_tags u ok i c tags db =
     (if i = [] then (None, db)
      else tx_then (tx_stmt ok DeleteTags (\<lambda>db. db\<lparr>db_tags := filter (\<lambda>r. tw_article r \<noteq> i) (db_tags db)\<rparr>))
             (insert_tags u ok i c (normalise_tags u tags)) db)"

definition sync_tags_by_slug :: "tables \<Rightarrow> (stmt \<Rightarrow> bool) \<Rightarrow> string \<Rightarrow> runestr list \<Rightarrow> tx" where
  "sync_tags_by_slug u ok slug tags db =
     (if \<not> ok ResolveSlug then (Some (DbError ResolveSlug), db)
      else case article_by_slug slug db of
        None \<Rightarrow> (None, db)
      | Some a \<Rightarrow> replace_article_tags u ok (aw_id a) (aw_created a) tags db)"

definition delete_tags_by_slug :: "(stmt \<Rightarrow> bool) \<Rightarrow> string \<Rightarrow> tx" where
  "delete_tags_by_slug ok slug =
     tx_stmt ok DeleteTagsBySlug
       (\<lambda>db. db\<lparr>db_tags := filter (\<lambda>r. \<not> list_ex (\<lambda>a. aw_slug a = slug \<and> aw_id a = tw_article r) (db_articles db)) (db_tags db)\<rparr>)"

section \<open>The outbox insert\<close>

definition write_outbox_event :: "(stmt \<Rightarrow> bool) \<Rightarrow> time \<Rightarrow> string \<Rightarrow> string \<Rightarrow> event \<Rightarrow> string \<Rightarrow> string \<Rightarrow> tx" where
  "write_outbox_event ok now new_id etype ev causation correlation =
     tx_stmt ok (InsertEvent etype)
       (\<lambda>db. db\<lparr>db_outbox := db_outbox db @ [\<lparr>ob_id = db_next_event db, ob_type = etype,
               ob_payload = Some \<lparr>en_id = new_id, en_type = etype, en_version = ''1'', en_causation = causation,
                  en_correlation = correlation, en_occurred = now, en_payload = ev\<rparr>,
               ob_status = OutPending, ob_retry_at = None, ob_retries = 0, ob_dead_reason = None, ob_delivered = None\<rparr>],
             db_next_event := db_next_event db + 1\<rparr>)"

section \<open>The three article transactions\<close>

definition insert_article :: "(stmt \<Rightarrow> bool) \<Rightarrow> article \<Rightarrow> tx" where
  "insert_article ok a db =
     (let status = (if trim_space (ar_status a) = [] then published else trim_space (ar_status a)) in
      if \<not> ok InsertArticle then (Some (DbError InsertArticle), db)
      else if list_ex (\<lambda>r. aw_id r = ar_id a \<or> aw_slug r = ar_slug a) (db_articles db) then (Some UniqueViolation, db)
      else (None, db\<lparr>db_articles := db_articles db @ [\<lparr>aw_id = ar_id a, aw_title = ar_title a, aw_slug = ar_slug a,
                        aw_content = ar_content a, aw_tags = join_with 44 (ar_tags a), aw_created = ar_created a,
                        aw_updated = ar_updated a, aw_is_page = ar_is_page a, aw_status = status\<rparr>],
                     db_tags := map (\<lambda>r. if tw_article r = ar_id a then r\<lparr>tw_live := (status = published)\<rparr> else r) (db_tags db)\<rparr>))"

text \<open>The ids of the two events are drawn at random; the causation is the id of the job.\<close>

record tx_env =
  te_ok :: "stmt \<Rightarrow> bool"
  te_now :: time
  te_id1 :: string
  te_id2 :: string
  te_causation :: string
  te_correlation :: string

definition tx_events :: "tx_env \<Rightarrow> string \<Rightarrow> event \<Rightarrow> event \<Rightarrow> tx" where
  "tx_events v etype ev stale =
     tx_then (write_outbox_event (te_ok v) (te_now v) (te_id1 v) etype ev (te_causation v) (te_correlation v))
       (write_outbox_event (te_ok v) (te_now v) (te_id2 v) ''cache.invalidated.v1'' stale (te_causation v) (te_correlation v))"

definition tx_insert :: "tables \<Rightarrow> tx_env \<Rightarrow> article \<Rightarrow> tx" where
  "tx_insert u v a =
     tx_then (insert_article (te_ok v) a)
       (tx_then (replace_article_tags u (te_ok v) (ar_id a) (ar_created a) (ar_tags a))
         (tx_events v ''article.created.v1'' (ArticleCreated (ar_id a) (ar_slug a) (ar_tags a)) (CacheInvalidated (ar_slug a) (ar_tags a) ''insert'')))"

text \<open>The snapshot of the row to be overwritten is best effort: its failures are only logged.\<close>

definition snapshot_version :: "(stmt \<Rightarrow> bool) \<Rightarrow> article \<Rightarrow> content_db \<Rightarrow> content_db" where
  "snapshot_version ok a db =
     (if \<not> ok ReadVersion then db
      else case article_by_slug (ar_slug a) db of
        None \<Rightarrow> db
      | Some r \<Rightarrow> if ok InsertVersion
                  then db\<lparr>db_versions := db_versions db @ [\<lparr>vw_article = aw_id r, vw_slug = ar_slug a, vw_title = aw_title r,
                         vw_content = aw_content r, vw_tags = aw_tags r, vw_label = ''pre-update''\<rparr>]\<rparr>
                  else db)"

definition update_article :: "(stmt \<Rightarrow> bool) \<Rightarrow> article \<Rightarrow> tx" where
  "update_article ok a =
     tx_stmt ok UpdateArticle
       (\<lambda>db. db\<lparr>db_articles := map (\<lambda>r. if aw_slug r = ar_slug a
             then r\<lparr>aw_title := ar_title a, aw_content := ar_content a, aw_tags := join_with 44 (ar_tags a), aw_updated := ar_updated a\<rparr>
             else r) (db_articles db)\<rparr>)"

definition tx_update :: "tables \<Rightarrow> tx_env \<Rightarrow> article \<Rightarrow> tx" where
  "tx_update u v a db =
     tx_then (update_article (te_ok v) a)
       (tx_then (sync_tags_by_slug u (te_ok v) (ar_slug a) (ar_tags a))
         (tx_events v ''article.updated.v1'' (ArticleUpdated (ar_id a) (ar_slug a) (ar_tags a)) (CacheInvalidated (ar_slug a) (ar_tags a) ''update'')))
       (snapshot_version (te_ok v) a db)"

text \<open>DELETE FROM articles with the trigger that removes the tag rows of each post deleted.\<close>

definition delete_article :: "(stmt \<Rightarrow> bool) \<Rightarrow> string \<Rightarrow> tx" where
  "delete_article ok slug =
     tx_stmt ok DeleteArticle
       (\<lambda>db. db\<lparr>db_articles := filter (\<lambda>r. aw_slug r \<noteq> slug) (db_articles db),
               db_tags := filter (\<lambda>t. \<not> list_ex (\<lambda>r. aw_slug r = slug \<and> aw_id r = tw_article t) (db_articles db)) (db_tags db)\<rparr>)"

definition tx_delete :: "tx_env \<Rightarrow> article \<Rightarrow> tx" where
  "tx_delete v a =
     tx_then (delete_tags_by_slug (te_ok v) (ar_slug a))
       (tx_then (delete_article (te_ok v) (ar_slug a))
         (tx_events v ''article.deleted.v1'' (ArticleDeleted (ar_id a) (ar_slug a)) (CacheInvalidated (ar_slug a) (ar_tags a) ''delete'')))"

section \<open>What the transactions do\<close>

abbreviation rows_of :: "string \<Rightarrow> content_db \<Rightarrow> tag_row list" where
  "rows_of i db \<equiv> filter (\<lambda>t. tw_article t = i) (db_tags db)"

definition tag_rows :: "tables \<Rightarrow> string \<Rightarrow> time \<Rightarrow> bool \<Rightarrow> runestr list \<Rightarrow> tag_row list" where
  "tag_rows u i c live tags =
     map (\<lambda>t. \<lparr>tw_article = i, tw_tag = t, tw_norm = tag_key u t, tw_created = c, tw_live = live\<rparr>) (normalise_tags u tags)"

definition live_of :: "string \<Rightarrow> content_db \<Rightarrow> bool" where
  "live_of i db = (case article_by_id i db of None \<Rightarrow> True | Some a \<Rightarrow> aw_status a = published)"

lemma live_of_tags [simp]: "live_of i (db\<lparr>db_tags := ts\<rparr>) = live_of i db"
  by (simp add: live_of_def article_by_id_def)

lemma insert_tags_result:
  "insert_tags u ok i c ts db = (None, db') \<Longrightarrow>
   db' = db\<lparr>db_tags := db_tags db @ map (\<lambda>t. \<lparr>tw_article = i, tw_tag = t, tw_norm = tag_key u t, tw_created = c, tw_live = live_of i db\<rparr>) ts\<rparr>"
proof (induction ts arbitrary: db)
  case (Cons t ts)
  let ?db1 = "db\<lparr>db_tags := db_tags db @ [\<lparr>tw_article = i, tw_tag = t, tw_norm = tag_key u t, tw_created = c, tw_live = live_of i db\<rparr>]\<rparr>"
  have i1: "insert_tag_row i t (tag_key u t) c db = ?db1" by (simp add: insert_tag_row_def live_of_def)
  from Cons.prems have "insert_tags u ok i c ts ?db1 = (None, db')" by (simp add: i1 split: if_splits)
  from Cons.IH [OF this] show ?case by simp
qed simp

lemma tx_then_None:
  "tx_then f g db = (None, db') \<longleftrightarrow> (\<exists>db1. f db = (None, db1) \<and> g db1 = (None, db'))"
  by (auto simp: tx_then_def split: prod.split option.split)

lemma tx_stmt_None: "tx_stmt ok st f db = (None, db') \<longleftrightarrow> ok st \<and> db' = f db"
  by (auto simp: tx_stmt_def)

lemma replace_tags_result:
  assumes "replace_article_tags u ok i c tags db = (None, db')" and "i \<noteq> []"
  shows "db' = db\<lparr>db_tags := filter (\<lambda>t. tw_article t \<noteq> i) (db_tags db) @ tag_rows u i c (live_of i db) tags\<rparr>"
  using assms by (auto simp: replace_article_tags_def tx_then_None tx_stmt_None tag_rows_def dest!: insert_tags_result)

definition event_row :: "tx_env \<Rightarrow> int \<Rightarrow> string \<Rightarrow> string \<Rightarrow> event \<Rightarrow> outbox_row" where
  "event_row v n new_id etype ev =
     \<lparr>ob_id = n, ob_type = etype, ob_payload = Some \<lparr>en_id = new_id, en_type = etype, en_version = ''1'', en_causation = te_causation v,
        en_correlation = te_correlation v, en_occurred = te_now v, en_payload = ev\<rparr>,
      ob_status = OutPending, ob_retry_at = None, ob_retries = 0, ob_dead_reason = None, ob_delivered = None\<rparr>"

definition with_events :: "tx_env \<Rightarrow> string \<Rightarrow> event \<Rightarrow> event \<Rightarrow> content_db \<Rightarrow> content_db" where
  "with_events v etype ev stale db =
     db\<lparr>db_outbox := db_outbox db @ [event_row v (db_next_event db) (te_id1 v) etype ev,
          event_row v (db_next_event db + 1) (te_id2 v) ''cache.invalidated.v1'' stale],
        db_next_event := db_next_event db + 2\<rparr>"

lemma tx_events_result: "tx_events v etype ev stale db = (None, db') \<Longrightarrow> db' = with_events v etype ev stale db"
  by (auto simp: tx_events_def tx_then_None tx_stmt_None write_outbox_event_def with_events_def event_row_def)

text \<open>A transaction that reports an error has changed nothing; one that does not is its body.\<close>

lemma run_in_tx_error: "run_in_tx ok fn db = (Some e, db') \<Longrightarrow> db' = db"
  by (auto simp: run_in_tx_def split: if_splits prod.splits option.splits)

lemma run_in_tx_ok: "run_in_tx ok fn db = (None, db') \<Longrightarrow> fn db = (None, db')"
  by (auto simp: run_in_tx_def split: if_splits prod.splits option.splits)

definition inserted_status :: "article \<Rightarrow> string" where
  "inserted_status a = (if trim_space (ar_status a) = [] then published else trim_space (ar_status a))"

definition new_row :: "article \<Rightarrow> article_row" where
  "new_row a = \<lparr>aw_id = ar_id a, aw_title = ar_title a, aw_slug = ar_slug a, aw_content = ar_content a,
     aw_tags = join_with 44 (ar_tags a), aw_created = ar_created a, aw_updated = ar_updated a, aw_is_page = ar_is_page a,
     aw_status = inserted_status a\<rparr>"

text \<open>
  The tables after each transaction. The insert assumes the tag rows of the new id are gone, which the
  invariant below gives.
\<close>

definition after_insert :: "tables \<Rightarrow> tx_env \<Rightarrow> article \<Rightarrow> content_db \<Rightarrow> content_db" where
  "after_insert u v a db =
     with_events v ''article.created.v1'' (ArticleCreated (ar_id a) (ar_slug a) (ar_tags a)) (CacheInvalidated (ar_slug a) (ar_tags a) ''insert'')
       (db\<lparr>db_articles := db_articles db @ [new_row a],
           db_tags := db_tags db @ (if ar_id a = [] then [] else tag_rows u (ar_id a) (ar_created a) (inserted_status a = published) (ar_tags a))\<rparr>)"

definition updated_row :: "article \<Rightarrow> article_row \<Rightarrow> article_row" where
  "updated_row a r = (if aw_slug r = ar_slug a
     then r\<lparr>aw_title := ar_title a, aw_content := ar_content a, aw_tags := join_with 44 (ar_tags a), aw_updated := ar_updated a\<rparr> else r)"

definition after_update :: "tables \<Rightarrow> tx_env \<Rightarrow> article \<Rightarrow> content_db \<Rightarrow> content_db" where
  "after_update u v a db =
     with_events v ''article.updated.v1'' (ArticleUpdated (ar_id a) (ar_slug a) (ar_tags a)) (CacheInvalidated (ar_slug a) (ar_tags a) ''update'')
       (let db = snapshot_version (te_ok v) a db in
        db\<lparr>db_articles := map (updated_row a) (db_articles db),
           db_tags := (case article_by_slug (ar_slug a) db of
              None \<Rightarrow> db_tags db
            | Some r \<Rightarrow> if aw_id r = [] then db_tags db
                else filter (\<lambda>t. tw_article t \<noteq> aw_id r) (db_tags db) @ tag_rows u (aw_id r) (aw_created r) (aw_status r = published) (ar_tags a))\<rparr>)"

definition after_delete :: "tx_env \<Rightarrow> article \<Rightarrow> content_db \<Rightarrow> content_db" where
  "after_delete v a db =
     with_events v ''article.deleted.v1'' (ArticleDeleted (ar_id a) (ar_slug a)) (CacheInvalidated (ar_slug a) (ar_tags a) ''delete'')
       (db\<lparr>db_articles := filter (\<lambda>r. aw_slug r \<noteq> ar_slug a) (db_articles db),
           db_tags := filter (\<lambda>t. \<not> list_ex (\<lambda>r. aw_slug r = ar_slug a \<and> aw_id r = tw_article t) (db_articles db)) (db_tags db)\<rparr>)"

text \<open>
  The well-formedness of the content tables: ids and slugs are unique; every tag row belongs to a post,
  carries its tag's key and is live exactly when the post is published; a post has no key twice and at
  most ten tags; event ids are in order.
\<close>

definition keys_ok :: "article_row list \<Rightarrow> bool" where
  "keys_ok as \<longleftrightarrow> distinct (map aw_id as) \<and> distinct (map aw_slug as)"

definition tag_row_ok :: "tables \<Rightarrow> article_row list \<Rightarrow> tag_row \<Rightarrow> bool" where
  "tag_row_ok u as t \<longleftrightarrow> tw_norm t = tag_key u (tw_tag t) \<and> tw_norm t \<noteq> []
     \<and> (\<exists>a \<in> set as. aw_id a = tw_article t \<and> tw_live t = (aw_status a = published))"

definition per_post_ok :: "tag_row list \<Rightarrow> bool" where
  "per_post_ok ts \<longleftrightarrow> (\<forall>i. let rs = filter (\<lambda>t. tw_article t = i) ts in distinct (map tw_norm rs) \<and> length rs \<le> 10)"

definition events_ok :: "int \<Rightarrow> outbox_row list \<Rightarrow> bool" where
  "events_ok n rs \<longleftrightarrow> sorted_wrt (<) (map ob_id rs) \<and> (\<forall>r \<in> set rs. ob_id r < n)"

definition content_ok :: "tables \<Rightarrow> content_db \<Rightarrow> bool" where
  "content_ok u db \<longleftrightarrow> keys_ok (db_articles db) \<and> (\<forall>t \<in> set (db_tags db). tag_row_ok u (db_articles db) t)
     \<and> per_post_ok (db_tags db) \<and> events_ok (db_next_event db) (db_outbox db)"

lemma tag_owner: "content_ok u db \<Longrightarrow> t \<in> set (db_tags db) \<Longrightarrow> tw_article t \<in> aw_id ` set (db_articles db)"
  unfolding content_ok_def tag_row_ok_def by (metis imageI)

lemma find_unique:
  "distinct (map f xs) \<Longrightarrow> x \<in> set xs \<Longrightarrow> find (\<lambda>y. f y = f x) xs = Some x"
  by (induction xs) auto

lemma find_none_snoc: "\<forall>x \<in> set xs. \<not> P x \<Longrightarrow> P y \<Longrightarrow> find P (xs @ [y]) = Some y"
  by (induction xs) auto

lemma find_sat: "find P xs = Some x \<Longrightarrow> x \<in> set xs \<and> P x"
  by (induction xs) (auto split: if_splits)


lemma tx_insert_result:
  assumes "content_ok u db" and "tx_insert u v a db = (None, db')"
  shows "db' = after_insert u v a db" and "ar_id a \<notin> aw_id ` set (db_articles db)" and "ar_slug a \<notin> aw_slug ` set (db_articles db)"
proof -
  from assms(2) obtain db1 db2 where i: "insert_article (te_ok v) a db = (None, db1)"
    and t: "replace_article_tags u (te_ok v) (ar_id a) (ar_created a) (ar_tags a) db1 = (None, db2)"
    and e: "tx_events v ''article.created.v1'' (ArticleCreated (ar_id a) (ar_slug a) (ar_tags a)) (CacheInvalidated (ar_slug a) (ar_tags a) ''insert'') db2 = (None, db')"
    by (auto simp: tx_insert_def tx_then_None)
  from i show id: "ar_id a \<notin> aw_id ` set (db_articles db)" and "ar_slug a \<notin> aw_slug ` set (db_articles db)"
    by (auto simp: insert_article_def Let_def list_ex_iff split: if_splits)
  then have no: "\<forall>r \<in> set (db_tags db). tw_article r \<noteq> ar_id a" using tag_owner [OF assms(1)] by metis
  then have "map (\<lambda>r. if tw_article r = ar_id a then r\<lparr>tw_live := l\<rparr> else r) (db_tags db) = db_tags db" for l
    by (auto intro: map_idI)
  then have d1: "db1 = db\<lparr>db_articles := db_articles db @ [new_row a]\<rparr>"
    using i by (auto simp: insert_article_def Let_def new_row_def inserted_status_def split: if_splits)
  have "find (\<lambda>x. aw_id x = ar_id a) (db_articles db @ [new_row a]) = Some (new_row a)"
    by (rule find_none_snoc) (use id in \<open>metis imageI\<close>, simp add: new_row_def)
  then have l: "live_of (ar_id a) db1 = (inserted_status a = published)"
    by (simp add: live_of_def article_by_id_def d1 new_row_def)
  have f: "filter (\<lambda>t. tw_article t \<noteq> ar_id a) (db_tags db) = db_tags db" using no by (simp add: filter_id_conv)
  have d2: "db2 = db\<lparr>db_articles := db_articles db @ [new_row a],
      db_tags := db_tags db @ (if ar_id a = [] then [] else tag_rows u (ar_id a) (ar_created a) (inserted_status a = published) (ar_tags a))\<rparr>"
  proof (cases "ar_id a = []")
    case True
    then have "db2 = db1" using t by (simp add: replace_article_tags_def)
    then show ?thesis using True d1 by (intro content_db.equality) simp_all
  next
    case False
    from replace_tags_result [OF t False] False show ?thesis using d1 l f by simp
  qed
  from tx_events_result [OF e] show "db' = after_insert u v a db" unfolding d2 after_insert_def .
qed

lemma snapshot_keeps [simp]:
  "db_articles (snapshot_version ok a db) = db_articles db" "db_tags (snapshot_version ok a db) = db_tags db"
  "db_outbox (snapshot_version ok a db) = db_outbox db" "db_next_event (snapshot_version ok a db) = db_next_event db"
  by (auto simp: snapshot_version_def split: option.split)

lemma updated_row_keeps [simp]:
  "aw_id (updated_row a r) = aw_id r" "aw_slug (updated_row a r) = aw_slug r" "aw_status (updated_row a r) = aw_status r"
  "aw_created (updated_row a r) = aw_created r" "aw_is_page (updated_row a r) = aw_is_page r"
  by (auto simp: updated_row_def)

lemma find_map_keeps: "(\<And>x. P (f x) = P x) \<Longrightarrow> find P (map f xs) = map_option f (find P xs)"
  by (induction xs) auto

lemma tx_update_result:
  assumes "content_ok u db" and "tx_update u v a db = (None, db')"
  shows "db' = after_update u v a db"
proof -
  let ?db0 = "snapshot_version (te_ok v) a db"
  let ?db1 = "?db0\<lparr>db_articles := map (updated_row a) (db_articles db)\<rparr>"
  from assms(2) obtain db2 where t: "sync_tags_by_slug u (te_ok v) (ar_slug a) (ar_tags a) ?db1 = (None, db2)"
    and e: "tx_events v ''article.updated.v1'' (ArticleUpdated (ar_id a) (ar_slug a) (ar_tags a)) (CacheInvalidated (ar_slug a) (ar_tags a) ''update'') db2 = (None, db')"
    unfolding tx_update_def tx_then_None update_article_def tx_stmt_None updated_row_def by auto
  have s: "article_by_slug (ar_slug a) ?db1 = map_option (updated_row a) (article_by_slug (ar_slug a) db)"
    by (simp add: article_by_slug_def find_map_keeps)
  have s0: "article_by_slug (ar_slug a) ?db0 = article_by_slug (ar_slug a) db" by (simp add: article_by_slug_def)
  have "db2 = ?db0\<lparr>db_articles := map (updated_row a) (db_articles ?db0),
      db_tags := (case article_by_slug (ar_slug a) ?db0 of None \<Rightarrow> db_tags ?db0
        | Some r \<Rightarrow> if aw_id r = [] then db_tags ?db0
            else filter (\<lambda>t. tw_article t \<noteq> aw_id r) (db_tags ?db0) @ tag_rows u (aw_id r) (aw_created r) (aw_status r = published) (ar_tags a))\<rparr>"
  proof (cases "article_by_slug (ar_slug a) db")
    case None
    then show ?thesis using t s s0 by (auto simp: sync_tags_by_slug_def split: if_splits)
  next
    case (Some r)
    have r: "replace_article_tags u (te_ok v) (aw_id r) (aw_created r) (ar_tags a) ?db1 = (None, db2)"
      using t s Some by (auto simp: sync_tags_by_slug_def split: if_splits)
    show ?thesis
    proof (cases "aw_id r = []")
      case True
      then have "db2 = ?db1" using r by (simp add: replace_article_tags_def)
      then show ?thesis using True Some s0 by (intro content_db.equality) simp_all
    next
      case False
      have "r \<in> set (db_articles db)" using Some find_sat by (fastforce simp: article_by_slug_def)
      then have "find (\<lambda>x. aw_id x = aw_id r) (db_articles db) = Some r"
        using assms(1) by (intro find_unique) (simp_all add: content_ok_def keys_ok_def)
      then have "live_of (aw_id r) ?db1 = (aw_status r = published)"
        by (simp add: live_of_def article_by_id_def find_map_keeps)
      then show ?thesis using replace_tags_result [OF r False] False Some s0 by simp
    qed
  qed
  with tx_events_result [OF e] show ?thesis by (simp add: after_update_def Let_def)
qed

lemma tx_delete_result: "tx_delete v a db = (None, db') \<Longrightarrow> db' = after_delete v a db"
proof -
  assume "tx_delete v a db = (None, db')"
  then obtain db2 where d: "delete_article (te_ok v) (ar_slug a)
       (db\<lparr>db_tags := filter (\<lambda>r. \<not> list_ex (\<lambda>x. aw_slug x = ar_slug a \<and> aw_id x = tw_article r) (db_articles db)) (db_tags db)\<rparr>) = (None, db2)"
    and e: "tx_events v ''article.deleted.v1'' (ArticleDeleted (ar_id a) (ar_slug a)) (CacheInvalidated (ar_slug a) (ar_tags a) ''delete'') db2 = (None, db')"
    by (auto simp: tx_delete_def tx_then_None tx_stmt_None delete_tags_by_slug_def)
  have "db2 = db\<lparr>db_articles := filter (\<lambda>r. aw_slug r \<noteq> ar_slug a) (db_articles db),
           db_tags := filter (\<lambda>t. \<not> list_ex (\<lambda>r. aw_slug r = ar_slug a \<and> aw_id r = tw_article t) (db_articles db)) (db_tags db)\<rparr>"
    using d by (simp add: delete_article_def tx_stmt_None)
  with tx_events_result [OF e] show ?thesis by (simp add: after_delete_def)
qed

section \<open>The invariant of the content tables\<close>

lemma normalise_tags_props:
  "distinct (map (tag_key u) (normalise_tags u tags)) \<and> [] \<notin> set (map (tag_key u) (normalise_tags u tags)) \<and> length (normalise_tags u tags) \<le> 10"
proof -
  let ?ks = "candidates u tags []"
  obtain P where o: "tag_clean u tags None = map cd_show (filter P ?ks)" and n: "length (filter P ?ks) = min (length ?ks) max_per_post"
    by (rule clean_selection [OF refl, of u tags None])
  have "cands_ok u []" by (simp add: cands_ok_def)
  from candidates_props [OF this, of tags] have ok: "cands_ok u ?ks" by (rule conjunct1)
  have k: "map (tag_key u) (normalise_tags u tags) = map cd_key (filter P ?ks)"
    unfolding normalise_tags_def o map_map using ok by (auto simp: cands_ok_def)
  show ?thesis
    unfolding k using ok n by (auto simp: cands_ok_def normalise_tags_def o max_per_post_def intro: distinct_map_filter)
qed

lemma tag_rows_props:
  "\<forall>t \<in> set (tag_rows u i c l tags). tw_article t = i \<and> tw_norm t = tag_key u (tw_tag t) \<and> tw_norm t \<noteq> [] \<and> tw_live t = l"
  "distinct (map tw_norm (tag_rows u i c l tags))" "length (tag_rows u i c l tags) \<le> 10"
proof -
  note n = normalise_tags_props [of u tags]
  then have "\<forall>t \<in> set (normalise_tags u tags). tag_key u t \<noteq> []" by (metis imageI list.set_map)
  then show "\<forall>t \<in> set (tag_rows u i c l tags). tw_article t = i \<and> tw_norm t = tag_key u (tw_tag t) \<and> tw_norm t \<noteq> [] \<and> tw_live t = l"
    by (auto simp: tag_rows_def)
  show "distinct (map tw_norm (tag_rows u i c l tags))" "length (tag_rows u i c l tags) \<le> 10"
    using n by (simp_all add: tag_rows_def comp_def)
qed

lemma per_post_filter: "per_post_ok ts \<Longrightarrow> per_post_ok (filter P ts)"
proof -
  assume ok: "per_post_ok ts"
  show ?thesis
    unfolding per_post_ok_def Let_def
  proof
    fix i
    let ?rs = "filter (\<lambda>t. tw_article t = i) ts"
    have f: "filter (\<lambda>t. tw_article t = i) (filter P ts) = filter P ?rs" by (simp add: conj_commute)
    have r: "distinct (map tw_norm ?rs)" "length ?rs \<le> 10" using ok by (simp_all add: per_post_ok_def Let_def)
    show "distinct (map tw_norm (filter (\<lambda>t. tw_article t = i) (filter P ts))) \<and> length (filter (\<lambda>t. tw_article t = i) (filter P ts)) \<le> 10"
      unfolding f using distinct_map_filter [OF r(1)] order_trans [OF length_filter_le r(2)] by blast
  qed
qed

lemma per_post_append:
  assumes "per_post_ok ts" and "\<forall>t \<in> set ts. tw_article t \<noteq> i"
  shows "per_post_ok (ts @ tag_rows u i c l tags)"
  unfolding per_post_ok_def
proof
  fix j
  have e: "filter (\<lambda>t. tw_article t = j) (tag_rows u i c l tags) = (if j = i then tag_rows u i c l tags else [])"
    using tag_rows_props(1) [of u i c l tags] by (auto simp: filter_id_conv filter_empty_conv)
  have "j = i \<Longrightarrow> filter (\<lambda>t. tw_article t = j) ts = []" using assms(2) by (simp add: filter_empty_conv)
  then show "let rs = filter (\<lambda>t. tw_article t = j) (ts @ tag_rows u i c l tags) in distinct (map tw_norm rs) \<and> length rs \<le> 10"
    using assms(1) tag_rows_props(2,3) [of u i c l tags] unfolding filter_append e
    by (cases "j = i") (simp_all add: per_post_ok_def Let_def)
qed

lemma content_ok_events: "content_ok u db \<Longrightarrow> content_ok u (with_events v etype ev stale db)"
  by (auto simp: content_ok_def with_events_def events_ok_def event_row_def sorted_wrt_append)

lemma keys_ok_filter: "keys_ok as \<Longrightarrow> keys_ok (filter P as)"
  by (auto simp: keys_ok_def intro: distinct_map_filter)

lemma content_ok_insert:
  assumes "content_ok u db" and "ar_id a \<notin> aw_id ` set (db_articles db)" and "ar_slug a \<notin> aw_slug ` set (db_articles db)"
  shows "content_ok u (after_insert u v a db)"
proof -
  let ?as = "db_articles db @ [new_row a]"
  let ?new = "if ar_id a = [] then [] else tag_rows u (ar_id a) (ar_created a) (inserted_status a = published) (ar_tags a)"
  have k: "keys_ok ?as" using assms by (auto simp: content_ok_def keys_ok_def new_row_def)
  have old: "\<forall>t \<in> set (db_tags db). tag_row_ok u ?as t" using assms(1) by (auto simp: content_ok_def tag_row_ok_def)
  have new: "\<forall>t \<in> set ?new. tag_row_ok u ?as t"
    using tag_rows_props(1) [of u "ar_id a" "ar_created a" "inserted_status a = published" "ar_tags a"]
    by (auto simp: tag_row_ok_def new_row_def)
  have "\<forall>t \<in> set (db_tags db). tw_article t \<noteq> ar_id a" using tag_owner [OF assms(1)] assms(2) by metis
  then have "per_post_ok (db_tags db @ ?new)"
    using assms(1) by (auto simp: content_ok_def intro: per_post_append)
  then show ?thesis
    unfolding after_insert_def
    by (intro content_ok_events) (use assms(1) k old new in \<open>auto simp: content_ok_def\<close>)
qed

lemma content_ok_update:
  assumes "content_ok u db"
  shows "content_ok u (after_update u v a db)"
proof -
  let ?as = "map (updated_row a) (db_articles db)"
  have k: "keys_ok ?as" using assms by (simp add: content_ok_def keys_ok_def comp_def)
  have old: "tag_row_ok u ?as t" if "t \<in> set (db_tags db)" for t
    using assms that by (auto simp: content_ok_def tag_row_ok_def)
  have new: "tag_row_ok u ?as t" if "r \<in> set (db_articles db)" "t \<in> set (tag_rows u (aw_id r) c (aw_status r = published) ts)" for r t c ts
    using tag_rows_props(1) [of u "aw_id r" c "aw_status r = published" ts] that by (fastforce simp: tag_row_ok_def)
  let ?ts = "\<lambda>r. filter (\<lambda>t. tw_article t \<noteq> aw_id r) (db_tags db) @ tag_rows u (aw_id r) (aw_created r) (aw_status r = published) (ar_tags a)"
  have pp: "per_post_ok (?ts r)" for r using assms by (intro per_post_append per_post_filter) (auto simp: content_ok_def)
  have s0: "article_by_slug (ar_slug a) (snapshot_version (te_ok v) a db) = article_by_slug (ar_slug a) db" by (simp add: article_by_slug_def)
  have "\<And>r. article_by_slug (ar_slug a) db = Some r \<Longrightarrow> r \<in> set (db_articles db)"
    using find_sat by (fastforce simp: article_by_slug_def)
  then show ?thesis
    unfolding after_update_def Let_def s0
    by (intro content_ok_events) (use assms k old new pp in \<open>auto simp: content_ok_def split: option.split\<close>)
qed

lemma content_ok_delete:
  assumes "content_ok u db"
  shows "content_ok u (after_delete v a db)"
proof -
  let ?as = "filter (\<lambda>r. aw_slug r \<noteq> ar_slug a) (db_articles db)"
  have "tag_row_ok u ?as t" if "t \<in> set (db_tags db)" "\<not> list_ex (\<lambda>r. aw_slug r = ar_slug a \<and> aw_id r = tw_article t) (db_articles db)" for t
  proof -
    have "tag_row_ok u (db_articles db) t" using assms that(1) by (simp add: content_ok_def)
    with that(2) show ?thesis unfolding tag_row_ok_def list_ex_iff set_filter by blast
  qed
  then show ?thesis
    unfolding after_delete_def
    by (intro content_ok_events) (use assms in \<open>auto simp: content_ok_def intro: keys_ok_filter per_post_filter\<close>)
qed

datatype article_op = OpInsert | OpUpdate | OpDelete

definition op_tx :: "tables \<Rightarrow> tx_env \<Rightarrow> article_op \<Rightarrow> article \<Rightarrow> tx" where
  "op_tx u v op a = run_in_tx (te_ok v) (case op of OpInsert \<Rightarrow> tx_insert u v a | OpUpdate \<Rightarrow> tx_update u v a | OpDelete \<Rightarrow> tx_delete v a)"

lemma op_tx_body:
  "op_tx u v op a db = (None, db') \<Longrightarrow>
   (case op of OpInsert \<Rightarrow> tx_insert u v a db | OpUpdate \<Rightarrow> tx_update u v a db | OpDelete \<Rightarrow> tx_delete v a db) = (None, db')"
  unfolding op_tx_def by (drule run_in_tx_ok) (simp split: article_op.splits)

lemma op_tx_result:
  assumes "content_ok u db" and "op_tx u v op a db = (None, db')"
  shows "db' = (case op of OpInsert \<Rightarrow> after_insert u v a db | OpUpdate \<Rightarrow> after_update u v a db | OpDelete \<Rightarrow> after_delete v a db)
    \<and> content_ok u db'"
proof (cases op)
  case OpInsert
  then have "tx_insert u v a db = (None, db')" using op_tx_body [OF assms(2)] by simp
  from tx_insert_result [OF assms(1) this] content_ok_insert [OF assms(1)] OpInsert show ?thesis by auto
next
  case OpUpdate
  then have "tx_update u v a db = (None, db')" using op_tx_body [OF assms(2)] by simp
  from tx_update_result [OF assms(1) this] content_ok_update [OF assms(1)] OpUpdate show ?thesis by auto
next
  case OpDelete
  then have "tx_delete v a db = (None, db')" using op_tx_body [OF assms(2)] by simp
  from tx_delete_result [OF this] content_ok_delete [OF assms(1)] OpDelete show ?thesis by auto
qed

lemma op_tx_ok: "content_ok u db \<Longrightarrow> content_ok u (snd (op_tx u v op a db))"
proof -
  assume ok: "content_ok u db"
  obtain r db' where e: "op_tx u v op a db = (r, db')" by (cases "op_tx u v op a db")
  show ?thesis
  proof (cases r)
    case None
    with op_tx_result [OF ok] e show ?thesis by simp
  next
    case (Some x)
    then have "db' = db" using e unfolding op_tx_def by (metis run_in_tx_error)
    then show ?thesis using ok e by simp
  qed
qed

text \<open>The events of an operation: what happened, and which cached pages are stale.\<close>

fun op_event :: "article_op \<Rightarrow> article \<Rightarrow> string \<times> event" where
  "op_event OpInsert a = (''article.created.v1'', ArticleCreated (ar_id a) (ar_slug a) (ar_tags a))"
| "op_event OpUpdate a = (''article.updated.v1'', ArticleUpdated (ar_id a) (ar_slug a) (ar_tags a))"
| "op_event OpDelete a = (''article.deleted.v1'', ArticleDeleted (ar_id a) (ar_slug a))"

lemma op_outbox:
  assumes "content_ok u db" and "op_tx u v op a db = (None, db')"
  shows "\<exists>r1 r2. db_outbox db' = db_outbox db @ [r1, r2]
    \<and> map_option (\<lambda>e. (en_type e, en_payload e)) (ob_payload r1) = Some (op_event op a)
    \<and> map_option en_type (ob_payload r2) = Some ''cache.invalidated.v1''
    \<and> ob_status r1 = OutPending \<and> ob_status r2 = OutPending \<and> ob_retries r1 = 0 \<and> ob_retries r2 = 0"
  using op_tx_result [OF assms] 
  by (cases op) (auto simp: after_insert_def after_update_def after_delete_def with_events_def event_row_def Let_def)


definition empty_db :: content_db where
  "empty_db = \<lparr>db_articles = [], db_tags = [], db_versions = [], db_outbox = [], db_next_event = 1\<rparr>"

lemma empty_db_ok: "content_ok u empty_db"
  by (simp add: empty_db_def content_ok_def keys_ok_def per_post_ok_def events_ok_def)

definition demo_article :: article where
  "demo_article = \<lparr>ar_id = ''a1'', ar_title = ''T'', ar_slug = ''t'', ar_content = ''x'', ar_tags = [runes ''Go'', runes ''go''],
     ar_created = 5, ar_updated = 5, ar_status = [], ar_author = [], ar_domain = [], ar_is_page = False\<rparr>"

definition demo_tx_env :: "(stmt \<Rightarrow> bool) \<Rightarrow> tx_env" where
  "demo_tx_env ok = \<lparr>te_ok = ok, te_now = 7, te_id1 = ''e1'', te_id2 = ''e2'', te_causation = ''1'', te_correlation = []\<rparr>"


text \<open>
  C32. The tag index follows the post. After a committed insert or update, the tag rows of the post the
  slug names are its cleaned tags in order, each under its key, live exactly when the post is published;
  the tag rows of every other post are untouched; after a committed delete the post and its tag rows
  are gone. (A post whose id is empty has no tag rows.)
\<close>

theorem tag_index_follows:
  assumes "content_ok u db" and "op_tx u v op a db = (None, db')"
    and "article_by_slug (ar_slug a) (if op = OpInsert then db' else db) = Some r" and "aw_id r \<noteq> []"
  shows "map (\<lambda>t. (tw_tag t, tw_norm t, tw_live t)) (filter (\<lambda>t. tw_article t = aw_id r) (db_tags db'))
      = (if op = OpDelete then [] else map (\<lambda>t. (t, tag_key u t, aw_status r = published)) (tag_clean u (ar_tags a) None))
    \<and> filter (\<lambda>t. tw_article t \<noteq> aw_id r) (db_tags db') = filter (\<lambda>t. tw_article t \<noteq> aw_id r) (db_tags db)
    \<and> (op = OpDelete \<longrightarrow> article_by_slug (ar_slug a) db' = None \<and> article_by_id (aw_id r) db' = None)"
proof -
  have proj: "map (\<lambda>t. (tw_tag t, tw_norm t, tw_live t)) (tag_rows u i c l ts) = map (\<lambda>t. (t, tag_key u t, l)) (tag_clean u ts None)"
    and mine: "filter (\<lambda>t. tw_article t = i) (tag_rows u i c l ts) = tag_rows u i c l ts"
    and others: "filter (\<lambda>t. tw_article t \<noteq> i) (tag_rows u i c l ts) = []" for i c l ts
    by (simp_all add: tag_rows_def normalise_tags_def comp_def filter_id_conv filter_empty_conv)
  note res = op_tx_result [OF assms(1,2), THEN conjunct1]
  show ?thesis
  proof (cases op)
    case OpInsert
    then have e: "tx_insert u v a db = (None, db')" using op_tx_body [OF assms(2)] by simp
    note new = tx_insert_result [OF assms(1) e]
    have "find (\<lambda>x. aw_slug x = ar_slug a) (db_articles db @ [new_row a]) = Some (new_row a)"
      by (rule find_none_snoc) (use new(3) in \<open>metis imageI\<close>, simp add: new_row_def)
    then have r: "r = new_row a" using assms(3) OpInsert new(1) by (simp add: article_by_slug_def after_insert_def with_events_def)
    have no: "\<forall>t \<in> set (db_tags db). tw_article t \<noteq> ar_id a" using tag_owner [OF assms(1)] new(2) by metis
    have i: "aw_id r = ar_id a" "aw_status r = inserted_status a" by (simp_all add: r new_row_def)
    have "db_tags db' = db_tags db @ tag_rows u (ar_id a) (ar_created a) (inserted_status a = published) (ar_tags a)"
      using new(1) assms(4) i by (simp add: after_insert_def with_events_def)
    with OpInsert i no show ?thesis by (simp add: proj mine others filter_id_conv filter_empty_conv)
  next
    case OpUpdate
    then have s: "article_by_slug (ar_slug a) db = Some r" using assms(3) by simp
    moreover have "article_by_slug (ar_slug a) (snapshot_version (te_ok v) a db) = article_by_slug (ar_slug a) db" by (simp add: article_by_slug_def)
    ultimately have "db_tags db' = filter (\<lambda>t. tw_article t \<noteq> aw_id r) (db_tags db) @ tag_rows u (aw_id r) (aw_created r) (aw_status r = published) (ar_tags a)"
      using res OpUpdate assms(4) by (simp add: after_update_def with_events_def Let_def)
    with OpUpdate show ?thesis by (simp add: proj mine others filter_empty_conv)
  next
    case OpDelete
    then have s: "r \<in> set (db_articles db)" "aw_slug r = ar_slug a"
      using assms(3) find_sat by (fastforce simp: article_by_slug_def)+
    have d: "db' = after_delete v a db" using res OpDelete by simp
    have u: "x = r" if "x \<in> set (db_articles db)" "aw_id x = aw_id r \<or> aw_slug x = aw_slug r" for x
      using assms(1) that s(1) by (auto simp: content_ok_def keys_ok_def distinct_map inj_on_def)
    have "list_ex (\<lambda>x. aw_slug x = ar_slug a \<and> aw_id x = tw_article t) (db_articles db) \<longleftrightarrow> tw_article t = aw_id r" for t :: tag_row
      using s u unfolding list_ex_iff by metis
    then have "db_tags db' = filter (\<lambda>t. tw_article t \<noteq> aw_id r) (db_tags db)" using d by (simp add: after_delete_def with_events_def)
    moreover have "article_by_slug (ar_slug a) db' = None" "article_by_id (aw_id r) db' = None"
      using d u s by (auto simp: after_delete_def with_events_def article_by_slug_def article_by_id_def find_None_iff)
    ultimately show ?thesis using OpDelete by (simp add: filter_empty_conv)
  qed
qed

definition demo_db :: content_db where
  "demo_db = snd (op_tx ascii_tables (demo_tx_env (\<lambda>s. True)) OpInsert demo_article empty_db)"

lemma demo_db_ok: "content_ok ascii_tables demo_db"
  unfolding demo_db_def by (rule op_tx_ok [OF empty_db_ok])

theorem tag_index_follows_witness:
  "let r = op_tx ascii_tables (demo_tx_env (\<lambda>s. True)) OpUpdate (demo_article\<lparr>ar_tags := [runes ''Rust'', runes ''Go'']\<rparr>) demo_db in
   fst r = None \<and> map (\<lambda>t. (tw_tag t, tw_norm t, tw_live t)) (filter (\<lambda>t. tw_article t = ''a1'') (db_tags (snd r)))
     = map (\<lambda>t. (t, tag_key ascii_tables t, True)) (tag_clean ascii_tables [runes ''Rust'', runes ''Go''] None)"
proof -
  let ?a = "demo_article\<lparr>ar_tags := [runes ''Rust'', runes ''Go'']\<rparr>"
  let ?r = "op_tx ascii_tables (demo_tx_env (\<lambda>s. True)) OpUpdate ?a demo_db"
  have f: "fst ?r = None" by code_simp
  then have e: "?r = (None, snd ?r)" by (metis prod.collapse)
  have s: "map_option (\<lambda>x. (aw_id x, aw_status x)) (article_by_slug (ar_slug ?a) demo_db) = Some (''a1'', published)" by code_simp
  then obtain x where x: "article_by_slug (ar_slug ?a) demo_db = Some x" "aw_id x = ''a1''" "aw_status x = published" by auto
  from tag_index_follows [OF demo_db_ok e, of x] x show ?thesis using f by (simp add: Let_def)
qed

end
