(* ===== verification/Retry.thy ===== *)
theory Retry
  imports Civil_Time
begin

text \<open>
  The retry policy that the write queue (src/internal/queue/queue.go) and the outbox relay
  (src/internal/outbox/outbox.go) each write out: a failed attempt waits 5 * 2^(retries + 1) seconds up
  to a cap, after three retries the row is dead. The instant of the next attempt is stored with the
  layout 2006-01-02T15:04:05Z and compared, as text, with SQLite's datetime('now'), whose layout has a
  space in that place.
\<close>

definition backoff :: "int \<Rightarrow> nat \<Rightarrow> int" where
  "backoff cap retries = (let b = 2 ^ (retries + 1) * 5 in if b > cap then cap else b)"

definition next_retry :: "int \<Rightarrow> nat \<Rightarrow> time \<Rightarrow> string" where
  "next_retry cap retries now = fmt_iso (now + backoff cap retries * second)"

text \<open>The SQL condition \<open>retry_at IS NULL OR retry_at <= datetime('now')\<close>.\<close>

definition retry_due :: "time \<Rightarrow> string option \<Rightarrow> bool" where
  "retry_due now retry_at = (case retry_at of None \<Rightarrow> True | Some r \<Rightarrow> r \<le> fmt_sql now)"

text \<open>The day of an instant, counted in UTC.\<close>

definition utc_day :: "time \<Rightarrow> int" where
  "utc_day t = t div second div 86400"

lemma utc_day_less_iff:
  "utc_day t < utc_day u \<longleftrightarrow> c_year (civil_of t) < c_year (civil_of u) \<or> c_year (civil_of t) = c_year (civil_of u) \<and>
     (c_month (civil_of t) < c_month (civil_of u) \<or> c_month (civil_of t) = c_month (civil_of u) \<and> c_day (civil_of t) < c_day (civil_of u))"
proof -
  define d e where "d = t div second div 86400" and "e = u div second div 86400"
  obtain y r where y: "year_yday d = (y, r)" by (cases "year_yday d")
  obtain y' r' where y': "year_yday e = (y', r')" by (cases "year_yday e")
  obtain m x where m: "month_day 1 (month_starts y) r = (m, x)" by (cases "month_day 1 (month_starts y) r")
  obtain m' x' where m': "month_day 1 (month_starts y') r' = (m', x')" by (cases "month_day 1 (month_starts y') r'")
  have f: "c_year (civil_of t) = y" "c_month (civil_of t) = int m" "c_day (civil_of t) = x + 1"
    using y m by (simp_all add: civil_of_def Let_def d_def)
  have f': "c_year (civil_of u) = y'" "c_month (civil_of u) = int m'" "c_day (civil_of u) = x' + 1"
    using y' m' by (simp_all add: civil_of_def Let_def e_def)
  show ?thesis
    using date_parts_less [OF y m y' m'] unfolding f f' utc_day_def d_def [symmetric] e_def [symmetric]
    by (simp only: of_nat_less_iff of_nat_eq_iff add_less_cancel_right)
qed

text \<open>Text in the first layout is at most text in the second exactly when its day is over.\<close>

lemma iso_le_sql_iff:
  assumes "0 \<le> r" "r < end_of_9999" "0 \<le> now" "now < end_of_9999"
  shows "fmt_iso r \<le> fmt_sql now \<longleftrightarrow> utc_day r < utc_day now"
proof -
  note y = year_of_time [OF assms(3,4)] year_of_time [OF assms(1,2)]
  let ?n = "civil_of now" and ?r = "civil_of r"
  have sp: "(CHR '' '' # x :: string) < CHR ''T'' # z" for x z by (simp add: less_char_def)
  have "fmt_sql now < fmt_iso r \<longleftrightarrow>
    c_year ?n < c_year ?r \<or> c_year ?n = c_year ?r \<and> (c_month ?n < c_month ?r \<or> c_month ?n = c_month ?r \<and>
      (c_day ?n < c_day ?r \<or> c_day ?n = c_day ?r))"
    unfolding fmt_sql_def fmt_iso_def fmt_date_def fmt_clock_def Let_def append.assoc append_Cons append_Nil
      pad_lex [OF y] pad_lex [OF civil_digits(1,2) civil_digits(1,2)] pad_lex [OF civil_digits(3,4) civil_digits(3,4)]
      sep_lex by (simp only: sp simp_thms)
  also have "\<dots> \<longleftrightarrow> utc_day now < utc_day r \<or> utc_day now = utc_day r"
    using utc_day_less_iff [of now r] date_eq_iff [of now r] unfolding utc_day_def by blast
  finally show ?thesis by (auto simp: not_less [symmetric])
qed

text \<open>
  The contract of a row with retries: what a failed attempt does to a row that is live. The lemmas
  below hold of every table that keeps it.
\<close>

locale retried =
  fixes live :: "'r \<Rightarrow> bool" and pending :: "'r \<Rightarrow> bool" and retries :: "'r \<Rightarrow> nat" and retry_at :: "'r \<Rightarrow> string option"
    and fail :: "time \<Rightarrow> 'r \<Rightarrow> 'r" and cap :: int
  assumes pending_live: "pending r \<Longrightarrow> live r"
    and fail_again: "live r \<Longrightarrow> retries r < 3 \<Longrightarrow>
      pending (fail now r) \<and> retries (fail now r) = retries r + 1 \<and> retry_at (fail now r) = Some (next_retry cap (retries r) now)"
    and fail_last: "live r \<Longrightarrow> 3 \<le> retries r \<Longrightarrow> \<not> live (fail now r)"
begin

lemma fails_live:
  "live r \<Longrightarrow> length ts + retries r \<le> 3 \<Longrightarrow> live (fold fail ts r) \<and> retries (fold fail ts r) = retries r + length ts"
proof (induction ts arbitrary: r)
  case (Cons t ts)
  then have f: "pending (fail t r)" "retries (fail t r) = retries r + 1" using fail_again [of r t] by auto
  have "live (fold fail ts (fail t r)) \<and> retries (fold fail ts (fail t r)) = retries (fail t r) + length ts"
    by (rule Cons.IH) (use f pending_live Cons.prems in auto)
  then show ?case using f by simp
qed simp

text \<open>A row has four attempts: three failures keep it, the fourth ends it.\<close>

lemma four_attempts:
  assumes "live r" "retries r = 0"
  shows "length ts < 4 \<Longrightarrow> live (fold fail ts r)" and "length ts = 4 \<Longrightarrow> \<not> live (fold fail ts r)"
proof -
  show "length ts < 4 \<Longrightarrow> live (fold fail ts r)" using fails_live [OF assms(1), of ts] assms(2) by simp
  assume "length ts = 4"
  then obtain us t where ts: "ts = us @ [t]" "length us = 3" by (cases ts rule: rev_cases) auto
  then show "\<not> live (fold fail ts r)"
    using fails_live [OF assms(1), of us] fail_last [of "fold fail us r" t] assms(2) by simp
qed

text \<open>A failed row is not due again before the day of its retry instant is over.\<close>

lemma due_next_day:
  assumes "live r" "retries r < 3" and "0 \<le> now" "now + backoff cap (retries r) * second < end_of_9999" "0 \<le> cap"
    and "0 \<le> later" "later < end_of_9999"
  shows "retry_due later (retry_at (fail now r)) \<longleftrightarrow> utc_day (now + backoff cap (retries r) * second) < utc_day later"
proof -
  have "0 \<le> backoff cap (retries r)" using assms(5) by (simp add: backoff_def Let_def)
  then have "0 \<le> now + backoff cap (retries r) * second" using assms(3) by (simp add: second_def)
  then show ?thesis
    using iso_le_sql_iff [OF _ assms(4,6,7)] fail_again [OF assms(1,2)] by (simp add: retry_due_def next_retry_def)
qed

end

end
