(* ===== verification/Write_Queue.thy ===== *)
theory Write_Queue
  imports Content_Store Retry Mode
begin

text \<open>
  The write queue: Enqueue (src/internal/queue/writer.go), the worker's processOneJob, the batch replay
  and its quarantine (src/internal/queue/queue.go), the replay of one job
  (src/cmd/vayupress/handlers_console.go), the reaper of stuck jobs and the retention sweep
  (src/internal/db/db.go). The table is its rows in id order; the article_json column holds the article,
  or None for text that does not parse. The goroutines and tickers around these calls are left out; the
  clock, the mode, the outcome of each statement and the renderer are arguments. Metrics and logs are
  left out.
\<close>

datatype job_status = JobPending | JobProcessing | JobCompleted | JobDead | JobQuarantined

record write_job =
  wj_id :: int
  wj_article :: "article option"
  wj_op :: string
  wj_status :: job_status
  wj_retries :: nat
  wj_retry_at :: "string option"
  wj_created :: string
  wj_replays :: nat
  wj_dead :: string
  wj_corr :: string

record wq =
  q_jobs :: "write_job list"
  q_next :: int
  q_db :: content_db
  q_cache :: "(string, string) gomap"

definition max_backoff_seconds :: int where "max_backoff_seconds = 300"

section \<open>Enqueue\<close>

datatype enqueue_error = ErrWritesRefused mode | ErrQueueSaturated int int | EnqueueDb

definition pending_depth :: "write_job list \<Rightarrow> nat" where
  "pending_depth jobs = length (filter (\<lambda>j. wj_status j = JobPending) jobs)"

text \<open>The depth check is skipped when the count cannot be read.\<close>

definition enqueue ::
  "mode \<Rightarrow> int \<Rightarrow> bool \<Rightarrow> bool \<Rightarrow> time \<Rightarrow> string \<Rightarrow> article \<Rightarrow> string \<Rightarrow> wq \<Rightarrow> enqueue_error option \<times> wq" where
  "enqueue m hard_limit count_ok insert_ok now corr a op q =
     (if refuses_content_writes m then (Some (ErrWritesRefused m), q)
      else if hard_limit > 0 \<and> count_ok \<and> int (pending_depth (q_jobs q)) \<ge> hard_limit
           then (Some (ErrQueueSaturated (int (pending_depth (q_jobs q))) hard_limit), q)
      else if \<not> insert_ok then (Some EnqueueDb, q)
      else (None, q\<lparr>q_jobs := q_jobs q @ [\<lparr>wj_id = q_next q, wj_article = Some a, wj_op = op, wj_status = JobPending,
                  wj_retries = 0, wj_retry_at = None, wj_created = fmt_sql now, wj_replays = 0, wj_dead = [], wj_corr = corr\<rparr>],
                q_next := q_next q + 1\<rparr>))"

section \<open>The worker\<close>

datatype wstmt = SelectJob | MarkProcessing | MarkDead | ReadRetries | MarkRetry | ReadStatus | MarkCompleted

record worker_env =
  we_maintenance :: bool
  we_mode :: mode
  we_now :: time
  we_fail_now :: time
  we_ok :: "wstmt \<Rightarrow> bool"
  we_tx :: "stmt \<Rightarrow> bool"
  we_tx_now :: time
  we_id1 :: string
  we_id2 :: string
  we_tables :: tables
  we_render :: "(article \<Rightarrow> string option) option"

definition set_job :: "int \<Rightarrow> (write_job \<Rightarrow> write_job) \<Rightarrow> write_job list \<Rightarrow> write_job list" where
  "set_job i f jobs = map (\<lambda>j. if wj_id j = i then f j else j) jobs"

text \<open>An UPDATE of one job that may fail.\<close>

definition update_job :: "bool \<Rightarrow> int \<Rightarrow> (write_job \<Rightarrow> write_job) \<Rightarrow> wq \<Rightarrow> wq" where
  "update_job ok i f q = (if ok then q\<lparr>q_jobs := set_job i f (q_jobs q)\<rparr> else q)"

text \<open>The oldest pending job that is due; rows of the same second come in id order.\<close>

definition select_job :: "time \<Rightarrow> write_job list \<Rightarrow> write_job option" where
  "select_job now jobs =
     (case sort_key wj_created (filter (\<lambda>j. wj_status j = JobPending \<and> retry_due now (wj_retry_at j)) jobs) of
        [] \<Rightarrow> None | j # _ \<Rightarrow> Some j)"

definition job_tx_env :: "worker_env \<Rightarrow> write_job \<Rightarrow> tx_env" where
  "job_tx_env v job = \<lparr>te_ok = we_tx v, te_now = we_tx_now v, te_id1 = we_id1 v, te_id2 = we_id2 v,
     te_causation = itoa (wj_id job), te_correlation = wj_corr job\<rparr>"

definition job_op :: "string \<Rightarrow> article_op option" where
  "job_op op = (if op = ''insert'' then Some OpInsert else if op = ''update'' then Some OpUpdate
     else if op = ''delete'' then Some OpDelete else None)"

text \<open>What a failed transaction does to the row, with the retries as read.\<close>

definition job_after_error :: "nat \<Rightarrow> time \<Rightarrow> write_job \<Rightarrow> write_job" where
  "job_after_error retries now j =
     (if retries < 3 then j\<lparr>wj_status := JobPending, wj_retries := wj_retries j + 1, wj_retry_at := Some (next_retry max_backoff_seconds retries now)\<rparr>
      else j\<lparr>wj_status := JobDead, wj_dead := ''max_retries''\<rparr>)"

definition cache_path :: "string \<Rightarrow> string" where
  "cache_path slug = ''posts/'' @ slug @ ''.html''"

text \<open>Pre-seeding the disk cache after a write: only a published post, as the row just read says.\<close>

definition preseed_cache :: "worker_env \<Rightarrow> article_op \<Rightarrow> article \<Rightarrow> wq \<Rightarrow> wq" where
  "preseed_cache v op a q =
     (case we_render v of
        None \<Rightarrow> q
      | Some render \<Rightarrow>
          if op = OpDelete then q
          else (let (status, is_page) =
                  (if \<not> we_ok v ReadStatus then (published, False)
                   else case article_by_slug (ar_slug a) (q_db q) of
                          None \<Rightarrow> (published, False) | Some r \<Rightarrow> (aw_status r, aw_is_page r))
                in if status = published \<and> \<not> is_page
                   then (case render a of None \<Rightarrow> q | Some html \<Rightarrow> q\<lparr>q_cache := map_put (cache_path (ar_slug a)) html (q_cache q)\<rparr>)
                   else q))"

text \<open>processOneJob after the job was selected.\<close>

definition run_job :: "worker_env \<Rightarrow> write_job \<Rightarrow> wq \<Rightarrow> wq" where
  "run_job v job q =
     (let q = update_job (we_ok v MarkProcessing) (wj_id job) (\<lambda>j. j\<lparr>wj_status := JobProcessing\<rparr>) q in
      case wj_article job of
        None \<Rightarrow> update_job (we_ok v MarkDead) (wj_id job) (\<lambda>j. j\<lparr>wj_status := JobDead, wj_dead := ''parse_error''\<rparr>) q
      | Some a \<Rightarrow>
          (case job_op (wj_op job) of
             None \<Rightarrow> update_job (we_ok v MarkDead) (wj_id job) (\<lambda>j. j\<lparr>wj_status := JobDead, wj_dead := ''unknown_op''\<rparr>) q
           | Some op \<Rightarrow>
               (case op_tx (we_tables v) (job_tx_env v job) op a (q_db q) of
                  (Some e, db) \<Rightarrow>
                    (let retries = (if we_ok v ReadRetries then (case find (\<lambda>j. wj_id j = wj_id job) (q_jobs q) of None \<Rightarrow> 0 | Some j \<Rightarrow> wj_retries j) else 0)
                     in update_job (we_ok v (if retries < 3 then MarkRetry else MarkDead)) (wj_id job)
                          (job_after_error retries (we_fail_now v)) (q\<lparr>q_db := db\<rparr>))
                | (None, db) \<Rightarrow>
                    update_job (we_ok v MarkCompleted) (wj_id job) (\<lambda>j. j\<lparr>wj_status := JobCompleted\<rparr>)
                      (preseed_cache v op a (q\<lparr>q_db := db\<rparr>)))))"

definition process_one_job :: "worker_env \<Rightarrow> wq \<Rightarrow> bool \<times> wq" where
  "process_one_job v q =
     (if we_maintenance v \<or> refuses_content_writes (we_mode v) then (True, q)
      else if \<not> we_ok v SelectJob then (True, q)
      else case select_job (we_now v) (q_jobs q) of
        None \<Rightarrow> (True, q)
      | Some job \<Rightarrow> (False, run_job v job q))"

section \<open>Replay, the reaper and the retention sweep\<close>

text \<open>The loop of HandleQueueReplay over the dead-letter rows: the ids to quarantine and to replay.\<close>

fun split_replay :: "nat \<Rightarrow> nat \<Rightarrow> write_job list \<Rightarrow> int list \<times> int list \<Rightarrow> int list \<times> int list" where
  "split_replay max_replay batch [] acc = acc"
| "split_replay max_replay batch (j # js) acc =
     (if wj_replays j \<ge> max_replay then split_replay max_replay batch js (fst acc @ [wj_id j], snd acc)
      else if length (snd acc) < batch then split_replay max_replay batch js (fst acc, snd acc @ [wj_id j])
      else split_replay max_replay batch js acc)"

definition replay_job :: "write_job \<Rightarrow> write_job" where
  "replay_job j = (if wj_status j = JobDead
     then j\<lparr>wj_status := JobPending, wj_retries := 0, wj_retry_at := None, wj_replays := wj_replays j + 1\<rparr> else j)"

definition queue_replay :: "(int \<Rightarrow> bool) \<Rightarrow> nat \<Rightarrow> nat \<Rightarrow> wq \<Rightarrow> wq" where
  "queue_replay ok max_replay batch q =
     (let dead = take (batch + 50) (filter (\<lambda>j. wj_status j = JobDead) (q_jobs q));
          (quarantine, replay) = split_replay max_replay batch dead ([], []);
          jobs = fold (\<lambda>i js. if ok i then set_job i (\<lambda>j. j\<lparr>wj_status := JobQuarantined\<rparr>) js else js) quarantine (q_jobs q)
      in q\<lparr>q_jobs := fold (\<lambda>i js. if ok i then set_job i replay_job js else js) replay jobs\<rparr>)"

text \<open>handleReplayJob: the same statement for the one job named by the operator.\<close>

definition replay_one :: "int \<Rightarrow> wq \<Rightarrow> wq" where
  "replay_one i q = q\<lparr>q_jobs := set_job i replay_job (q_jobs q)\<rparr>"

definition reap_stuck :: "time \<Rightarrow> wq \<Rightarrow> wq" where
  "reap_stuck now q =
     q\<lparr>q_jobs := map (\<lambda>j. if wj_status j = JobProcessing \<and> wj_created j < fmt_sql (now - 5 * minute)
                         then j\<lparr>wj_status := JobPending\<rparr> else j) (q_jobs q)\<rparr>"

text \<open>The recovery at start-up.\<close>

definition recover_processing :: "wq \<Rightarrow> wq" where
  "recover_processing q =
     q\<lparr>q_jobs := map (\<lambda>j. if wj_status j = JobProcessing then j\<lparr>wj_status := JobPending\<rparr> else j) (q_jobs q)\<rparr>"

text \<open>One DELETE with its LIMIT: the first \<open>n\<close> rows that match go.\<close>

fun delete_limit :: "('a \<Rightarrow> bool) \<Rightarrow> nat \<Rightarrow> 'a list \<Rightarrow> nat \<times> 'a list" where
  "delete_limit p n [] = (0, [])"
| "delete_limit p n (x # xs) =
     (if p x \<and> 0 < n then (case delete_limit p (n - 1) xs of (k, ys) \<Rightarrow> (Suc k, ys))
      else (case delete_limit p n xs of (k, ys) \<Rightarrow> (k, x # ys)))"

lemma delete_limit_spec:
  "fst (delete_limit p n xs) = min n (length (filter p xs))"
  "length (snd (delete_limit p n xs)) = length xs - min n (length (filter p xs))"
proof -
  have "fst (delete_limit p n xs) = min n (length (filter p xs)) \<and> length (snd (delete_limit p n xs)) + min n (length (filter p xs)) = length xs"
  proof (induction xs arbitrary: n)
    case (Cons x xs)
    show ?case
    proof (cases "p x \<and> 0 < n")
      case True
      with Cons [of "n - 1"] show ?thesis by (cases n) (auto split: prod.split)
    next
      case False
      with Cons [of n] show ?thesis by (auto split: prod.split)
    qed
  qed simp
  then show "fst (delete_limit p n xs) = min n (length (filter p xs))"
    and "length (snd (delete_limit p n xs)) = length xs - min n (length (filter p xs))" by auto
qed

definition prune_batch :: nat where "prune_batch = 5000"

text \<open>
  pruneJobsBatched: \<open>ok\<close> is indexed by the statements run so far. The loop ends because every full
  batch removes rows.
\<close>

function prune_loop :: "(nat \<Rightarrow> bool) \<Rightarrow> nat \<Rightarrow> ('a \<Rightarrow> bool) \<Rightarrow> nat \<Rightarrow> 'a list \<Rightarrow> bool \<times> nat \<times> 'a list" where
  "prune_loop ok k p tot xs =
     (if \<not> ok k then (False, tot, xs)
      else if fst (delete_limit p prune_batch xs) < prune_batch
           then (True, tot + fst (delete_limit p prune_batch xs), snd (delete_limit p prune_batch xs))
           else prune_loop ok (Suc k) p (tot + fst (delete_limit p prune_batch xs)) (snd (delete_limit p prune_batch xs)))"
  by pat_completeness auto
termination
proof (relation "measure (\<lambda>(ok, k, p, tot, xs). length xs)")
  fix ok :: "nat \<Rightarrow> bool" and k tot :: nat and p :: "'a \<Rightarrow> bool" and xs :: "'a list"
  assume "\<not> fst (delete_limit p prune_batch xs) < prune_batch"
  then have "0 < prune_batch" "prune_batch \<le> length (filter p xs)" by (auto simp: delete_limit_spec prune_batch_def)
  moreover have "length (filter p xs) \<le> length xs" by simp
  ultimately have "length (snd (delete_limit p prune_batch xs)) < length xs" unfolding delete_limit_spec by linarith
  then show "((ok, Suc k, p, tot + fst (delete_limit p prune_batch xs), snd (delete_limit p prune_batch xs)), (ok, k, p, tot, xs))
      \<in> measure (\<lambda>(ok, k, p, tot, xs). length xs)" by simp
qed simp

definition prune_write_jobs :: "(nat \<Rightarrow> bool) \<Rightarrow> (nat \<Rightarrow> bool) \<Rightarrow> int \<Rightarrow> int \<Rightarrow> time \<Rightarrow> wq \<Rightarrow> (bool \<times> nat) \<times> wq" where
  "prune_write_jobs ok1 ok2 hours days now q =
     (let hours = (if hours \<le> 0 then 24 else hours);
          days = (if days \<le> 0 then 7 else days);
          (done1, n1, jobs) = prune_loop ok1 0 (\<lambda>j. wj_status j = JobCompleted \<and> wj_created j < fmt_sql (now - hours * hour)) 0 (q_jobs q)
      in if \<not> done1 then ((False, n1), q\<lparr>q_jobs := jobs\<rparr>)
         else (let (done2, n2, jobs) = prune_loop ok2 0
                     (\<lambda>j. (wj_status j = JobDead \<or> wj_status j = JobQuarantined) \<and> wj_created j < fmt_sql (now - days * 24 * hour)) 0 jobs
               in ((done2, n1 + n2), q\<lparr>q_jobs := jobs\<rparr>)))"


section \<open>Retries\<close>

interpretation jobq: retried
  "\<lambda>j. wj_status j \<in> {JobPending, JobProcessing}" "\<lambda>j. wj_status j = JobPending" wj_retries wj_retry_at
  "\<lambda>now j. job_after_error (wj_retries j) now j" max_backoff_seconds
  by unfold_locales (auto simp: job_after_error_def)

lemma set_job_ids [simp]: "(\<And>j. wj_id (f j) = wj_id j) \<Longrightarrow> map wj_id (set_job i f jobs) = map wj_id jobs"
  by (simp add: set_job_def)

lemma select_job_props:
  assumes "select_job now jobs = Some j"
  shows "j \<in> set jobs \<and> wj_status j = JobPending \<and> retry_due now (wj_retry_at j)
    \<and> (\<forall>k \<in> set jobs. wj_status k = JobPending \<and> retry_due now (wj_retry_at k) \<longrightarrow> wj_created j \<le> wj_created k)"
proof -
  let ?s = "sort_key wj_created (filter (\<lambda>j. wj_status j = JobPending \<and> retry_due now (wj_retry_at j)) jobs)"
  obtain js where s: "?s = j # js" using assms by (auto simp: select_job_def split: list.splits)
  have st: "set (j # js) = {x \<in> set jobs. wj_status x = JobPending \<and> retry_due now (wj_retry_at x)}"
    unfolding s [symmetric] by auto
  have "sorted (map wj_created (j # js))" using s by (metis sorted_sort_key)
  then have "\<forall>k \<in> set (j # js). wj_created j \<le> wj_created k" by auto
  with st show ?thesis by auto
qed

lemma select_job_none: "select_job now jobs = None \<longleftrightarrow> (\<forall>j \<in> set jobs. wj_status j = JobPending \<longrightarrow> \<not> retry_due now (wj_retry_at j))"
proof -
  have "select_job now jobs = None \<longleftrightarrow> filter (\<lambda>j. wj_status j = JobPending \<and> retry_due now (wj_retry_at j)) jobs = []"
    unfolding select_job_def by (metis (no_types, lifting) list.case_eq_if option.simps(3) set_empty set_sort)
  then show ?thesis by (auto simp: filter_empty_conv)
qed

text \<open>The rows of a queue have distinct ids below the next one.\<close>

definition jobs_ok :: "wq \<Rightarrow> bool" where
  "jobs_ok q \<longleftrightarrow> distinct (map wj_id (q_jobs q)) \<and> (\<forall>j \<in> set (q_jobs q). wj_id j < q_next q)"

lemma find_job: "jobs_ok q \<Longrightarrow> j \<in> set (q_jobs q) \<Longrightarrow> find (\<lambda>k. wj_id k = wj_id j) (q_jobs q) = Some j"
  unfolding jobs_ok_def by (intro find_unique) auto

lemma find_set_job:
  assumes "\<And>j. wj_id (f j) = wj_id j"
  shows "find (\<lambda>k. wj_id k = i) (set_job i f jobs) = map_option f (find (\<lambda>k. wj_id k = i) jobs)"
  by (induction jobs) (auto simp: set_job_def assms)

lemma find_other_job:
  assumes "\<And>j. wj_id (f j) = wj_id j" and "i \<noteq> n"
  shows "find (\<lambda>k. wj_id k = n) (set_job i f jobs) = find (\<lambda>k. wj_id k = n) jobs"
  using assms by (induction jobs) (auto simp: set_job_def)

definition job_named :: "int \<Rightarrow> wq \<Rightarrow> write_job option" where
  "job_named i q = find (\<lambda>k. wj_id k = i) (q_jobs q)"

lemma job_named_update:
  assumes "\<And>j. wj_id (f j) = wj_id j"
  shows "job_named i (update_job ok i f q) = (if ok then map_option f (job_named i q) else job_named i q)"
    and "i \<noteq> n \<Longrightarrow> job_named n (update_job ok i f q) = job_named n q"
  using assms by (simp_all add: job_named_def update_job_def find_set_job find_other_job)

lemma update_job_parts [simp]:
  "q_db (update_job ok i f q) = q_db q" "q_cache (update_job ok i f q) = q_cache q" "q_next (update_job ok i f q) = q_next q"
  by (simp_all add: update_job_def)

lemma preseed_parts [simp]:
  "q_jobs (preseed_cache v op a q) = q_jobs q" "q_db (preseed_cache v op a q) = q_db q" "q_next (preseed_cache v op a q) = q_next q"
  by (auto simp: preseed_cache_def Let_def split: option.split prod.split)

lemma job_named_parts [simp]: "job_named i (q\<lparr>q_db := db\<rparr>) = job_named i q" "job_named i (preseed_cache v op a q) = job_named i q"
  by (simp_all add: job_named_def)

lemma job_after_error_id [simp]: "wj_id (job_after_error n now j) = wj_id j"
  by (simp add: job_after_error_def)

text \<open>
  C15. What becomes of a job. Let the worker take a job while every statement on the jobs table
  succeeds. If the tables are well formed then exactly one of these happens: the text or the operation
  is not understood and the job is a dead letter, the content untouched; the transaction fails, the
  content is untouched, and the job is pending with one more retry, or a dead letter after three; or
  the transaction commits and the job is completed. The other jobs are never touched.
\<close>

theorem job_outcome:
  assumes "process_one_job v q = (False, q')" and "\<forall>s. we_ok v s" and "jobs_ok q" and "content_ok (we_tables v) (q_db q)"
  shows "\<exists>job. select_job (we_now v) (q_jobs q) = Some job
    \<and> (\<forall>i. i \<noteq> wj_id job \<longrightarrow> job_named i q' = job_named i q)
    \<and> (\<exists>job'. job_named (wj_id job) q' = Some job' \<and>
        (case (wj_article job, job_op (wj_op job)) of
           (Some a, Some op) \<Rightarrow>
             (case op_tx (we_tables v) (job_tx_env v job) op a (q_db q) of
                (Some e, _) \<Rightarrow> q_db q' = q_db q \<and> q_cache q' = q_cache q
                   \<and> (if wj_retries job < 3
                      then wj_status job' = JobPending \<and> wj_retries job' = wj_retries job + 1
                        \<and> wj_retry_at job' = Some (next_retry 300 (wj_retries job) (we_fail_now v))
                      else wj_status job' = JobDead)
              | (None, db) \<Rightarrow> q_db q' = db \<and> wj_status job' = JobCompleted)
         | _ \<Rightarrow> q_db q' = q_db q \<and> q_cache q' = q_cache q \<and> wj_status job' = JobDead))"
proof -
  obtain job where sel: "select_job (we_now v) (q_jobs q) = Some job" and q': "q' = run_job v job q"
    using assms(1,2) by (auto simp: process_one_job_def split: if_splits option.splits)
  note j = select_job_props [OF sel]
  have named: "job_named (wj_id job) q = Some job" unfolding job_named_def using find_job [OF assms(3)] j by blast
  let ?q1 = "update_job True (wj_id job) (\<lambda>j. j\<lparr>wj_status := JobProcessing\<rparr>) q"
  have n1: "job_named (wj_id job) ?q1 = Some (job\<lparr>wj_status := JobProcessing\<rparr>)"
    by (subst job_named_update) (simp_all add: named)
  have f1: "find (\<lambda>j. wj_id j = wj_id job) (q_jobs ?q1) = Some (job\<lparr>wj_status := JobProcessing\<rparr>)"
    using n1 by (simp add: job_named_def)
  have o1: "i \<noteq> wj_id job \<Longrightarrow> job_named i ?q1 = job_named i q" for i by (subst job_named_update(2)) auto
  note upd = job_named_update [where ok = True, simplified]
  show ?thesis
  proof (cases "wj_article job")
    case None
    then have "q' = update_job True (wj_id job) (\<lambda>j. j\<lparr>wj_status := JobDead, wj_dead := ''parse_error''\<rparr>) ?q1"
      using q' assms(2) by (simp add: run_job_def)
    with None sel show ?thesis by (auto simp: upd n1 o1)
  next
    case (Some a)
    show ?thesis
    proof (cases "job_op (wj_op job)")
      case None
      then have "q' = update_job True (wj_id job) (\<lambda>j. j\<lparr>wj_status := JobDead, wj_dead := ''unknown_op''\<rparr>) ?q1"
        using q' assms(2) Some by (simp add: run_job_def)
      with None Some sel show ?thesis by (auto simp: upd n1 o1)
    next
      case op: (Some op)
      obtain err db where tx: "op_tx (we_tables v) (job_tx_env v job) op a (q_db q) = (err, db)"
        by (cases "op_tx (we_tables v) (job_tx_env v job) op a (q_db q)")
      show ?thesis
      proof (cases err)
        case None
        then have "q' = update_job True (wj_id job) (\<lambda>j. j\<lparr>wj_status := JobCompleted\<rparr>) (preseed_cache v op a (?q1\<lparr>q_db := db\<rparr>))"
          using q' assms(2) Some op tx by (simp add: run_job_def)
        with None Some op tx sel show ?thesis by (auto simp: upd n1 o1)
      next
        case (Some e)
        have "db = q_db q" using tx Some unfolding op_tx_def by (metis run_in_tx_error)
        moreover have "q' = update_job True (wj_id job) (job_after_error (wj_retries job) (we_fail_now v)) (?q1\<lparr>q_db := db\<rparr>)"
          using q' assms(2) \<open>wj_article job = Some a\<close> op tx Some f1 by (simp add: run_job_def)
        ultimately show ?thesis
          using Some \<open>wj_article job = Some a\<close> op tx sel
          by (auto simp: upd n1 o1 job_after_error_def max_backoff_seconds_def)
      qed
    qed
  qed
qed

definition fresh_job :: "string \<Rightarrow> article \<Rightarrow> write_job" where
  "fresh_job op a = \<lparr>wj_id = 1, wj_article = Some a, wj_op = op, wj_status = JobPending, wj_retries = 0, wj_retry_at = None,
     wj_created = fmt_sql 0, wj_replays = 0, wj_dead = [], wj_corr = []\<rparr>"

definition plain_article :: article where
  "plain_article = demo_article\<lparr>ar_tags := []\<rparr>"

definition demo_queue :: "string \<Rightarrow> article \<Rightarrow> content_db \<Rightarrow> wq" where
  "demo_queue op a db = \<lparr>q_jobs = [fresh_job op a], q_next = 2, q_db = db, q_cache = []\<rparr>"

definition demo_worker :: "(wstmt \<Rightarrow> bool) \<Rightarrow> (stmt \<Rightarrow> bool) \<Rightarrow> worker_env" where
  "demo_worker ok tx_ok = \<lparr>we_maintenance = False, we_mode = ModeNormal, we_now = hour, we_fail_now = hour, we_ok = ok, we_tx = tx_ok,
     we_tx_now = hour, we_id1 = ''e3'', we_id2 = ''e4'', we_tables = ascii_tables, we_render = Some (\<lambda>a. Some ''html'')\<rparr>"

lemma demo_queue_ok: "jobs_ok (demo_queue op a db)"
  by (simp add: jobs_ok_def demo_queue_def fresh_job_def)

theorem job_outcome_witness:
  "let r = process_one_job (demo_worker (\<lambda>s. True) (\<lambda>s. s \<noteq> TxCommit)) (demo_queue ''insert'' plain_article empty_db) in
   \<not> fst r \<and> q_db (snd r) = empty_db
   \<and> map_option (\<lambda>j. (wj_status j, wj_retries j)) (job_named 1 (snd r)) = Some (JobPending, 1)"
proof -
  let ?v = "demo_worker (\<lambda>s. True) (\<lambda>s. s \<noteq> TxCommit)" and ?q = "demo_queue ''insert'' plain_article empty_db"
  let ?r = "process_one_job ?v ?q" and ?j = "fresh_job ''insert'' plain_article"
  have "fst ?r = False" by code_simp
  then have r: "?r = (False, snd ?r)" by (metis prod.collapse)
  have sel: "select_job (we_now ?v) (q_jobs ?q) = Some ?j" by (simp add: demo_queue_def select_job_def fresh_job_def retry_due_def)
  have tx: "fst (op_tx ascii_tables (job_tx_env ?v ?j) OpInsert plain_article empty_db) = Some (DbError TxCommit)" by code_simp
  have facts: "we_tables ?v = ascii_tables" "q_db ?q = empty_db" "\<forall>s. we_ok ?v s" by (simp_all add: demo_worker_def demo_queue_def)
  have jf: "wj_id ?j = 1" "wj_article ?j = Some plain_article" "job_op (wj_op ?j) = Some OpInsert" "wj_retries ?j = 0"
    by (simp_all add: fresh_job_def job_op_def)
  obtain db where tx': "op_tx ascii_tables (job_tx_env ?v ?j) OpInsert plain_article empty_db = (Some (DbError TxCommit), db)"
    using tx by (metis prod.collapse)
  have "content_ok (we_tables ?v) (q_db ?q)" unfolding facts by (rule empty_db_ok)
  from job_outcome [OF r facts(3) demo_queue_ok this] show ?thesis
    unfolding facts(1,2) sel option.inject using jf tx' \<open>fst ?r = False\<close> by (auto simp: Let_def)
qed

text \<open>
  A draft is not published through the disk cache. When the worker's read of the row succeeds, the
  only path it can write is that of the job's own slug, and only when the row under that slug is
  published and not a page, or there is no such row.
\<close>

theorem draft_never_cached:
  assumes "process_one_job v q = (e, q')" and "we_ok v ReadStatus" and "map_get (q_cache q') p \<noteq> map_get (q_cache q) p"
  shows "\<exists>job a. select_job (we_now v) (q_jobs q) = Some job \<and> wj_article job = Some a \<and> p = cache_path (ar_slug a)
    \<and> (\<forall>r. article_by_slug (ar_slug a) (q_db q') = Some r \<longrightarrow> aw_status r = published \<and> \<not> aw_is_page r)"
proof -
  have "q' \<noteq> q" using assms(3) by auto
  then obtain job where sel: "select_job (we_now v) (q_jobs q) = Some job" and q': "q' = run_job v job q"
    using assms(1) by (auto simp: process_one_job_def split: if_splits option.splits)
  obtain a where a: "wj_article job = Some a"
    using assms(3) q' by (cases "wj_article job") (auto simp: run_job_def)
  obtain op where op: "job_op (wj_op job) = Some op"
    using assms(3) q' a by (cases "job_op (wj_op job)") (auto simp: run_job_def)
  obtain err db where tx: "op_tx (we_tables v) (job_tx_env v job) op a (q_db q) = (err, db)"
    by (cases "op_tx (we_tables v) (job_tx_env v job) op a (q_db q)")
  have err: "err = None"
    using assms(3) q' a op tx by (cases err) (auto simp: run_job_def Let_def)
  define q1 where "q1 = (update_job (we_ok v MarkProcessing) (wj_id job) (\<lambda>j. j\<lparr>wj_status := JobProcessing\<rparr>) q)\<lparr>q_db := db\<rparr>"
  have e: "q' = update_job (we_ok v MarkCompleted) (wj_id job) (\<lambda>j. j\<lparr>wj_status := JobCompleted\<rparr>) (preseed_cache v op a q1)"
    using q' a op tx err by (simp add: run_job_def q1_def)
  then have "map_get (q_cache (preseed_cache v op a q1)) p \<noteq> map_get (q_cache q1) p" using assms(3) by (simp add: q1_def)
  then have "p = cache_path (ar_slug a) \<and> (\<forall>r. article_by_slug (ar_slug a) (q_db q1) = Some r \<longrightarrow> aw_status r = published \<and> \<not> aw_is_page r)"
    using assms(2) by (auto simp: preseed_cache_def gomap_simps map_get_put split: option.splits if_splits)
  then show ?thesis using sel a e by simp
qed

theorem draft_never_cached_witness:
  "let r = process_one_job (demo_worker (\<lambda>s. True) (\<lambda>s. True)) (demo_queue ''insert'' plain_article empty_db) in
     map_get (q_cache (snd r)) (cache_path ''t'') = Some ''html''
     \<and> (\<forall>x. article_by_slug ''t'' (q_db (snd r)) = Some x \<longrightarrow> aw_status x = published)"
proof -
  let ?v = "demo_worker (\<lambda>s. True) (\<lambda>s. True)" and ?q = "demo_queue ''insert'' plain_article empty_db"
  let ?r = "process_one_job ?v ?q"
  have c: "map_get (q_cache (snd ?r)) (cache_path ''t'') = Some ''html''" by code_simp
  have "select_job (we_now ?v) (q_jobs ?q) = Some (fresh_job ''insert'' plain_article)"
    by (simp add: demo_queue_def select_job_def fresh_job_def retry_due_def)
  moreover have "map_get (q_cache ?q) (cache_path ''t'') = None" by (simp add: demo_queue_def)
  moreover have "?r = (fst ?r, snd ?r)" by simp
  ultimately show ?thesis
    using draft_never_cached [of ?v ?q "fst ?r" "snd ?r" "cache_path ''t''"] c
    by (auto simp: demo_worker_def fresh_job_def plain_article_def demo_article_def Let_def)
qed

text \<open>
  When the read of the row fails, the worker takes it for published: a draft's HTML reaches the public
  cache.
\<close>

lemma draft_cached_on_read_error:
  "let a = plain_article\<lparr>ar_status := ''draft''\<rparr>;
       q = snd (process_one_job (demo_worker (\<lambda>s. s \<noteq> ReadStatus) (\<lambda>s. True)) (demo_queue ''insert'' a empty_db)) in
   map_option aw_status (article_by_slug ''t'' (q_db q)) = Some ''draft'' \<and> map_get (q_cache q) (cache_path ''t'') = Some ''html''"
  by code_simp

text \<open>An update of a post that does not exist is a completed job: its events are sent and its page is cached.\<close>

lemma update_of_missing_completes:
  "let q = snd (process_one_job (demo_worker (\<lambda>s. True) (\<lambda>s. True)) (demo_queue ''update'' plain_article empty_db)) in
   db_articles (q_db q) = [] \<and> length (db_outbox (q_db q)) = 2 \<and> map wj_status (q_jobs q) = [JobCompleted]
   \<and> map_get (q_cache q) (cache_path ''t'') = Some ''html''"
  by code_simp

section \<open>When a failed job is tried again\<close>

text \<open>
  A failed job waits for midnight. Let a job fail at an instant with retries left. Until the UTC
  day of the instant it was to be retried at is over, no worker selects it; from the next midnight on
  it is due. The waits of ten to forty seconds are never kept: retry_at is written with the letter T
  between date and time and compared as text with SQLite's datetime('now'), which has a space there.
\<close>

theorem failed_job_waits_for_midnight:
  assumes "wj_status j \<in> {JobPending, JobProcessing}" "wj_retries j < 3"
    and "0 \<le> now" "now + backoff 300 (wj_retries j) * second < end_of_9999" "0 \<le> later" "later < end_of_9999"
    and "distinct (map wj_id jobs)" and "job_after_error (wj_retries j) now j \<in> set jobs"
  shows "(retry_due later (wj_retry_at (job_after_error (wj_retries j) now j)) \<longleftrightarrow> utc_day (now + backoff 300 (wj_retries j) * second) < utc_day later)
    \<and> (utc_day later \<le> utc_day now \<longrightarrow> (\<forall>k. select_job later jobs = Some k \<longrightarrow> wj_id k \<noteq> wj_id j))"
proof -
  let ?f = "job_after_error (wj_retries j) now j"
  have due: "retry_due later (wj_retry_at ?f) \<longleftrightarrow> utc_day (now + backoff 300 (wj_retries j) * second) < utc_day later"
    using jobq.due_next_day [of j now later] assms(1-6) by (simp add: max_backoff_seconds_def)
  have "0 \<le> backoff 300 (wj_retries j)" by (simp add: backoff_def Let_def)
  then have mono: "utc_day now \<le> utc_day (now + backoff 300 (wj_retries j) * second)"
    unfolding utc_day_def by (intro zdiv_mono1) (auto simp: second_def)
  have "wj_id k \<noteq> wj_id j" if "utc_day later \<le> utc_day now" "select_job later jobs = Some k" for k
  proof
    assume "wj_id k = wj_id j"
    then have "k = ?f" using select_job_props [OF that(2)] assms(7,8) by (auto simp: distinct_map inj_on_def)
    then show False using select_job_props [OF that(2)] due mono that(1) by auto
  qed
  with due show ?thesis by blast
qed

theorem failed_job_waits_for_midnight_witness:
  "let j = fresh_job ''insert'' plain_article; f = job_after_error 0 hour j in
   \<not> retry_due (23 * hour) (wj_retry_at f) \<and> retry_due (24 * hour) (wj_retry_at f) \<and> select_job (23 * hour) [f] \<noteq> Some f"
proof -
  let ?j = "fresh_job ''insert'' plain_article"
  let ?f = "job_after_error (wj_retries ?j) hour ?j"
  have j: "wj_status ?j \<in> {JobPending, JobProcessing}" "wj_retries ?j < 3" "wj_retries ?j = 0" by (simp_all add: fresh_job_def)
  have b: "backoff 300 (wj_retries ?j) = 10" by (simp add: backoff_def fresh_job_def)
  have t: "0 \<le> hour" "hour + backoff 300 (wj_retries ?j) * second < end_of_9999"
    unfolding b by (simp_all add: dur_defs end_of_9999_def)
  have d: "utc_day (hour + 10 * second) = 0" "utc_day (23 * hour) = 0" "utc_day (24 * hour) = 1" "utc_day hour = 0"
    by (simp_all add: utc_day_def dur_defs)
  have jobs: "distinct (map wj_id [?f])" "?f \<in> set [?f]" by simp_all
  have l: "0 \<le> 23 * hour" "23 * hour < end_of_9999" "0 \<le> 24 * hour" "24 * hour < end_of_9999" by (simp_all add: dur_defs end_of_9999_def)
  note a = failed_job_waits_for_midnight [OF j(1,2) t l(1,2) jobs] and b' = failed_job_waits_for_midnight [OF j(1,2) t l(3,4) jobs]
  from a b' show ?thesis unfolding b d by (auto simp: Let_def j(3) [symmetric])
qed

section \<open>Backpressure\<close>

datatype queue_op = QEnqueue mode bool time string article string | QWork worker_env

fun queue_step :: "int \<Rightarrow> queue_op \<Rightarrow> wq \<Rightarrow> wq" where
  "queue_step hard_limit (QEnqueue m insert_ok now corr a op) q = snd (enqueue m hard_limit True insert_ok now corr a op q)"
| "queue_step hard_limit (QWork v) q = snd (process_one_job v q)"

lemma pending_after_set_job:
  assumes "distinct (map wj_id jobs)" and "\<exists>j \<in> set jobs. wj_id j = i \<and> wj_status j = JobPending" and "\<And>j. wj_id (f j) = wj_id j"
  shows "pending_depth (set_job i f jobs) \<le> pending_depth jobs"
  using assms(1,2)
proof (induction jobs)
  case (Cons k jobs)
  show ?case
  proof (cases "wj_id k = i")
    case True
    then have "\<forall>j \<in> set jobs. wj_id j \<noteq> i" using Cons.prems(1) by (metis distinct.simps(2) imageI list.set_map list.simps(9))
    then have "set_job i f jobs = jobs" unfolding set_job_def by (simp add: map_idI)
    moreover have "wj_status k = JobPending" using Cons.prems(2) \<open>\<forall>j \<in> set jobs. wj_id j \<noteq> i\<close> by auto
    ultimately show ?thesis using True by (simp add: set_job_def pending_depth_def)
  next
    case False
    then have "pending_depth (set_job i f jobs) \<le> pending_depth jobs" using Cons by auto
    with False show ?thesis by (simp add: set_job_def pending_depth_def)
  qed
qed simp

text \<open>A run of the worker changes one row, and neither its id nor its replay count.\<close>

lemma update_job_jobs: "q_jobs (update_job ok i f q) = set_job i (if ok then f else id) (q_jobs q)"
  by (simp add: update_job_def set_job_def map_idI)

lemma set_job_twice: "(\<And>j. wj_id (f j) = wj_id j) \<Longrightarrow> set_job i g (set_job i f jobs) = set_job i (g \<circ> f) jobs"
  by (simp add: set_job_def)

definition row_update :: "(write_job \<Rightarrow> write_job) \<Rightarrow> bool" where
  "row_update f \<longleftrightarrow> (\<forall>j. wj_id (f j) = wj_id j \<and> wj_replays (f j) = wj_replays j)"

lemma row_update_comp: "row_update f \<Longrightarrow> row_update g \<Longrightarrow> row_update (g \<circ> f)"
  by (simp add: row_update_def)

lemma row_updates:
  "row_update id" "row_update (\<lambda>j. j\<lparr>wj_status := st\<rparr>)" "row_update (\<lambda>j. j\<lparr>wj_status := st, wj_dead := d\<rparr>)"
  "row_update (job_after_error n now)" "row_update f \<Longrightarrow> row_update (if ok then f else id)"
  by (simp_all add: row_update_def job_after_error_def)

lemma run_job_row: "\<exists>h. row_update h \<and> q_jobs (run_job v job q) = set_job (wj_id job) h (q_jobs q)"
proof -
  define q1 where "q1 = update_job (we_ok v MarkProcessing) (wj_id job) (\<lambda>j. j\<lparr>wj_status := JobProcessing\<rparr>) q"
  let ?f = "if we_ok v MarkProcessing then (\<lambda>j. j\<lparr>wj_status := JobProcessing\<rparr>) else id"
  have f: "row_update ?f" by (intro row_updates)
  have q1: "q_jobs q1 = set_job (wj_id job) ?f (q_jobs q)" by (simp add: q1_def update_job_jobs)
  obtain ok g where g': "row_update g" "q_jobs (run_job v job q) = set_job (wj_id job) (if ok then g else id) (q_jobs q1)"
  proof (cases "wj_article job")
    case None
    then show ?thesis
      by (intro that [OF row_updates(3) [where st = JobDead and d = "''parse_error''"], of "we_ok v MarkDead"]) (simp add: run_job_def q1_def [symmetric] update_job_jobs)
  next
    case a: (Some a)
    show ?thesis
    proof (cases "job_op (wj_op job)")
      case None
      with a show ?thesis
        by (intro that [OF row_updates(3) [where st = JobDead and d = "''unknown_op''"], of "we_ok v MarkDead"]) (simp add: run_job_def q1_def [symmetric] update_job_jobs)
    next
      case op: (Some op)
      obtain err db where tx: "op_tx (we_tables v) (job_tx_env v job) op a (q_db q1) = (err, db)"
        by (cases "op_tx (we_tables v) (job_tx_env v job) op a (q_db q1)")
      show ?thesis
      proof (cases err)
        case None
        with a op tx show ?thesis
          by (intro that [OF row_updates(2) [where st = JobCompleted], of "we_ok v MarkCompleted"]) (simp add: run_job_def q1_def [symmetric] update_job_jobs)
      next
        case (Some e)
        let ?n = "if we_ok v ReadRetries then (case find (\<lambda>j. wj_id j = wj_id job) (q_jobs q1) of None \<Rightarrow> 0 | Some j \<Rightarrow> wj_retries j) else 0"
        have "run_job v job q = update_job (we_ok v (if ?n < 3 then MarkRetry else MarkDead)) (wj_id job)
            (job_after_error ?n (we_fail_now v)) (q1\<lparr>q_db := db\<rparr>)"
          using Some a op tx by (simp only: run_job_def q1_def [symmetric] Let_def option.case prod.case)
        moreover have qj: "q_jobs (q1\<lparr>q_db := db\<rparr>) = q_jobs q1" by simp
        ultimately show ?thesis
          by (intro that [OF row_updates(4) [where n = ?n and now = "we_fail_now v"], of "we_ok v (if ?n < 3 then MarkRetry else MarkDead)"]) (simp only: update_job_jobs qj)
      qed
    qed
  qed
  define g2 where "g2 = (if ok then g else id)"
  have g: "row_update g2" "q_jobs (run_job v job q) = set_job (wj_id job) g2 (q_jobs q1)"
    using g' row_updates(1) by (simp_all add: g2_def)
  have "set_job (wj_id job) g2 (set_job (wj_id job) ?f (q_jobs q)) = set_job (wj_id job) (g2 \<circ> ?f) (q_jobs q)"
    using f by (intro set_job_twice) (simp add: row_update_def)
  then show ?thesis using g q1 row_update_comp [OF f g(1)] by metis
qed

lemma process_row:
  assumes "process_one_job v q = (e, q')"
  shows "q' = q \<or> (\<exists>job h. job \<in> set (q_jobs q) \<and> wj_status job = JobPending \<and> row_update h
    \<and> q_jobs q' = set_job (wj_id job) h (q_jobs q) \<and> q_next q' = q_next q)"
proof (cases "q' = q")
  case False
  then obtain job where sel: "select_job (we_now v) (q_jobs q) = Some job" and q': "q' = run_job v job q"
    using assms by (auto simp: process_one_job_def split: if_splits option.splits)
  have "q_next (run_job v job q) = q_next q"
    by (auto simp: run_job_def Let_def split: option.split prod.split)
  with select_job_props [OF sel] run_job_row [of v job q] q' show ?thesis by blast
qed simp

lemma set_job_keys:
  assumes "row_update h"
  shows "map wj_id (set_job i h jobs) = map wj_id jobs"
  using assms by (simp add: set_job_def row_update_def)

lemma jobs_ok_ids: "map wj_id (q_jobs q') = map wj_id (q_jobs q) \<Longrightarrow> q_next q' = q_next q \<Longrightarrow> jobs_ok q \<Longrightarrow> jobs_ok q'"
  unfolding jobs_ok_def by (metis (no_types, lifting) imageE imageI list.set_map)

lemma enqueue_rows: "\<exists>extra. q_jobs (snd (enqueue m l c i now corr a op q)) = q_jobs q @ extra \<and> (\<forall>j \<in> set extra. wj_replays j = 0)"
  by (auto simp: enqueue_def)

lemma enqueue_ok: "jobs_ok q \<Longrightarrow> jobs_ok (snd (enqueue m l c i now corr a op q))"
  by (auto simp: enqueue_def jobs_ok_def)

lemma process_ok: "jobs_ok q \<Longrightarrow> jobs_ok (snd (process_one_job v q))"
  using process_row [of v q "fst (process_one_job v q)" "snd (process_one_job v q)"] jobs_ok_ids set_job_keys by (metis prod.collapse)

text \<open>
  Backpressure. Let every enqueue read the depth of the queue and let any workers run in between,
  whatever fails. If the pending jobs start within the hard limit they stay within it: a retried job
  goes back to a place it held.
\<close>

theorem pending_within_hard_limit:
  assumes "jobs_ok q" and "0 < hard_limit" and "int (pending_depth (q_jobs q)) \<le> hard_limit"
  shows "int (pending_depth (q_jobs (fold (queue_step hard_limit) ops q))) \<le> hard_limit"
proof -
  have "jobs_ok (fold (queue_step hard_limit) ops q) \<and> int (pending_depth (q_jobs (fold (queue_step hard_limit) ops q))) \<le> hard_limit"
    using assms(1,3)
  proof (induction ops arbitrary: q)
    case (Cons op ops)
    have "jobs_ok (queue_step hard_limit op q) \<and> int (pending_depth (q_jobs (queue_step hard_limit op q))) \<le> hard_limit"
    proof (cases op)
      case (QEnqueue m insert_ok now corr a j)
      with Cons.prems enqueue_ok [OF Cons.prems(1)] show ?thesis
        using assms(2) by (auto simp: enqueue_def pending_depth_def)
    next
      case (QWork v)
      obtain e q' where p: "process_one_job v q = (e, q')" by (cases "process_one_job v q")
      have "pending_depth (q_jobs q') \<le> pending_depth (q_jobs q)"
        using process_row [OF p]
      proof (elim disjE exE conjE)
        fix job h assume "job \<in> set (q_jobs q)" "wj_status job = JobPending" "row_update h" "q_jobs q' = set_job (wj_id job) h (q_jobs q)"
        then show ?thesis
          using Cons.prems(1) pending_after_set_job [of "q_jobs q" "wj_id job" h] by (auto simp: jobs_ok_def row_update_def)
      qed simp
      with QWork Cons.prems p process_ok [OF Cons.prems(1), of v] show ?thesis by simp
    qed
    with Cons.IH show ?case by simp
  qed simp
  then show ?thesis by blast
qed

theorem pending_within_hard_limit_witness:
  "int (pending_depth (q_jobs (fold (queue_step 1)
     [QEnqueue ModeNormal True hour [] plain_article ''insert'', QWork (demo_worker (\<lambda>s. True) (\<lambda>s. False)),
      QEnqueue ModeNormal True hour [] plain_article ''insert''] (demo_queue ''insert'' plain_article empty_db)))) \<le> 1"
proof -
  have "int (pending_depth (q_jobs (demo_queue ''insert'' plain_article empty_db))) \<le> 1"
    by (simp add: pending_depth_def demo_queue_def)
  with pending_within_hard_limit [OF demo_queue_ok zero_less_one] show ?thesis .
qed

section \<open>Poison jobs\<close>

lemma split_replay_ids:
  "split_replay m b js (qs, rs) = (qs', rs') \<Longrightarrow>
   (\<forall>i \<in> set rs'. i \<in> set rs \<or> (\<exists>j \<in> set js. wj_id j = i \<and> wj_replays j < m))
   \<and> (\<forall>i \<in> set qs'. i \<in> set qs \<or> (\<exists>j \<in> set js. wj_id j = i \<and> m \<le> wj_replays j))"
proof (induction js arbitrary: qs rs)
  case (Cons j js)
  then consider "split_replay m b js (qs @ [wj_id j], rs) = (qs', rs')" "m \<le> wj_replays j"
    | "split_replay m b js (qs, rs @ [wj_id j]) = (qs', rs')" "wj_replays j < m"
    | "split_replay m b js (qs, rs) = (qs', rs')"
    by (auto split: if_splits)
  then show ?case
  proof cases
    case 1
    with Cons.IH [OF 1(1)] show ?thesis by auto
  next
    case 2
    with Cons.IH [OF 2(1)] show ?thesis by auto
  next
    case 3
    with Cons.IH [OF 3] show ?thesis by auto
  qed
qed simp

lemma fold_set_job:
  assumes "\<And>j. wj_id (f j) = wj_id j" and "\<And>j. f (f j) = f j"
  shows "fold (\<lambda>i js. if ok i then set_job i f js else js) is jobs = map (\<lambda>j. if ok (wj_id j) \<and> wj_id j \<in> set is then f j else j) jobs"
proof (induction "is" arbitrary: jobs)
  case (Cons i "is")
  have "fold (\<lambda>i js. if ok i then set_job i f js else js) (i # is) jobs
      = map (\<lambda>j. if ok (wj_id j) \<and> wj_id j \<in> set is then f j else j) (if ok i then set_job i f jobs else jobs)"
    using Cons.IH by simp
  also have "\<dots> = map (\<lambda>j. if ok (wj_id j) \<and> wj_id j \<in> set (i # is) then f j else j) jobs"
    using assms by (auto simp: set_job_def)
  finally show ?case .
qed (simp add: map_idI)

text \<open>What the batch replay does to each row.\<close>

lemma queue_replay_row:
  assumes "jobs_ok q"
  obtains Q R where "q_jobs (queue_replay ok m b q) =
      map (\<lambda>j. let j1 = (if Q (wj_id j) then j\<lparr>wj_status := JobQuarantined\<rparr> else j) in if R (wj_id j) then replay_job j1 else j1) (q_jobs q)"
    "\<forall>j \<in> set (q_jobs q). Q (wj_id j) \<longrightarrow> wj_status j = JobDead"
    "\<forall>j \<in> set (q_jobs q). R (wj_id j) \<longrightarrow> wj_replays j < m"
proof -
  let ?dead = "take (b + 50) (filter (\<lambda>j. wj_status j = JobDead) (q_jobs q))"
  obtain qs rs where sp: "split_replay m b ?dead ([], []) = (qs, rs)" by (cases "split_replay m b ?dead ([], [])")
  note ids = split_replay_ids [OF sp]
  have in_dead: "j \<in> set (q_jobs q)" "wj_status j = JobDead" if "j \<in> set ?dead" for j using that by (auto dest: in_set_takeD)
  have same: "j = k" if "j \<in> set (q_jobs q)" "k \<in> set (q_jobs q)" "wj_id j = wj_id k" for j k
    using assms that by (auto simp: jobs_ok_def distinct_map inj_on_def)
  have rj: "fold (\<lambda>i js. if ok i then set_job i replay_job js else js) is jobs
      = map (\<lambda>j. if ok (wj_id j) \<and> wj_id j \<in> set is then replay_job j else j) jobs" for "is" jobs
    by (rule fold_set_job) (simp_all add: replay_job_def)
  have qj: "fold (\<lambda>i js. if ok i then set_job i (\<lambda>j. j\<lparr>wj_status := JobQuarantined\<rparr>) js else js) is jobs
      = map (\<lambda>j. if ok (wj_id j) \<and> wj_id j \<in> set is then j\<lparr>wj_status := JobQuarantined\<rparr> else j) jobs" for "is" jobs
    by (rule fold_set_job) simp_all
  have e: "q_jobs (queue_replay ok m b q) = map (\<lambda>j. let j1 = (if ok (wj_id j) \<and> wj_id j \<in> set qs then j\<lparr>wj_status := JobQuarantined\<rparr> else j) in
      if ok (wj_id j) \<and> wj_id j \<in> set rs then replay_job j1 else j1) (q_jobs q)"
    unfolding queue_replay_def Let_def sp prod.case
    unfolding rj qj map_map by (simp add: comp_def)
  have "\<exists>k \<in> set ?dead. wj_id k = i" if "i \<in> set qs" for i using ids that by auto
  then have "\<forall>j \<in> set (q_jobs q). ok (wj_id j) \<and> wj_id j \<in> set qs \<longrightarrow> wj_status j = JobDead" using in_dead same by metis
  moreover have "\<exists>k \<in> set ?dead. wj_id k = i \<and> wj_replays k < m" if "i \<in> set rs" for i using ids that by auto
  then have "\<forall>j \<in> set (q_jobs q). ok (wj_id j) \<and> wj_id j \<in> set rs \<longrightarrow> wj_replays j < m" using in_dead same by metis
  ultimately show ?thesis by (rule that [OF e])
qed

datatype queue_event =
    QOp int queue_op | QReplay "int \<Rightarrow> bool" nat | QReplayOne int | QReap time | QRecover

fun event_step :: "nat \<Rightarrow> queue_event \<Rightarrow> wq \<Rightarrow> wq" where
  "event_step m (QOp l op) q = queue_step l op q"
| "event_step m (QReplay ok batch) q = queue_replay ok m batch q"
| "event_step m (QReplayOne i) q = replay_one i q"
| "event_step m (QReap now) q = reap_stuck now q"
| "event_step m QRecover q = recover_processing q"

fun is_replay_one :: "queue_event \<Rightarrow> bool" where
  "is_replay_one (QReplayOne i) = True"
| "is_replay_one _ = False"

text \<open>Every event but an enqueue maps the rows, keeping ids and quarantined rows.\<close>

definition keeps_rows :: "(write_job \<Rightarrow> write_job) \<Rightarrow> write_job list \<Rightarrow> bool" where
  "keeps_rows f js \<longleftrightarrow> (\<forall>j \<in> set js. wj_id (f j) = wj_id j \<and> (wj_status j = JobQuarantined \<longrightarrow> f j = j))"

lemma event_rows:
  assumes "jobs_ok q"
  shows "\<exists>f extra. q_jobs (event_step m e q) = map f (q_jobs q) @ extra \<and> keeps_rows f (q_jobs q) \<and> jobs_ok (event_step m e q)
    \<and> (\<forall>j \<in> set extra. wj_replays j = 0)
    \<and> (\<not> is_replay_one e \<longrightarrow> (\<forall>j \<in> set (q_jobs q). wj_replays (f j) \<le> max m (wj_replays j)))"
proof -
  have mapped: ?thesis if "q_jobs (event_step m e q) = map f (q_jobs q)" "keeps_rows f (q_jobs q)" "q_next (event_step m e q) = q_next q"
    "\<not> is_replay_one e \<longrightarrow> (\<forall>j \<in> set (q_jobs q). wj_replays (f j) \<le> max m (wj_replays j))" for f
  proof -
    have "map wj_id (q_jobs (event_step m e q)) = map wj_id (q_jobs q)" using that(1,2) by (auto simp: keeps_rows_def)
    then have "jobs_ok (event_step m e q)" using that(3) assms by (rule jobs_ok_ids)
    then show ?thesis using that by (intro exI [of _ f] exI [of _ "[]"]) simp
  qed
  have id_rows: "keeps_rows (\<lambda>j. j) (q_jobs q)" by (simp add: keeps_rows_def)
  show ?thesis
  proof (cases e)
    case (QOp l op)
    show ?thesis
    proof (cases op)
      case (QEnqueue mo ins now corr a o')
      have ok: "jobs_ok (event_step m e q)" using QOp QEnqueue enqueue_ok [OF assms] by simp
      obtain extra where "q_jobs (event_step m e q) = q_jobs q @ extra" "\<forall>j \<in> set extra. wj_replays j = 0"
        using QOp QEnqueue enqueue_rows [of mo l True ins now corr a o' q] by auto
      then show ?thesis using ok id_rows by (intro exI [of _ "\<lambda>j. j"] exI [of _ extra]) simp
    next
      case (QWork v)
      obtain x q' where p: "process_one_job v q = (x, q')" by (cases "process_one_job v q")
      have st: "event_step m e q = q'" using QOp QWork p by simp
      from process_row [OF p] show ?thesis
      proof (elim disjE exE conjE)
        assume "q' = q"
        then show ?thesis using st id_rows by (intro mapped [of "\<lambda>j. j"]) simp_all
      next
        fix job h assume j: "job \<in> set (q_jobs q)" "wj_status job = JobPending" and h: "row_update h"
          and q': "q_jobs q' = set_job (wj_id job) h (q_jobs q)" "q_next q' = q_next q"
        have "k = job" if "k \<in> set (q_jobs q)" "wj_id k = wj_id job" for k
          using assms that j(1) by (auto simp: jobs_ok_def distinct_map inj_on_def)
        then have "keeps_rows (\<lambda>j. if wj_id j = wj_id job then h j else j) (q_jobs q)"
          using j(2) h by (fastforce simp: keeps_rows_def row_update_def)
        then show ?thesis
          using st q' h by (intro mapped [of "\<lambda>j. if wj_id j = wj_id job then h j else j"]) (simp_all add: set_job_def row_update_def)
      qed
    qed
  next
    case (QReplay ok b)
    obtain Q R where r: "q_jobs (queue_replay ok m b q) =
        map (\<lambda>j. let j1 = (if Q (wj_id j) then j\<lparr>wj_status := JobQuarantined\<rparr> else j) in if R (wj_id j) then replay_job j1 else j1) (q_jobs q)"
      and Q: "\<forall>j \<in> set (q_jobs q). Q (wj_id j) \<longrightarrow> wj_status j = JobDead"
      and R: "\<forall>j \<in> set (q_jobs q). R (wj_id j) \<longrightarrow> wj_replays j < m"
      by (rule queue_replay_row [OF assms, of ok m b])
    have n: "q_next (queue_replay ok m b q) = q_next q" by (simp add: queue_replay_def Let_def split: prod.split)
    have "q_jobs (event_step m e q) =
        map (\<lambda>j. let j1 = (if Q (wj_id j) then j\<lparr>wj_status := JobQuarantined\<rparr> else j) in if R (wj_id j) then replay_job j1 else j1) (q_jobs q)"
      using r QReplay by simp
    then show ?thesis
      by (rule mapped) (use Q R n QReplay in \<open>auto simp: keeps_rows_def replay_job_def Let_def\<close>)
  next
    case (QReplayOne i)
    then show ?thesis
      by (intro mapped [of "\<lambda>j. if wj_id j = i then replay_job j else j"]) (simp_all add: replay_one_def set_job_def keeps_rows_def replay_job_def)
  next
    case (QReap now)
    then show ?thesis
      by (intro mapped [of "\<lambda>j. if wj_status j = JobProcessing \<and> wj_created j < fmt_sql (now - 5 * minute) then j\<lparr>wj_status := JobPending\<rparr> else j"])
        (simp_all add: reap_stuck_def keeps_rows_def)
  next
    case QRecover
    then show ?thesis
      by (intro mapped [of "\<lambda>j. if wj_status j = JobProcessing then j\<lparr>wj_status := JobPending\<rparr> else j"]) (simp_all add: recover_processing_def keeps_rows_def)
  qed
qed

text \<open>
  Poison jobs are contained. Whatever enqueues, workers, replays, reaps and restarts happen in
  whatever order, a quarantined job never changes again; and as long as jobs are replayed in batches,
  no job is replayed more often than the configured maximum.
\<close>

theorem poison_jobs_contained:
  assumes "jobs_ok q" and "\<forall>j \<in> set (q_jobs q). wj_replays j \<le> m"
  shows "(\<forall>j \<in> set (q_jobs q). wj_status j = JobQuarantined \<longrightarrow> j \<in> set (q_jobs (fold (event_step m) evs q)))
    \<and> (list_all (\<lambda>e. \<not> is_replay_one e) evs \<longrightarrow> (\<forall>j \<in> set (q_jobs (fold (event_step m) evs q)). wj_replays j \<le> m))"
proof -
  have kept: "\<forall>j \<in> set (q_jobs q). wj_status j = JobQuarantined \<longrightarrow> j \<in> set (q_jobs (fold (event_step m) evs q))"
    using assms(1)
  proof (induction evs arbitrary: q)
    case (Cons e evs)
    from event_rows [OF Cons.prems, of m e] obtain f extra where
      r: "q_jobs (event_step m e q) = map f (q_jobs q) @ extra" "keeps_rows f (q_jobs q)" and ok: "jobs_ok (event_step m e q)" by blast
    have "\<forall>j \<in> set (q_jobs q). wj_status j = JobQuarantined \<longrightarrow> j \<in> set (q_jobs (event_step m e q))"
    proof (intro ballI impI)
      fix j assume "j \<in> set (q_jobs q)" "wj_status j = JobQuarantined"
      then have "f j = j" using r(2) by (auto simp: keeps_rows_def)
      then show "j \<in> set (q_jobs (event_step m e q))" unfolding r(1) using \<open>j \<in> set (q_jobs q)\<close> by force
    qed
    with Cons.IH [OF ok] show ?case by simp
  qed simp
  have "\<forall>j \<in> set (q_jobs (fold (event_step m) evs q)). wj_replays j \<le> m" if "list_all (\<lambda>e. \<not> is_replay_one e) evs"
    using assms that
  proof (induction evs arbitrary: q)
    case (Cons e evs)
    from event_rows [OF Cons.prems(1), of m e] obtain f extra where
      r: "q_jobs (event_step m e q) = map f (q_jobs q) @ extra" "\<forall>j \<in> set extra. wj_replays j = 0" and ok: "jobs_ok (event_step m e q)"
      and b: "\<not> is_replay_one e \<longrightarrow> (\<forall>j \<in> set (q_jobs q). wj_replays (f j) \<le> max m (wj_replays j))" by blast
    have "\<forall>j \<in> set (q_jobs (event_step m e q)). wj_replays j \<le> m"
      unfolding r(1) using r(2) b Cons.prems(2,3) by fastforce
    with Cons.IH [OF ok] Cons.prems(3) show ?case by simp
  qed simp
  with kept show ?thesis by blast
qed

theorem poison_jobs_contained_witness:
  "let j = (fresh_job ''insert'' plain_article)\<lparr>wj_status := JobDead, wj_replays := 1\<rparr>;
       q = \<lparr>q_jobs = [j], q_next = 2, q_db = empty_db, q_cache = []\<rparr>;
       q1 = event_step 1 (QReplay (\<lambda>i. True) 100) q;
       q2 = fold (event_step 1) [QReplayOne 1, QReap hour, QRecover, QReplay (\<lambda>i. True) 100] q1 in
   q_jobs q1 = [j\<lparr>wj_status := JobQuarantined\<rparr>] \<and> j\<lparr>wj_status := JobQuarantined\<rparr> \<in> set (q_jobs q2)"
proof -
  let ?j = "(fresh_job ''insert'' plain_article)\<lparr>wj_status := JobDead, wj_replays := 1\<rparr>"
  let ?q = "\<lparr>q_jobs = [?j], q_next = 2, q_db = empty_db, q_cache = []\<rparr>"
  let ?q1 = "event_step 1 (QReplay (\<lambda>i. True) 100) ?q"
  have q1: "q_jobs ?q1 = [?j\<lparr>wj_status := JobQuarantined\<rparr>]"
    by (simp add: queue_replay_def set_job_def fresh_job_def Let_def)
  have "jobs_ok ?q1" unfolding jobs_ok_def q1 by (simp add: queue_replay_def Let_def fresh_job_def)
  moreover have "\<forall>j \<in> set (q_jobs ?q1). wj_replays j \<le> 1" unfolding q1 by simp
  ultimately have "\<forall>j \<in> set (q_jobs ?q1). wj_status j = JobQuarantined \<longrightarrow>
      j \<in> set (q_jobs (fold (event_step 1) [QReplayOne 1, QReap hour, QRecover, QReplay (\<lambda>i. True) 100] ?q1))"
    using poison_jobs_contained by blast
  then show ?thesis using q1 by (simp only: Let_def) simp
qed

text \<open>
  The replay of a single job does not look at the replay count: with a maximum of one replay, a dead
  letter replayed once is replayed again.
\<close>

lemma replay_one_exceeds_maximum:
  "let j = (fresh_job ''insert'' plain_article)\<lparr>wj_status := JobDead, wj_replays := 1\<rparr> in
   map wj_replays (q_jobs (event_step 1 (QReplayOne 1) \<lparr>q_jobs = [j], q_next = 2, q_db = empty_db, q_cache = []\<rparr>)) = [2]"
  by (simp add: replay_one_def set_job_def replay_job_def fresh_job_def)

text \<open>
  The reaper goes by the age of the job, not by how long it has been in progress: a job enqueued six
  minutes ago and taken by a worker just now is put back to pending while that worker is on it.
\<close>

lemma reaper_resets_running_job:
  "let q = (demo_queue ''insert'' plain_article empty_db)\<lparr>q_jobs := [(fresh_job ''insert'' plain_article)\<lparr>wj_status := JobProcessing\<rparr>]\<rparr> in
   map wj_status (q_jobs (reap_stuck (6 * minute) q)) = [JobPending]"
  by code_simp

text \<open>
  Selecting a job and marking it are two statements. When two workers select the same insert before
  either marks it, the second finds the post already there and puts the completed job back to pending.
\<close>

lemma two_workers_one_job:
  "let q = demo_queue ''insert'' plain_article empty_db; job = fresh_job ''insert'' plain_article; v = demo_worker (\<lambda>s. True) (\<lambda>s. True);
       q2 = run_job v job (run_job v job q) in
   length (db_articles (q_db q2)) = 1 \<and> map wj_status (q_jobs q2) = [JobPending]"
  by code_simp

section \<open>The retention sweep\<close>

lemma delete_limit_filter: "filter (\<lambda>x. \<not> p x) (snd (delete_limit p n xs)) = filter (\<lambda>x. \<not> p x) xs"
  by (induction p n xs rule: delete_limit.induct) (auto split: prod.splits)

lemma delete_limit_count: "length (filter p (snd (delete_limit p n xs))) = length (filter p xs) - n"
proof (induction p n xs rule: delete_limit.induct)
  case (2 p n x xs)
  then show ?case by (cases "p x \<and> 0 < n") (auto split: prod.splits)
qed simp

declare prune_loop.simps [simp del]

lemma prune_loop_keeps: "filter (\<lambda>x. \<not> p x) (snd (snd (prune_loop ok k p tot xs))) = filter (\<lambda>x. \<not> p x) xs"
proof (induction ok k p tot xs rule: prune_loop.induct)
  case (1 ok k p tot xs)
  then show ?case
    using delete_limit_filter [of p prune_batch xs] by (subst prune_loop.simps) auto
qed

lemma prune_loop_all:
  assumes "\<forall>k. ok k"
  shows "prune_loop ok k p tot xs = (True, tot + length (filter p xs), filter (\<lambda>x. \<not> p x) xs)"
  using assms
proof (induction ok k p tot xs rule: prune_loop.induct)
  case (1 ok k p tot xs)
  define n ys where "n = fst (delete_limit p prune_batch xs)" and "ys = snd (delete_limit p prune_batch xs)"
  have f: "filter (\<lambda>x. \<not> p x) ys = filter (\<lambda>x. \<not> p x) xs" and c: "length (filter p ys) = length (filter p xs) - prune_batch"
    and n: "n = min prune_batch (length (filter p xs))"
    using delete_limit_filter [of p prune_batch xs] delete_limit_count [of p prune_batch xs] by (simp_all add: n_def ys_def delete_limit_spec)
  show ?case
  proof (cases "n < prune_batch")
    case True
    then have "filter p ys = []" using c n by simp
    then have "filter (\<lambda>x. \<not> p x) ys = ys" by (simp add: filter_empty_conv filter_id_conv)
    moreover have "n = length (filter p xs)" using True n by linarith
    moreover have "prune_loop ok k p tot xs = (True, tot + n, ys)"
      using 1(2) True by (subst prune_loop.simps) (simp add: n_def [symmetric] ys_def [symmetric])
    ultimately show ?thesis using f by simp
  next
    case False
    have "prune_loop ok (Suc k) p (tot + n) ys = (True, tot + n + length (filter p ys), filter (\<lambda>x. \<not> p x) ys)"
      unfolding n_def ys_def by (rule 1(1)) (use 1(2) False in \<open>auto simp: n_def\<close>)
    moreover have "prune_loop ok k p tot xs = prune_loop ok (Suc k) p (tot + n) ys"
      using 1(2) False by (subst prune_loop.simps) (simp add: n_def [symmetric] ys_def [symmetric])
    moreover have "n + length (filter p ys) = length (filter p xs)" using False n c by linarith
    ultimately show ?thesis using f by simp
  qed
qed

definition old_done :: "int \<Rightarrow> time \<Rightarrow> write_job \<Rightarrow> bool" where
  "old_done hours now j \<longleftrightarrow> wj_status j = JobCompleted \<and> wj_created j < fmt_sql (now - (if hours \<le> 0 then 24 else hours) * hour)"

definition old_dead :: "int \<Rightarrow> time \<Rightarrow> write_job \<Rightarrow> bool" where
  "old_dead days now j \<longleftrightarrow> (wj_status j = JobDead \<or> wj_status j = JobQuarantined) \<and> wj_created j < fmt_sql (now - (if days \<le> 0 then 7 else days) * 24 * hour)"

text \<open>
  The retention sweep ends and removes what it should. Batch after batch it terminates; when no
  statement fails it has removed exactly the completed jobs older than the retention (24 hours when
  none is configured) and the dead letters and quarantined jobs older than theirs (seven days), and
  counted them; and whatever fails, no pending or processing job is removed.
\<close>

theorem retention_sweep:
  "((\<forall>k. ok1 k \<and> ok2 k) \<longrightarrow> prune_write_jobs ok1 ok2 hours days now q =
      ((True, length (filter (\<lambda>j. old_done hours now j \<or> old_dead days now j) (q_jobs q))),
       q\<lparr>q_jobs := filter (\<lambda>j. \<not> old_done hours now j \<and> \<not> old_dead days now j) (q_jobs q)\<rparr>))
   \<and> filter (\<lambda>j. wj_status j = JobPending \<or> wj_status j = JobProcessing) (q_jobs (snd (prune_write_jobs ok1 ok2 hours days now q)))
      = filter (\<lambda>j. wj_status j = JobPending \<or> wj_status j = JobProcessing) (q_jobs q)"
proof -
  let ?p = "old_done hours now" and ?r = "old_dead days now"
  let ?live = "\<lambda>j. wj_status j = JobPending \<or> wj_status j = JobProcessing"
  obtain d1 n1 js where a: "prune_loop ok1 0 ?p 0 (q_jobs q) = (d1, n1, js)" by (metis prod.collapse)
  obtain d2 n2 ks where b: "prune_loop ok2 0 ?r 0 js = (d2, n2, ks)" by (metis prod.collapse)
  have e: "prune_write_jobs ok1 ok2 hours days now q = (if \<not> d1 then ((False, n1), q\<lparr>q_jobs := js\<rparr>) else ((d2, n1 + n2), q\<lparr>q_jobs := ks\<rparr>))"
    using a b unfolding prune_write_jobs_def Let_def old_done_def old_dead_def by simp
  have kj: "filter (\<lambda>j. \<not> ?p j) js = filter (\<lambda>j. \<not> ?p j) (q_jobs q)" and kk: "filter (\<lambda>j. \<not> ?r j) ks = filter (\<lambda>j. \<not> ?r j) js"
    using prune_loop_keeps [of ?p ok1 0 0 "q_jobs q"] prune_loop_keeps [of ?r ok2 0 0 js] a b by simp_all
  have live: "filter ?live xs = filter ?live ys" if "filter (\<lambda>j. \<not> P j) xs = filter (\<lambda>j. \<not> P j) ys" "\<And>j. ?live j \<Longrightarrow> \<not> P j" for P and xs ys :: "write_job list"
  proof -
    have e: "filter ?live (filter (\<lambda>j. \<not> P j) zs) = filter ?live zs" for zs
      unfolding filter_filter by (rule filter_cong [OF refl]) (use that(2) in blast)
    show ?thesis using e [of xs] e [of ys] unfolding that(1) by simp
  qed
  have l: "filter ?live js = filter ?live (q_jobs q)" "filter ?live ks = filter ?live js"
    by (rule live [OF kj], auto simp: old_done_def) (rule live [OF kk], auto simp: old_dead_def)
  have count: "length (filter (\<lambda>j. ?p j \<or> ?r j) xs) = length (filter ?p xs) + length (filter ?r (filter (\<lambda>j. \<not> ?p j) xs))" for xs
    by (induction xs) auto
  have "prune_write_jobs ok1 ok2 hours days now q =
      ((True, length (filter (\<lambda>j. ?p j \<or> ?r j) (q_jobs q))), q\<lparr>q_jobs := filter (\<lambda>j. \<not> ?p j \<and> \<not> ?r j) (q_jobs q)\<rparr>)" if "\<forall>k. ok1 k \<and> ok2 k"
  proof -
    from that prune_loop_all [of ok1 0 ?p 0 "q_jobs q"] a have A: "d1" "n1 = length (filter ?p (q_jobs q))" "js = filter (\<lambda>j. \<not> ?p j) (q_jobs q)" by auto
    from that prune_loop_all [of ok2 0 ?r 0 js] b have B: "d2" "n2 = length (filter ?r js)" "ks = filter (\<lambda>j. \<not> ?r j) js" by auto
    show ?thesis using e A B count by simp
  qed
  then show ?thesis using e l by simp
qed

theorem retention_sweep_witness:
  "let j = fresh_job ''insert'' plain_article; q = \<lparr>q_jobs = [j, j\<lparr>wj_id := 2, wj_status := JobCompleted\<rparr>], q_next = 3, q_db = empty_db, q_cache = []\<rparr> in
   prune_write_jobs (\<lambda>k. True) (\<lambda>k. True) 0 0 (48 * hour) q = ((True, 1), q\<lparr>q_jobs := [j]\<rparr>)"
proof -
  let ?j = "fresh_job ''insert'' plain_article"
  let ?q = "\<lparr>q_jobs = [?j, ?j\<lparr>wj_id := 2, wj_status := JobCompleted\<rparr>], q_next = 3, q_db = empty_db, q_cache = []\<rparr>"
  have l: "fmt_sql 0 < fmt_sql (48 * hour - 24 * hour)"
    by (subst fmt_sql_less_iff) (simp_all add: dur_defs end_of_9999_def)
  have "prune_write_jobs (\<lambda>k. True) (\<lambda>k. True) 0 0 (48 * hour) ?q =
      ((True, length (filter (\<lambda>j. old_done 0 (48 * hour) j \<or> old_dead 0 (48 * hour) j) (q_jobs ?q))),
       ?q\<lparr>q_jobs := filter (\<lambda>j. \<not> old_done 0 (48 * hour) j \<and> \<not> old_dead 0 (48 * hour) j) (q_jobs ?q)\<rparr>)"
    using retention_sweep [of "\<lambda>k. True" "\<lambda>k. True" 0 0 "48 * hour" ?q] by simp
  then show ?thesis using l by (simp add: old_done_def old_dead_def fresh_job_def Let_def)
qed

end
