(* ===== verification/Outbox.thy ===== *)
theory Outbox
  imports Content_Store Retry Fault Flow_Inbox
begin

text \<open>
  The outbox relay (src/internal/outbox/outbox.go) and the bridge it dispatches to
  (src/cmd/vayupress/main.go and vayuflow_content.go): the in-process bus, the flow inbox and, for a
  payload that cannot be read, the fault escalator. The dispatch function is an argument of the relay;
  a payload that is not an envelope is None and has no event id. The clock and the outcome of each
  statement are arguments, and the readings of the clock within one pass are taken as one; the bus is the list of the events published, its handlers are not modelled
  (Publish recovers their panics and returns nothing).
\<close>

record relay =
  rl_rows :: "outbox_row list"
  rl_delivered :: "(string \<times> string) list"

datatype dispatch_error = PoisonEvent string | DispatchError string

definition outbox_max_retries :: nat where "outbox_max_retries = 3"
definition outbox_max_backoff :: int where "outbox_max_backoff = 120"

datatype rstmt = SelectEvent | ProbeDelivered | MarkDelivered | RecordDelivered | MarkEventDead | MarkEventRetry

text \<open>How a pass of the relay ended: the value it returns is whether it was idle.\<close>

datatype outcome = Idle | Skipped string | Delivered string | Poisoned string | Failed string

definition event_id_of :: "outbox_row \<Rightarrow> string" where
  "event_id_of r = (case ob_payload r of None \<Rightarrow> [] | Some e \<Rightarrow> en_id e)"

definition select_event :: "time \<Rightarrow> outbox_row list \<Rightarrow> outbox_row option" where
  "select_event now rows = find (\<lambda>r. ob_status r = OutPending \<and> retry_due now (ob_retry_at r)) rows"

definition set_event :: "bool \<Rightarrow> int \<Rightarrow> (outbox_row \<Rightarrow> outbox_row) \<Rightarrow> relay \<Rightarrow> relay" where
  "set_event ok i f rl = (if ok then rl\<lparr>rl_rows := map (\<lambda>r. if ob_id r = i then f r else r) (rl_rows rl)\<rparr> else rl)"

definition mark_delivered :: "time \<Rightarrow> outbox_row \<Rightarrow> outbox_row" where
  "mark_delivered now r = r\<lparr>ob_status := OutDelivered, ob_delivered := Some (fmt_sql now)\<rparr>"

definition mark_dead :: "string \<Rightarrow> outbox_row \<Rightarrow> outbox_row" where
  "mark_dead reason r = r\<lparr>ob_status := OutDead, ob_dead_reason := Some reason\<rparr>"

definition row_after_error :: "string \<Rightarrow> nat \<Rightarrow> time \<Rightarrow> outbox_row \<Rightarrow> outbox_row" where
  "row_after_error msg retries now r =
     (if retries < outbox_max_retries
      then r\<lparr>ob_retries := ob_retries r + 1, ob_retry_at := Some (next_retry outbox_max_backoff retries now)\<rparr>
      else mark_dead msg r)"

text \<open>Relay.processOne.\<close>

definition process_one ::
  "(rstmt \<Rightarrow> bool) \<Rightarrow> time \<Rightarrow> (string \<Rightarrow> envelope option \<Rightarrow> 'w \<Rightarrow> dispatch_error option \<times> 'w) \<Rightarrow> relay \<times> 'w \<Rightarrow> outcome \<times> relay \<times> 'w" where
  "process_one ok now dispatch st =
     (case st of (rl, w) \<Rightarrow>
        if \<not> ok SelectEvent then (Idle, rl, w)
        else (case select_event now (rl_rows rl) of
          None \<Rightarrow> (Idle, rl, w)
        | Some r \<Rightarrow>
            if event_id_of r \<noteq> [] \<and> ok ProbeDelivered \<and> list_ex (\<lambda>d. fst d = event_id_of r) (rl_delivered rl)
            then (Skipped (event_id_of r), set_event (ok MarkDelivered) (ob_id r) (mark_delivered now) rl, w)
            else (case dispatch (ob_type r) (ob_payload r) w of
                    (None, w) \<Rightarrow>
                      (let rl = set_event (ok MarkDelivered) (ob_id r) (mark_delivered now) rl in
                       (Delivered (event_id_of r),
                        if event_id_of r \<noteq> [] \<and> ok RecordDelivered \<and> \<not> list_ex (\<lambda>d. fst d = event_id_of r) (rl_delivered rl)
                        then rl\<lparr>rl_delivered := rl_delivered rl @ [(event_id_of r, ob_type r)]\<rparr> else rl,
                        w))
                  | (Some (PoisonEvent m), w) \<Rightarrow> (Poisoned (event_id_of r), set_event (ok MarkEventDead) (ob_id r) (mark_dead m) rl, w)
                  | (Some (DispatchError m), w) \<Rightarrow>
                      (Failed (event_id_of r),
                       set_event (ok (if ob_retries r < outbox_max_retries then MarkEventRetry else MarkEventDead)) (ob_id r)
                         (row_after_error m (ob_retries r) now) rl,
                       w))))"

text \<open>
  The drain at shutdown, \<open>for !r.processOne() {}\<close>, with the number of passes it may take; None when
  they are used up. The drain is taken to happen at one instant.
\<close>

fun relay_drain ::
  "nat \<Rightarrow> (rstmt \<Rightarrow> bool) \<Rightarrow> time \<Rightarrow> (string \<Rightarrow> envelope option \<Rightarrow> 'w \<Rightarrow> dispatch_error option \<times> 'w) \<Rightarrow> relay \<times> 'w \<Rightarrow> (relay \<times> 'w) option" where
  "relay_drain 0 ok now dispatch st = None"
| "relay_drain (Suc n) ok now dispatch st =
     (case process_one ok now dispatch st of
        (Idle, st') \<Rightarrow> Some st'
      | (_, st') \<Rightarrow> relay_drain n ok now dispatch st')"

section \<open>The bridge\<close>

record 'j bridge =
  br_bus :: "event list"
  br_inbox :: "inbox option"
  br_escalator :: "escalation_state list"
  br_mode :: "'j manager \<times> 'j"

text \<open>What reading the payload of an event into another event's struct gives: fields go by name.\<close>

fun ev_id :: "event \<Rightarrow> string" where
  "ev_id (ArticleCreated i s ts) = i" | "ev_id (ArticleUpdated i s ts) = i" | "ev_id (ArticleDeleted i s) = i" | "ev_id (CacheInvalidated s ts r) = []"

fun ev_slug :: "event \<Rightarrow> string" where
  "ev_slug (ArticleCreated i s ts) = s" | "ev_slug (ArticleUpdated i s ts) = s" | "ev_slug (ArticleDeleted i s) = s" | "ev_slug (CacheInvalidated s ts r) = s"

fun ev_tags :: "event \<Rightarrow> runestr list" where
  "ev_tags (ArticleCreated i s ts) = ts" | "ev_tags (ArticleUpdated i s ts) = ts" | "ev_tags (ArticleDeleted i s) = []" | "ev_tags (CacheInvalidated s ts r) = ts"

fun ev_reason :: "event \<Rightarrow> string" where
  "ev_reason (CacheInvalidated s ts r) = r" | "ev_reason _ = []"

definition event_subject :: "string \<Rightarrow> string list \<Rightarrow> subject" where
  "event_subject slug tags = \<lparr>subj_tags = tags, subj_author = [], subj_status = [], subj_title = [], subj_slug = slug\<rparr>"

text \<open>flowInboxAppend: nothing to do, and no error, when the engine is not running.\<close>

definition flow_inbox_append :: "bool \<Rightarrow> time \<Rightarrow> string \<Rightarrow> string \<Rightarrow> subject \<Rightarrow> 'j bridge \<Rightarrow> dispatch_error option \<times> 'j bridge" where
  "flow_inbox_append db now event eid subj w =
     (case br_inbox w of
        None \<Rightarrow> (None, w)
      | Some ib \<Rightarrow>
          (case inbox_append db now event eid subj ib of
             (None, ib') \<Rightarrow> (None, w\<lparr>br_inbox := Some ib'\<rparr>)
           | (Some e, ib') \<Rightarrow> (Some (DispatchError ''inbox''), w\<lparr>br_inbox := Some ib'\<rparr>)))"

definition publish :: "event \<Rightarrow> 'j bridge \<Rightarrow> 'j bridge" where
  "publish ev w = w\<lparr>br_bus := br_bus w @ [ev]\<rparr>"

text \<open>The dispatch function of main.go; \<open>enc\<close> is the encoding of a rune string.\<close>

definition dispatch_event ::
  "(runestr \<Rightarrow> string) \<Rightarrow> bool \<Rightarrow> time \<Rightarrow> string \<Rightarrow> envelope option \<Rightarrow> 'j bridge \<Rightarrow> dispatch_error option \<times> 'j bridge" where
  "dispatch_event enc db now etype payload w =
     (case payload of
        None \<Rightarrow>
          (let (es, mw) = esc_record now now FaultOutboxCommit (br_escalator w) (br_mode w) in
           (Some (DispatchError ''unmarshal''), w\<lparr>br_escalator := es, br_mode := mw\<rparr>))
      | Some env \<Rightarrow>
          (let ev = en_payload env; i = ev_id ev; s = ev_slug ev; ts = ev_tags ev in
           if en_type env = ''article.created.v1'' then
             flow_inbox_append db now EventArticleCreated (en_id env) (event_subject s (map enc ts)) (publish (ArticleCreated i s ts) w)
           else if en_type env = ''article.updated.v1'' then
             flow_inbox_append db now EventArticleUpdated (en_id env) (event_subject s (map enc ts)) (publish (ArticleUpdated i s ts) w)
           else if en_type env = ''article.deleted.v1'' then
             flow_inbox_append db now EventArticleDeleted (en_id env) (event_subject s []) (publish (ArticleDeleted i s) w)
           else if en_type env = ''cache.invalidated.v1'' then (None, publish (CacheInvalidated s ts (ev_reason ev)) w)
           else (None, w)))"

section \<open>Retries\<close>

interpretation relayq: retried
  "\<lambda>r. ob_status r = OutPending" "\<lambda>r. ob_status r = OutPending" ob_retries ob_retry_at
  "\<lambda>now r. row_after_error m (ob_retries r) now r" outbox_max_backoff for m
  by unfold_locales (auto simp: row_after_error_def mark_dead_def outbox_max_retries_def)

text \<open>
  An event whose dispatch failed is due again only when the UTC day of its retry instant is over, not
  after the ten to forty seconds of the backoff: the two layouts of the timestamp meet in the SELECT.
\<close>

lemma iso_retry_skips_the_day:
  assumes "ob_status r = OutPending" "ob_retries r < 3" and "0 \<le> now" "now + backoff 120 (ob_retries r) * second < end_of_9999"
    and "0 \<le> later" "later < end_of_9999"
  shows "retry_due later (ob_retry_at (row_after_error m (ob_retries r) now r)) \<longleftrightarrow> utc_day (now + backoff 120 (ob_retries r) * second) < utc_day later"
  using relayq.due_next_day [of r now later m] assms by (simp add: outbox_max_backoff_def)

section \<open>Delivery\<close>

definition relay_ok :: "relay \<Rightarrow> bool" where
  "relay_ok rl \<longleftrightarrow> distinct (map ob_id (rl_rows rl))"

lemma set_event_parts [simp]: "rl_delivered (set_event ok i f rl) = rl_delivered rl"
  by (simp add: set_event_def)

lemma set_event_ids: "(\<And>r. ob_id (f r) = ob_id r) \<Longrightarrow> map ob_id (rl_rows (set_event ok i f rl)) = map ob_id (rl_rows rl)"
  by (simp add: set_event_def)

lemma row_ids [simp]: "ob_id (mark_delivered now r) = ob_id r" "ob_id (mark_dead m r) = ob_id r" "ob_id (row_after_error m n now r) = ob_id r"
  by (simp_all add: mark_delivered_def mark_dead_def row_after_error_def)

lemma select_event_props:
  "select_event now rows = Some r \<Longrightarrow> r \<in> set rows \<and> ob_status r = OutPending \<and> retry_due now (ob_retry_at r)"
  using find_sat by (fastforce simp: select_event_def)

text \<open>The passes of a relay, each at its instant; the outcomes in order.\<close>

fun relay_run ::
  "(string \<Rightarrow> envelope option \<Rightarrow> 'w \<Rightarrow> dispatch_error option \<times> 'w) \<Rightarrow> ((rstmt \<Rightarrow> bool) \<times> time) list \<Rightarrow> relay \<times> 'w \<Rightarrow> outcome list \<times> relay \<times> 'w" where
  "relay_run dispatch [] st = ([], st)"
| "relay_run dispatch ((ok, now) # ps) st =
     (case process_one ok now dispatch st of (out, st') \<Rightarrow>
        (case relay_run dispatch ps st' of (outs, st'') \<Rightarrow> (out # outs, st'')))"

fun delivered_ids :: "outcome list \<Rightarrow> string list" where
  "delivered_ids [] = []"
| "delivered_ids (Delivered i # os) = (if i = [] then delivered_ids os else i # delivered_ids os)"
| "delivered_ids (_ # os) = delivered_ids os"

definition known_id :: "string \<Rightarrow> relay \<Rightarrow> bool" where
  "known_id i rl \<longleftrightarrow> i \<in> fst ` set (rl_delivered rl)"

lemma known_id_list: "list_ex (\<lambda>d. fst d = i) (rl_delivered rl) \<longleftrightarrow> known_id i rl"
  by (force simp: list_ex_iff known_id_def)

definition recorded :: "bool \<Rightarrow> outbox_row \<Rightarrow> relay \<Rightarrow> relay" where
  "recorded ok r rl = (if event_id_of r \<noteq> [] \<and> ok \<and> \<not> known_id (event_id_of r) rl
     then rl\<lparr>rl_delivered := rl_delivered rl @ [(event_id_of r, ob_type r)]\<rparr> else rl)"

text \<open>The five ways a pass can go.\<close>

lemma process_one_cases:
  assumes "process_one ok now dispatch (rl, w) = (out, rl', w')"
  obtains (idle) "out = Idle" "rl' = rl" "w' = w" "ok SelectEvent \<Longrightarrow> select_event now (rl_rows rl) = None"
    | (skip) r where "ok SelectEvent" "select_event now (rl_rows rl) = Some r" "event_id_of r \<noteq> []" "known_id (event_id_of r) rl" "out = Skipped (event_id_of r)"
        "rl' = set_event (ok MarkDelivered) (ob_id r) (mark_delivered now) rl" "w' = w"
    | (deliver) r where "ok SelectEvent" "select_event now (rl_rows rl) = Some r" "ok ProbeDelivered \<Longrightarrow> event_id_of r = [] \<or> \<not> known_id (event_id_of r) rl"
        "dispatch (ob_type r) (ob_payload r) w = (None, w')" "out = Delivered (event_id_of r)"
        "rl' = recorded (ok RecordDelivered) r (set_event (ok MarkDelivered) (ob_id r) (mark_delivered now) rl)"
    | (poison) r m where "ok SelectEvent" "select_event now (rl_rows rl) = Some r" "ok ProbeDelivered \<Longrightarrow> event_id_of r = [] \<or> \<not> known_id (event_id_of r) rl"
        "dispatch (ob_type r) (ob_payload r) w = (Some (PoisonEvent m), w')" "out = Poisoned (event_id_of r)"
        "rl' = set_event (ok MarkEventDead) (ob_id r) (mark_dead m) rl"
    | (fail) r m where "ok SelectEvent" "select_event now (rl_rows rl) = Some r" "ok ProbeDelivered \<Longrightarrow> event_id_of r = [] \<or> \<not> known_id (event_id_of r) rl"
        "dispatch (ob_type r) (ob_payload r) w = (Some (DispatchError m), w')" "out = Failed (event_id_of r)"
        "rl' = set_event (ok (if ob_retries r < outbox_max_retries then MarkEventRetry else MarkEventDead)) (ob_id r) (row_after_error m (ob_retries r) now) rl"
proof (cases "ok SelectEvent")
  case False
  then show ?thesis using assms idle by (simp add: process_one_def)
next
  case sel: True
  show ?thesis
  proof (cases "select_event now (rl_rows rl)")
    case None
    then show ?thesis using assms idle sel by (simp add: process_one_def)
  next
    case (Some r)
    show ?thesis
    proof (cases "event_id_of r \<noteq> [] \<and> ok ProbeDelivered \<and> known_id (event_id_of r) rl")
      case True
      with sel Some assms skip show ?thesis by (simp add: process_one_def known_id_list)
    next
      case False
      obtain e w1 where d: "dispatch (ob_type r) (ob_payload r) w = (e, w1)" by (cases "dispatch (ob_type r) (ob_payload r) w")
      show ?thesis
      proof (cases e)
        case None
        have k: "known_id i (set_event b j f rl) = known_id i rl" for i b j f by (simp add: known_id_def)
        from None False d sel Some assms show ?thesis
          by (intro deliver [of r]) (auto simp: process_one_def known_id_list Let_def recorded_def k)
      next
        case e: (Some x)
        show ?thesis
        proof (cases x)
          case (PoisonEvent m)
          with e False d sel Some assms show ?thesis by (intro poison [of r m]) (auto simp: process_one_def known_id_list)
        next
          case (DispatchError m)
          with e False d sel Some assms show ?thesis by (intro fail [of r m]) (auto simp: process_one_def known_id_list)
        qed
      qed
    qed
  qed
qed

lemma delivered_step:
  assumes "process_one ok now dispatch (rl, w) = (out, rl', w')" and "ok ProbeDelivered" "ok RecordDelivered"
  shows "(\<exists>i. out = Delivered i \<and> i \<noteq> [] \<and> i \<notin> fst ` set (rl_delivered rl) \<and> fst ` set (rl_delivered rl') = insert i (fst ` set (rl_delivered rl)))
    \<or> delivered_ids [out] = [] \<and> fst ` set (rl_delivered rl') = fst ` set (rl_delivered rl)"
  using assms(1)
proof (cases rule: process_one_cases)
  case (deliver r)
  then show ?thesis using assms(2,3) by (auto simp: recorded_def known_id_def)
qed (auto simp: known_id_def)

lemma delivered_ids_Cons: "delivered_ids (x # xs) = delivered_ids [x] @ delivered_ids xs"
  by (cases x) auto


definition demo_event :: "int \<Rightarrow> string \<Rightarrow> outbox_row" where
  "demo_event n i = \<lparr>ob_id = n, ob_type = ''article.created.v1'',
     ob_payload = Some \<lparr>en_id = i, en_type = ''article.created.v1'', en_version = ''1'', en_causation = ''1'', en_correlation = [],
       en_occurred = 0, en_payload = ArticleCreated ''a1'' ''t'' []\<rparr>,
     ob_status = OutPending, ob_retry_at = None, ob_retries = 0, ob_dead_reason = None, ob_delivered = None\<rparr>"


section \<open>The drain ends\<close>

definition due_rows :: "time \<Rightarrow> relay \<Rightarrow> nat" where
  "due_rows now rl = length (filter (\<lambda>r. ob_status r = OutPending \<and> retry_due now (ob_retry_at r)) (rl_rows rl))"

lemma due_after_set:
  assumes "distinct (map ob_id rows)" and "r \<in> set rows" "P r" "\<not> P (f r)"
  shows "length (filter P (map (\<lambda>x. if ob_id x = ob_id r then f x else x) rows)) < length (filter P rows)"
  using assms(1,2)
proof (induction rows)
  case (Cons x rows)
  show ?case
  proof (cases "x = r")
    case True
    then have "\<forall>y \<in> set rows. ob_id y \<noteq> ob_id r" using Cons.prems(1) by (metis distinct.simps(2) imageI list.set_map list.simps(9))
    then have "map (\<lambda>x. if ob_id x = ob_id r then f x else x) rows = rows" by (simp add: map_idI)
    with True assms(3,4) show ?thesis by simp
  next
    case False
    then have r: "r \<in> set rows" using Cons.prems(2) by simp
    then have "ob_id x \<noteq> ob_id r" using Cons.prems(1) by (metis distinct.simps(2) imageI list.set_map list.simps(9))
    with Cons.IH Cons.prems(1) r show ?thesis by simp
  qed
qed simp

text \<open>A retry is never due at the instant it is scheduled at.\<close>

lemma retry_not_due_now:
  assumes "0 \<le> now" "now + 120 * second < end_of_9999" "n < 3"
  shows "\<not> retry_due now (Some (next_retry outbox_max_backoff n now))"
proof -
  have b: "0 \<le> backoff outbox_max_backoff n" "backoff outbox_max_backoff n \<le> 120" by (auto simp: backoff_def outbox_max_backoff_def Let_def)
  let ?t = "now + backoff outbox_max_backoff n * second"
  have "0 \<le> ?t" "?t < end_of_9999" "now \<le> ?t" using b assms(1,2) by (auto simp: second_def)
  moreover have "utc_day now \<le> utc_day ?t" unfolding utc_day_def using \<open>now \<le> ?t\<close> by (intro zdiv_mono1) (auto simp: second_def)
  moreover have "now < end_of_9999" using assms(2) by (simp add: second_def)
  ultimately show ?thesis using iso_le_sql_iff [of ?t now] assms(1) by (simp add: retry_due_def next_retry_def)
qed

lemma process_one_progress:
  assumes "process_one ok now dispatch (rl, w) = (out, rl', w')" and "out \<noteq> Idle" and "relay_ok rl"
    and "ok MarkDelivered" "ok MarkEventDead" "ok MarkEventRetry" and "0 \<le> now" "now + 120 * second < end_of_9999"
  shows "due_rows now rl' < due_rows now rl \<and> relay_ok rl'"
proof -
  have *: "due_rows now (set_event True (ob_id r) f rl) < due_rows now rl \<and> relay_ok (set_event True (ob_id r) f rl)"
    if "select_event now (rl_rows rl) = Some r" "\<not> (ob_status (f r) = OutPending \<and> retry_due now (ob_retry_at (f r)))" "\<And>x. ob_id (f x) = ob_id x" for r f
  proof -
    note sel = select_event_props [OF that(1)]
    have "relay_ok (set_event True (ob_id r) f rl)" using assms(3) set_event_ids [of f True "ob_id r" rl] that(3) by (simp add: relay_ok_def)
    moreover have "due_rows now (set_event True (ob_id r) f rl) < due_rows now rl"
      using due_after_set [of "rl_rows rl" r "\<lambda>x. ob_status x = OutPending \<and> retry_due now (ob_retry_at x)" f] assms(3) sel that(2)
      by (simp add: due_rows_def set_event_def relay_ok_def)
    ultimately show ?thesis by simp
  qed
  have rec: "due_rows now (recorded b r x) = due_rows now x" "relay_ok (recorded b r x) = relay_ok x" for b r x
    by (simp_all add: recorded_def due_rows_def relay_ok_def)
  from assms(1) show ?thesis
  proof (cases rule: process_one_cases)
    case idle
    with assms(2) show ?thesis by simp
  next
    case (skip r)
    then show ?thesis using * [of r "mark_delivered now"] assms(4) by (simp add: mark_delivered_def)
  next
    case (deliver r)
    then show ?thesis using * [of r "mark_delivered now"] assms(4) rec by (simp add: mark_delivered_def)
  next
    case (poison r m)
    then show ?thesis using * [of r "mark_dead m"] assms(5) by (simp add: mark_dead_def)
  next
    case (fail r m)
    have "\<not> (ob_status (row_after_error m (ob_retries r) now r) = OutPending \<and> retry_due now (ob_retry_at (row_after_error m (ob_retries r) now r)))"
      using retry_not_due_now [OF assms(7,8), of "ob_retries r"] by (simp add: row_after_error_def mark_dead_def outbox_max_retries_def)
    with fail show ?thesis using * [of r "row_after_error m (ob_retries r) now"] assms(5,6) by (simp split: if_splits)
  qed
qed



text \<open>When the status update keeps failing the loop does not end: the same row is skipped for ever.\<close>

lemma drain_without_updates:
  "relay_drain n (\<lambda>s. s \<noteq> MarkDelivered) hour (\<lambda>ty p n. (None, Suc n))
     (\<lparr>rl_rows = [demo_event 1 ''e1''], rl_delivered = [(''e1'', ''article.created.v1'')]\<rparr>, 0) = None"
proof (induction n)
  case (Suc n)
  have "process_one (\<lambda>s. s \<noteq> MarkDelivered) hour (\<lambda>ty p n. (None, Suc n)) (\<lparr>rl_rows = [demo_event 1 ''e1''], rl_delivered = [(''e1'', ''article.created.v1'')]\<rparr>, 0)
    = (Skipped ''e1'', \<lparr>rl_rows = [demo_event 1 ''e1''], rl_delivered = [(''e1'', ''article.created.v1'')]\<rparr>, 0)"
    by (simp add: process_one_def select_event_def demo_event_def event_id_of_def retry_due_def set_event_def)
  with Suc show ?case by simp
qed simp


section \<open>From a write to the flows\<close>

fun op_reason :: "article_op \<Rightarrow> string" where
  "op_reason OpInsert = ''insert''" | "op_reason OpUpdate = ''update''" | "op_reason OpDelete = ''delete''"

fun op_flow_event :: "article_op \<Rightarrow> string" where
  "op_flow_event OpInsert = EventArticleCreated" | "op_flow_event OpUpdate = EventArticleUpdated" | "op_flow_event OpDelete = EventArticleDeleted"

definition op_subject :: "(runestr \<Rightarrow> string) \<Rightarrow> article_op \<Rightarrow> article \<Rightarrow> subject" where
  "op_subject enc op a = event_subject (ar_slug a) (if op = OpDelete then [] else map enc (ar_tags a))"

lemma op_outbox_rows:
  assumes "content_ok u db" and "op_tx u v op a db = (None, db')"
  shows "db_outbox db' = db_outbox db @ [event_row v (db_next_event db) (te_id1 v) (fst (op_event op a)) (snd (op_event op a)),
    event_row v (db_next_event db + 1) (te_id2 v) ''cache.invalidated.v1'' (CacheInvalidated (ar_slug a) (ar_tags a) (op_reason op))]"
  using op_tx_result [OF assms]
  by (cases op) (auto simp: after_insert_def after_update_def after_delete_def with_events_def Let_def)

lemma process_one_success:
  assumes "\<forall>s. ok s" and "select_event now (rl_rows rl) = Some r" and "\<not> known_id (event_id_of r) rl"
    and "dispatch (ob_type r) (ob_payload r) w = (None, w')"
  shows "process_one ok now dispatch (rl, w) = (Delivered (event_id_of r), recorded True r (set_event True (ob_id r) (mark_delivered now) rl), w')"
proof -
  have "known_id i (set_event b j f rl) = known_id i rl" for i b j f by (simp add: known_id_def)
  then show ?thesis using assms by (simp add: process_one_def known_id_list recorded_def Let_def)
qed

lemma select_first_pending:
  assumes "\<forall>r \<in> set old. ob_status r \<noteq> OutPending" and "ob_status r = OutPending" "ob_retry_at r = None"
  shows "select_event now (old @ r # rest) = Some r"
  using assms by (induction old) (auto simp: select_event_def retry_due_def)

lemma mark_middle:
  assumes "\<forall>x \<in> set (old @ rest). ob_id x \<noteq> ob_id r"
  shows "map (\<lambda>x. if ob_id x = ob_id r then f x else x) (old @ r # rest) = old @ f r # rest"
  using assms by (simp add: map_idI)

lemma rows_after_pass: "rl_rows (recorded b r (set_event True i f rl)) = map (\<lambda>x. if ob_id x = i then f x else x) (rl_rows rl)"
  by (simp add: recorded_def set_event_def)

text \<open>What the bridge does with the event of an operation.\<close>

lemma dispatch_op:
  assumes "br_inbox w = Some ib" and "eid \<noteq> []" "eid \<notin> ib_event_id ` set (ib_rows ib)"
  shows "dispatch_event enc True now (fst (op_event op a)) (ob_payload (event_row v n eid (fst (op_event op a)) (snd (op_event op a)))) w
    = (None, w\<lparr>br_bus := br_bus w @ [snd (op_event op a)],
         br_inbox := Some (ib\<lparr>ib_rows := ib_rows ib @ [\<lparr>ib_id = ib_next ib, ib_event = op_flow_event op, ib_event_id = eid,
            ib_subject = op_subject enc op a, ib_created = fmt_sql now, ib_drained = None\<rparr>], ib_next := ib_next ib + 1\<rparr>)\<rparr>)"
proof -
  have known: "known_event (op_flow_event op)" by (cases op) (simp_all add: known_event_def known_events_def)
  have "\<not> list_ex (\<lambda>r. ib_event_id r = eid) (ib_rows ib)" using assms(3) by (force simp: list_ex_iff)
  then have app: "inbox_append True now (op_flow_event op) eid subj ib = (None, ib\<lparr>ib_rows := ib_rows ib @ [\<lparr>ib_id = ib_next ib, ib_event = op_flow_event op,
      ib_event_id = eid, ib_subject = subj, ib_created = fmt_sql now, ib_drained = None\<rparr>], ib_next := ib_next ib + 1\<rparr>)" for subj
    using known assms(2) by (simp add: inbox_append_def)
  show ?thesis
  proof (cases op)
    case OpInsert
    then show ?thesis using app assms(1) by (simp add: dispatch_event_def event_row_def flow_inbox_append_def publish_def op_subject_def Let_def)
  next
    case OpUpdate
    then show ?thesis using app assms(1) by (simp add: dispatch_event_def event_row_def flow_inbox_append_def publish_def op_subject_def Let_def)
  next
    case OpDelete
    then show ?thesis using app assms(1) by (simp add: dispatch_event_def event_row_def flow_inbox_append_def publish_def op_subject_def Let_def)
  qed
qed

text \<open>
  C9. A write reaches the flows exactly once. Take well-formed tables with nothing left to deliver, a
  committed insert, update or delete with two fresh event ids, and a running flow engine that has not
  seen the first. Two passes of the relay through the bridge then deliver both events, publish the
  operation's event and then the cache invalidation on the bus, append exactly one pending row to the
  flow inbox, with the event's id, the slug and the tags, and leave nothing pending in the outbox.
\<close>

theorem write_reaches_flows:
  assumes "content_ok u db" and "op_tx u v op a db = (None, db')" and "\<forall>r \<in> set (db_outbox db). ob_status r \<noteq> OutPending"
    and "rl_rows rl = db_outbox db'" and "te_id1 v \<noteq> te_id2 v" "te_id1 v \<noteq> []"
    and "te_id1 v \<notin> fst ` set (rl_delivered rl)" "te_id2 v \<notin> fst ` set (rl_delivered rl)"
    and "br_inbox w = Some ib" and "te_id1 v \<notin> ib_event_id ` set (ib_rows ib)" and "\<forall>s. ok1 s" "\<forall>s. ok2 s"
  shows "\<exists>rl' w'. relay_run (dispatch_event enc True now) [(ok1, t1), (ok2, t2)] (rl, w) = ([Delivered (te_id1 v), Delivered (te_id2 v)], rl', w')
    \<and> br_bus w' = br_bus w @ [snd (op_event op a), CacheInvalidated (ar_slug a) (ar_tags a) (op_reason op)]
    \<and> (\<exists>ib'. br_inbox w' = Some ib' \<and> ib_rows ib' = ib_rows ib @ [\<lparr>ib_id = ib_next ib, ib_event = op_flow_event op, ib_event_id = te_id1 v,
         ib_subject = op_subject enc op a, ib_created = fmt_sql now, ib_drained = None\<rparr>])
    \<and> (\<forall>r \<in> set (rl_rows rl'). ob_status r \<noteq> OutPending)"
proof -
  let ?r1 = "event_row v (db_next_event db) (te_id1 v) (fst (op_event op a)) (snd (op_event op a))"
  let ?r2 = "event_row v (db_next_event db + 1) (te_id2 v) ''cache.invalidated.v1'' (CacheInvalidated (ar_slug a) (ar_tags a) (op_reason op))"
  have rows: "rl_rows rl = db_outbox db @ [?r1, ?r2]" using op_outbox_rows [OF assms(1,2)] assms(4) by simp
  have ids: "ob_id ?r1 = db_next_event db" "ob_id ?r2 = db_next_event db + 1" "event_id_of ?r1 = te_id1 v" "event_id_of ?r2 = te_id2 v"
    "ob_status ?r1 = OutPending" "ob_status ?r2 = OutPending" "ob_retry_at ?r1 = None" "ob_retry_at ?r2 = None" "ob_type ?r1 = fst (op_event op a)"
    by (simp_all add: event_row_def event_id_of_def)
  have old: "\<forall>x \<in> set (db_outbox db). ob_id x < db_next_event db" using assms(1) by (simp add: content_ok_def events_ok_def)
  define w1 where "w1 = w\<lparr>br_bus := br_bus w @ [snd (op_event op a)], br_inbox := Some (ib\<lparr>ib_rows := ib_rows ib @ [\<lparr>ib_id = ib_next ib, ib_event = op_flow_event op,
      ib_event_id = te_id1 v, ib_subject = op_subject enc op a, ib_created = fmt_sql now, ib_drained = None\<rparr>], ib_next := ib_next ib + 1\<rparr>)\<rparr>"
  have d1: "dispatch_event enc True now (ob_type ?r1) (ob_payload ?r1) w = (None, w1)"
    unfolding ids w1_def by (rule dispatch_op [OF assms(9,6,10)])
  have s1: "select_event t1 (rl_rows rl) = Some ?r1" unfolding rows using assms(3) ids by (intro select_first_pending) auto
  define rl1 where "rl1 = recorded True ?r1 (set_event True (ob_id ?r1) (mark_delivered t1) rl)"
  have p1: "process_one ok1 t1 (dispatch_event enc True now) (rl, w) = (Delivered (te_id1 v), rl1, w1)"
    using process_one_success [where dispatch = "dispatch_event enc True now", OF assms(11) s1 _ d1] assms(7) by (simp add: ids known_id_def rl1_def)
  have rows1: "rl_rows rl1 = (db_outbox db @ [mark_delivered t1 ?r1]) @ ?r2 # []"
  proof -
    have f: "\<forall>x \<in> set (db_outbox db @ [?r2]). ob_id x \<noteq> ob_id ?r1" using old by (auto simp: ids)
    show ?thesis unfolding rl1_def rows_after_pass rows using mark_middle [OF f, of "mark_delivered t1"] by simp
  qed
  have del1: "fst ` set (rl_delivered rl1) \<subseteq> insert (te_id1 v) (fst ` set (rl_delivered rl))"
    by (auto simp: rl1_def recorded_def ids)
  have s2: "select_event t2 (rl_rows rl1) = Some ?r2"
    unfolding rows1 by (rule select_first_pending) (use assms(3) ids in \<open>auto simp: mark_delivered_def\<close>)
  define w2 where "w2 = publish (CacheInvalidated (ar_slug a) (ar_tags a) (op_reason op)) w1"
  have d2: "dispatch_event enc True now (ob_type ?r2) (ob_payload ?r2) w1 = (None, w2)"
    by (simp add: dispatch_event_def event_row_def w2_def Let_def)
  have k2: "\<not> known_id (event_id_of ?r2) rl1" using del1 assms(5,8) by (auto simp: known_id_def ids)
  define rl2 where "rl2 = recorded True ?r2 (set_event True (ob_id ?r2) (mark_delivered t2) rl1)"
  have p2: "process_one ok2 t2 (dispatch_event enc True now) (rl1, w1) = (Delivered (te_id2 v), rl2, w2)"
    using process_one_success [where dispatch = "dispatch_event enc True now", OF assms(12) s2 k2 d2] by (simp add: ids rl2_def)
  have "rl_rows rl2 = (db_outbox db @ [mark_delivered t1 ?r1]) @ mark_delivered t2 ?r2 # []"
  proof -
    have f: "\<forall>x \<in> set ((db_outbox db @ [mark_delivered t1 ?r1]) @ []). ob_id x \<noteq> ob_id ?r2" using old by (auto simp: ids)
    show ?thesis unfolding rl2_def rows_after_pass rows1 by (rule mark_middle [OF f])
  qed
  then have "\<forall>r \<in> set (rl_rows rl2). ob_status r \<noteq> OutPending" using assms(3) by (auto simp: mark_delivered_def)
  then show ?thesis using p1 p2 by (auto simp: w2_def w1_def publish_def)
qed

definition demo_bridge :: "unit bridge" where
  "demo_bridge = \<lparr>br_bus = [], br_inbox = Some new_inbox, br_escalator = [], br_mode = (new_manager, ())\<rparr>"

theorem write_reaches_flows_witness:
  "let db = snd (op_tx ascii_tables (demo_tx_env (\<lambda>s. True)) OpInsert (demo_article\<lparr>ar_tags := []\<rparr>) empty_db);
       r = relay_run (dispatch_event (\<lambda>t. []) True hour) [(\<lambda>s. True, hour), (\<lambda>s. True, hour)] (\<lparr>rl_rows = db_outbox db, rl_delivered = []\<rparr>, demo_bridge) in
   fst r = [Delivered ''e1'', Delivered ''e2''] \<and> (\<forall>x \<in> set (rl_rows (fst (snd r))). ob_status x \<noteq> OutPending)"
proof -
  let ?a = "demo_article\<lparr>ar_tags := []\<rparr>" and ?v = "demo_tx_env (\<lambda>s. True)"
  let ?t = "op_tx ascii_tables ?v OpInsert ?a empty_db"
  let ?rl = "\<lparr>rl_rows = db_outbox (snd ?t), rl_delivered = []\<rparr>"
  have "fst ?t = None" by code_simp
  then have t: "?t = (None, snd ?t)" by (metis prod.collapse)
  have v: "te_id1 ?v = ''e1''" "te_id2 ?v = ''e2''" by (simp_all add: demo_tx_env_def)
  have "\<exists>rl' w'. relay_run (dispatch_event (\<lambda>t. []) True hour) [(\<lambda>s. True, hour), (\<lambda>s. True, hour)] (?rl, demo_bridge)
      = ([Delivered ''e1'', Delivered ''e2''], rl', w') \<and> (\<forall>x \<in> set (rl_rows rl'). ob_status x \<noteq> OutPending)"
    using write_reaches_flows [OF empty_db_ok t, of ?rl demo_bridge new_inbox "\<lambda>s. True" "\<lambda>s. True" "\<lambda>t. []" hour hour hour] v
    by (auto simp: empty_db_def demo_bridge_def new_inbox_def)
  then show ?thesis by (auto simp: Let_def)
qed

end
