(* ===== verification/Machine.thy ===== *)
theory Machine
  imports Vayu_Prelude
begin

text \<open>
  What the in-memory services share. Each is a struct behind a mutex, so that its operations are
  steps of a deterministic machine with outputs: a value of the operation type and a state give an
  output and a state. The locale \<open>machine\<close> carries an invariant along a run, under what
  the environment promises of each call (a random id that is not in use); \<open>refinement\<close>
  adds an abstract machine that gives the same outputs; \<open>capped\<close> adds a load that the
  invariant bounds. The search for the oldest entry of a map, which four services use to evict, is
  here too.
\<close>

section \<open>Runs\<close>

fun run_ops :: "('op \<Rightarrow> 's \<Rightarrow> 'out \<times> 's) \<Rightarrow> 'op list \<Rightarrow> 's \<Rightarrow> 'out list \<times> 's" where
  "run_ops step [] s = ([], s)"
| "run_ops step (x # xs) s = (let (out, s') = step x s; (outs, s'') = run_ops step xs s' in (out # outs, s''))"

fun granted :: "('op \<Rightarrow> 's \<Rightarrow> 'out \<times> 's) \<Rightarrow> ('op \<Rightarrow> 's \<Rightarrow> bool) \<Rightarrow> 'op list \<Rightarrow> 's \<Rightarrow> bool" where
  "granted step pre [] s \<longleftrightarrow> True"
| "granted step pre (x # xs) s \<longleftrightarrow> pre x s \<and> granted step pre xs (snd (step x s))"

lemma run_Cons [simp]: "snd (run_ops step (x # xs) s) = snd (run_ops step xs (snd (step x s)))"
  "fst (run_ops step (x # xs) s) = fst (step x s) # fst (run_ops step xs (snd (step x s)))"
  by (simp_all add: case_prod_beta Let_def)

declare run_ops.simps(2) [simp del]

lemma run_append: "snd (run_ops step (xs @ ys) s) = snd (run_ops step ys (snd (run_ops step xs s)))"
  by (induction xs arbitrary: s) auto

lemma length_run [simp]: "length (fst (run_ops step xs s)) = length xs"
  by (induction xs arbitrary: s) auto

lemma run_nth: "i < length xs \<Longrightarrow> fst (run_ops step xs s) ! i = fst (step (xs ! i) (snd (run_ops step (take i xs) s)))"
proof (induction xs arbitrary: s i)
  case Nil
  then show ?case by simp
next
  case (Cons x xs)
  then show ?case by (cases i) auto
qed

lemma granted_True [simp]: "granted step (\<lambda>_ _. True) xs s"
  by (induction xs arbitrary: s) auto

locale machine =
  fixes step :: "'op \<Rightarrow> 's \<Rightarrow> 'out \<times> 's"
    and pre :: "'op \<Rightarrow> 's \<Rightarrow> bool"
    and invar :: "'s \<Rightarrow> bool"
  assumes keeps: "invar s \<Longrightarrow> pre x s \<Longrightarrow> invar (snd (step x s))"
begin

lemma run_keeps: "invar s \<Longrightarrow> granted step pre xs s \<Longrightarrow> invar (snd (run_ops step xs s))"
  by (induction xs arbitrary: s) (auto intro: keeps)

text \<open>A fact that every step keeps while the invariant holds is kept by the run.\<close>

lemma run_preserves:
  assumes "invar s" "granted step pre xs s" "P s"
    and "\<And>x s. x \<in> set xs \<Longrightarrow> invar s \<Longrightarrow> pre x s \<Longrightarrow> P s \<Longrightarrow> P (snd (step x s))"
  shows "P (snd (run_ops step xs s))"
  using assms
proof (induction xs arbitrary: s)
  case Nil
  then show ?case by simp
next
  case (Cons x xs)
  have "P (snd (run_ops step xs (snd (step x s))))"
    by (rule Cons.IH) (use Cons.prems in \<open>auto intro: keeps\<close>)
  then show ?case by simp
qed

end

locale refinement = machine +
  fixes abs :: "'s \<Rightarrow> 'a"
    and astep :: "'op \<Rightarrow> 'a \<Rightarrow> 'out \<times> 'a"
  assumes simulates: "invar s \<Longrightarrow> pre x s \<Longrightarrow> astep x (abs s) = (fst (step x s), abs (snd (step x s)))"
begin

lemma run_simulates:
  "invar s \<Longrightarrow> granted step pre xs s \<Longrightarrow> run_ops astep xs (abs s) = (fst (run_ops step xs s), abs (snd (run_ops step xs s)))"
proof (induction xs arbitrary: s)
  case Nil
  then show ?case by simp
next
  case (Cons x xs)
  then have "run_ops astep xs (abs (snd (step x s))) = (fst (run_ops step xs (snd (step x s))), abs (snd (run_ops step xs (snd (step x s)))))"
    by (auto intro: keeps)
  with Cons.prems show ?case by (simp add: run_ops.simps(2) [of astep] simulates Let_def)
qed

end

locale capped = machine +
  fixes load :: "'s \<Rightarrow> nat" and cap :: nat
  assumes within: "invar s \<Longrightarrow> load s \<le> cap"
begin

lemma run_within: "invar s \<Longrightarrow> granted step pre xs s \<Longrightarrow> load (snd (run_ops step xs s)) \<le> cap"
  by (intro within run_keeps)

end

section \<open>The oldest entry\<close>

text \<open>A range loop that keeps the first entry with the least stamp seen so far.\<close>

fun oldest_loop :: "('a \<Rightarrow> 'b :: linorder) \<Rightarrow> 'a option \<Rightarrow> 'a list \<Rightarrow> 'a option" where
  "oldest_loop f best [] = best"
| "oldest_loop f best (x # xs) =
     oldest_loop f (case best of None \<Rightarrow> Some x | Some y \<Rightarrow> if f x < f y then Some x else best) xs"

definition oldest :: "('a \<Rightarrow> 'b :: linorder) \<Rightarrow> 'a list \<Rightarrow> 'a option" where
  "oldest f xs = oldest_loop f None xs"

lemma oldest_loop_least:
  "oldest_loop f (Some b) xs = Some y \<Longrightarrow> y \<in> insert b (set xs) \<and> (\<forall>x \<in> insert b (set xs). f y \<le> f x)"
proof (induction xs arbitrary: b)
  case Nil
  then show ?case by simp
next
  case (Cons x xs)
  from Cons.IH [of "if f x < f b then x else b"] Cons.prems show ?case
    by (cases "f x < f b") (auto intro: order_trans less_imp_le)
qed

lemma oldest_loop_some: "\<exists>y. oldest_loop f (Some b) xs = Some y"
proof (induction xs arbitrary: b)
  case Nil
  then show ?case by simp
next
  case (Cons x xs)
  from Cons.IH [of "if f x < f b then x else b"] show ?case by (cases "f x < f b") auto
qed

lemma oldest_None_iff [simp]: "oldest f xs = None \<longleftrightarrow> xs = []"
proof (cases xs)
  case (Cons x ys)
  with oldest_loop_some [of f x ys] show ?thesis by (auto simp: oldest_def)
qed (simp add: oldest_def)

lemma oldest_Nil [simp]: "oldest f [] = None"
  by simp

lemma oldest_Some:
  assumes "oldest f xs = Some y"
  shows oldest_in: "y \<in> set xs" and oldest_le: "x \<in> set xs \<Longrightarrow> f y \<le> f x"
proof -
  from assms obtain z zs where "xs = z # zs" by (cases xs) (auto simp: oldest_def)
  with assms oldest_loop_least [of f z zs y] show "y \<in> set xs" "x \<in> set xs \<Longrightarrow> f y \<le> f x"
    by (auto simp: oldest_def)
qed

section \<open>More on maps\<close>

lemma in_map_putD: "(a, b) \<in> set (map_put k v m) \<Longrightarrow> (a, b) = (k, v) \<or> (a, b) \<in> set m"
  using set_map_put by fastforce

lemma in_map_delD: "(a, b) \<in> set (map_del k m) \<Longrightarrow> a \<noteq> k \<and> (a, b) \<in> set m"
  by (auto simp: AList.delete_eq)

lemma map_put_new: "map_get m k = None \<Longrightarrow> map_put k v m = m @ [(k, v)]"
  by (induction m) auto

lemma map_get_domain: "map_get m k \<noteq> None \<longleftrightarrow> k \<in> fst ` set m"
  by (simp add: map_of_eq_None_iff)

lemma keys_map_del: "fst ` set (map_del k m) = fst ` set m - {k}"
  by (metis delete_keys list.set_map set_removeAll)

lemma length_del_less: "(k, v) \<in> set m \<Longrightarrow> length (map_del k m) < length m"
  by (induction m) (auto simp: AList.delete_eq length_filter_less le_imp_less_Suc)

end
