(* ===== verification/Talk_Store.thy ===== *)
theory Talk_Store
  imports Machine
begin

text \<open>
  The chat's store of envelopes in transit (src/internal/vayuos/vayutalk/store.go). The two maps of
  the store hold pointers to the same envelopes, and MarkWebRead writes through one what a reader
  sees through the other; so the envelopes are in a heap, which only grows, and a pointer is an
  index of it. The abstract store is the list of the envelopes held, in the order they arrived.
  A range loop over the map of ids visits it in the order it is given.
\<close>

section \<open>The store\<close>

definition max_ciphertext_bytes :: nat where "max_ciphertext_bytes = 65536"
definition max_per_recipient_queue :: nat where "max_per_recipient_queue = 50"
definition max_global_queue :: nat where "max_global_queue = 5000"
definition min_burn_seconds :: int where "min_burn_seconds = 5"
definition max_burn_seconds :: int where "max_burn_seconds = 3600"
definition default_burn_seconds :: int where "default_burn_seconds = 300"

datatype talk_error =
  ErrRecipientQueueFull | ErrGlobalQueueFull | ErrCiphertextTooLarge | ErrNoId
| ErrUserStreamLimit | ErrGlobalStreamLimit

record talk_env =
  tv_id :: string
  tv_from :: string
  tv_to :: string
  tv_cipher :: string
  tv_created :: time
  tv_expires :: time
  tv_burn :: int
  tv_mode :: string
  tv_web :: bool

record talk_store =
  ts_heap :: "talk_env list"
  ts_users :: "(string, nat list) gomap"
  ts_ids :: "(string, nat) gomap"
  ts_total :: int

definition new_store :: talk_store where
  "new_store = \<lparr>ts_heap = [], ts_users = [], ts_ids = [], ts_total = 0\<rparr>"

definition set_unread_ttl :: "int \<Rightarrow> int \<Rightarrow> int" where
  "set_unread_ttl secs current =
     (if secs \<le> 0 then current else if secs < 300 then 300 else if secs > 604800 then 604800 else secs)"

definition clamp_burn :: "int \<Rightarrow> int" where
  "clamp_burn secs =
     (if secs \<le> 0 then default_burn_seconds
      else if secs < min_burn_seconds then min_burn_seconds
      else if secs > max_burn_seconds then max_burn_seconds
      else secs)"

text \<open>\<open>rand_id\<close> is what randID returns, the empty string when the generator fails; \<open>ttl\<close> is UnreadTTLSeconds.\<close>

definition new_envelope ::
  "int \<Rightarrow> string \<Rightarrow> string \<Rightarrow> string \<Rightarrow> string \<Rightarrow> int \<Rightarrow> string \<Rightarrow> time \<Rightarrow> talk_error + talk_env" where
  "new_envelope ttl rand_id from to cipher burn mode now =
     (if length cipher > max_ciphertext_bytes then Inl ErrCiphertextTooLarge
      else if rand_id = [] then Inl ErrNoId
      else Inr \<lparr>tv_id = rand_id, tv_from = from, tv_to = to, tv_cipher = cipher, tv_created = now,
                tv_expires = now + ttl * second, tv_burn = clamp_burn burn, tv_mode = mode, tv_web = False\<rparr>)"

definition pending :: "talk_store \<Rightarrow> string \<Rightarrow> nat list" where
  "pending st u = get_or [] (ts_users st) u"

definition envs :: "talk_store \<Rightarrow> nat list \<Rightarrow> talk_env list" where
  "envs st ps = map ((!) (ts_heap st)) ps"

definition store_enqueue :: "talk_env \<Rightarrow> talk_store \<Rightarrow> talk_error option \<times> talk_store" where
  "store_enqueue e st =
     (if ts_total st \<ge> int max_global_queue then (Some ErrGlobalQueueFull, st)
      else if length (pending st (tv_to e)) \<ge> max_per_recipient_queue then (Some ErrRecipientQueueFull, st)
      else (let p = length (ts_heap st) in
            (None, st\<lparr>ts_heap := ts_heap st @ [e],
                      ts_users := map_put (tv_to e) (pending st (tv_to e) @ [p]) (ts_users st),
                      ts_ids := map_put (tv_id e) p (ts_ids st),
                      ts_total := ts_total st + 1\<rparr>)))"

definition store_queued :: "string \<Rightarrow> talk_store \<Rightarrow> talk_env list" where
  "store_queued u st = envs st (pending st u)"

definition store_queued_web :: "string \<Rightarrow> talk_store \<Rightarrow> talk_env list" where
  "store_queued_web u st = filter (\<lambda>e. \<not> tv_web e) (envs st (pending st u))"

definition mark_web_read :: "string \<Rightarrow> talk_store \<Rightarrow> bool \<times> talk_store" where
  "mark_web_read i st =
     (case map_get (ts_ids st) i of
        None \<Rightarrow> (False, st)
      | Some p \<Rightarrow> (True, st\<lparr>ts_heap := (ts_heap st)[p := (ts_heap st ! p)\<lparr>tv_web := True\<rparr>]\<rparr>))"

text \<open>The loop of removeLocked over the recipient's list: the first envelope with the id is cut out.\<close>

fun drop_id :: "talk_env list \<Rightarrow> string \<Rightarrow> nat list \<Rightarrow> nat list option" where
  "drop_id hp i [] = None"
| "drop_id hp i (p # ps) = (if tv_id (hp ! p) = i then Some ps else map_option ((#) p) (drop_id hp i ps))"

definition store_remove :: "talk_env \<Rightarrow> talk_store \<Rightarrow> talk_store" where
  "store_remove e st =
     (let users = (case drop_id (ts_heap st) (tv_id e) (pending st (tv_to e)) of
                     None \<Rightarrow> ts_users st | Some ps \<Rightarrow> map_put (tv_to e) ps (ts_users st));
          users = (if get_or [] users (tv_to e) = [] then map_del (tv_to e) users else users)
      in st\<lparr>ts_users := users, ts_ids := map_del (tv_id e) (ts_ids st), ts_total := ts_total st - 1\<rparr>)"

definition store_delete :: "string \<Rightarrow> talk_store \<Rightarrow> string option \<times> talk_store" where
  "store_delete i st =
     (case map_get (ts_ids st) i of
        None \<Rightarrow> (None, st)
      | Some p \<Rightarrow> (let e = ts_heap st ! p in (Some (tv_from e), store_remove e st)))"

definition recipient_of :: "string \<Rightarrow> talk_store \<Rightarrow> string option" where
  "recipient_of i st = map_option (\<lambda>p. tv_to (ts_heap st ! p)) (map_get (ts_ids st) i)"

fun purge_loop :: "time \<Rightarrow> string list \<Rightarrow> talk_store \<Rightarrow> (string \<times> string) list \<times> talk_store" where
  "purge_loop now [] st = ([], st)"
| "purge_loop now (i # is) st =
     (case map_get (ts_ids st) i of
        None \<Rightarrow> purge_loop now is st
      | Some p \<Rightarrow>
          (let e = ts_heap st ! p in
           if \<not> (now < tv_expires e)
           then (let (rs, st') = purge_loop now is (store_remove e st) in ((tv_from e, i) # rs, st'))
           else purge_loop now is st))"

definition purge_expired :: "string list \<Rightarrow> time \<Rightarrow> talk_store \<Rightarrow> (string \<times> string) list \<times> talk_store" where
  "purge_expired ord now st = purge_loop now ord st"

definition store_len :: "talk_store \<Rightarrow> int" where
  "store_len st = ts_total st"

section \<open>The abstract store\<close>

type_synonym mailbag = "talk_env list"

definition live :: "talk_store \<Rightarrow> nat list" where
  "live st = filter (\<lambda>p. p \<in> snd ` set (ts_ids st)) [0..<length (ts_heap st)]"

definition held :: "talk_store \<Rightarrow> mailbag" where
  "held st = envs st (live st)"

abbreviation for_user :: "string \<Rightarrow> mailbag \<Rightarrow> mailbag" where
  "for_user u q \<equiv> filter (\<lambda>e. tv_to e = u) q"

definition bag_find :: "string \<Rightarrow> mailbag \<Rightarrow> talk_env option" where
  "bag_find i q = find (\<lambda>e. tv_id e = i) q"

definition bag_without :: "string \<Rightarrow> mailbag \<Rightarrow> mailbag" where
  "bag_without i q = filter (\<lambda>e. tv_id e \<noteq> i) q"

definition bag_mark :: "string \<Rightarrow> mailbag \<Rightarrow> mailbag" where
  "bag_mark i q = map (\<lambda>e. if tv_id e = i then e\<lparr>tv_web := True\<rparr> else e) q"

definition bag_enqueue :: "talk_env \<Rightarrow> mailbag \<Rightarrow> talk_error option \<times> mailbag" where
  "bag_enqueue e q =
     (if length q \<ge> max_global_queue then (Some ErrGlobalQueueFull, q)
      else if length (for_user (tv_to e) q) \<ge> max_per_recipient_queue then (Some ErrRecipientQueueFull, q)
      else (None, q @ [e]))"

definition bag_expired :: "time \<Rightarrow> mailbag \<Rightarrow> string \<Rightarrow> (string \<times> string) option" where
  "bag_expired now q i =
     (case bag_find i q of None \<Rightarrow> None | Some e \<Rightarrow> if tv_expires e \<le> now then Some (tv_from e, i) else None)"

definition store_ok :: "talk_store \<Rightarrow> bool" where
  "store_ok st \<longleftrightarrow>
     gomap_ok (ts_users st) \<and> gomap_ok (ts_ids st)
     \<and> (\<forall>(i, p) \<in> set (ts_ids st). p < length (ts_heap st) \<and> tv_id (ts_heap st ! p) = i)
     \<and> (\<forall>u. pending st u = filter (\<lambda>p. tv_to (ts_heap st ! p) = u) (live st))
     \<and> (\<forall>(u, ps) \<in> set (ts_users st). ps \<noteq> [])
     \<and> ts_total st = int (length (ts_ids st))
     \<and> length (ts_ids st) \<le> max_global_queue \<and> (\<forall>u. length (pending st u) \<le> max_per_recipient_queue)"


section \<open>The invariant and the abstraction\<close>

lemma store_okD:
  assumes "store_ok st"
  shows "gomap_ok (ts_users st)" "gomap_ok (ts_ids st)"
    "\<And>i p. (i, p) \<in> set (ts_ids st) \<Longrightarrow> p < length (ts_heap st)"
    "\<And>i p. (i, p) \<in> set (ts_ids st) \<Longrightarrow> tv_id (ts_heap st ! p) = i"
    "\<And>u. pending st u = filter (\<lambda>p. tv_to (ts_heap st ! p) = u) (live st)"
    "\<And>u ps. (u, ps) \<in> set (ts_users st) \<Longrightarrow> ps \<noteq> []"
    "ts_total st = int (length (ts_ids st))" "length (ts_ids st) \<le> max_global_queue"
    "\<And>u. length (pending st u) \<le> max_per_recipient_queue"
  using assms by (auto simp: store_ok_def)

lemma store_okI:
  assumes "gomap_ok (ts_users st)" "gomap_ok (ts_ids st)"
    "\<And>i p. (i, p) \<in> set (ts_ids st) \<Longrightarrow> p < length (ts_heap st) \<and> tv_id (ts_heap st ! p) = i"
    "\<And>u. pending st u = filter (\<lambda>p. tv_to (ts_heap st ! p) = u) (live st)"
    "\<And>u ps. (u, ps) \<in> set (ts_users st) \<Longrightarrow> ps \<noteq> []"
    "ts_total st = int (length (ts_ids st))" "length (ts_ids st) \<le> max_global_queue"
    "\<And>u. length (pending st u) \<le> max_per_recipient_queue"
  shows "store_ok st"
  unfolding store_ok_def using assms by blast

lemma distinct_live [simp]: "distinct (live st)"
  by (simp add: live_def)

lemma set_live: "store_ok st \<Longrightarrow> set (live st) = snd ` set (ts_ids st)"
  by (auto simp: live_def dest: store_okD(3))

lemma distinct_pointers: "store_ok st \<Longrightarrow> distinct (map snd (ts_ids st))"
proof -
  assume ok: "store_ok st"
  have "inj_on snd (set (ts_ids st))" by (rule inj_onI) (metis ok prod.collapse store_okD(4))
  with store_okD(2) [OF ok] show ?thesis by (simp add: distinct_map)
qed

lemma length_live: "store_ok st \<Longrightarrow> length (live st) = length (ts_ids st)"
  by (metis distinct_card distinct_live distinct_pointers length_map list.set_map set_live)

lemma length_held: "store_ok st \<Longrightarrow> length (held st) = length (ts_ids st)"
  by (simp add: held_def envs_def length_live)

lemma get_id_iff:
  assumes "store_ok st"
  shows "map_get (ts_ids st) i = Some p \<longleftrightarrow> p \<in> set (live st) \<and> tv_id (ts_heap st ! p) = i"
proof -
  have "(i, p) \<in> set (ts_ids st) \<longleftrightarrow> p \<in> snd ` set (ts_ids st) \<and> tv_id (ts_heap st ! p) = i"
    using store_okD(4) [OF assms] by force
  then show ?thesis by (simp add: store_okD(2) [OF assms] set_live [OF assms])
qed

lemma live_id_unique:
  "store_ok st \<Longrightarrow> p \<in> set (live st) \<Longrightarrow> q \<in> set (live st) \<Longrightarrow> tv_id (ts_heap st ! p) = tv_id (ts_heap st ! q) \<longleftrightarrow> p = q"
  by (metis get_id_iff option.inject)

lemma held_ids: "store_ok st \<Longrightarrow> tv_id ` set (held st) = fst ` set (ts_ids st)"
proof -
  assume ok: "store_ok st"
  have "tv_id (ts_heap st ! snd x) = fst x" if "x \<in> set (ts_ids st)" for x
    using store_okD(4) [OF ok] that by (metis prod.collapse)
  then have "(\<lambda>p. tv_id (ts_heap st ! p)) ` snd ` set (ts_ids st) = fst ` set (ts_ids st)"
    unfolding image_image by (rule image_cong [OF refl])
  then show ?thesis by (simp add: held_def envs_def set_live [OF ok] image_image)
qed

lemma distinct_held_ids: "store_ok st \<Longrightarrow> distinct (map tv_id (held st))"
  by (auto simp: held_def envs_def distinct_map live_id_unique intro!: inj_onI)

lemma find_map_key: "find P (map f ps) = map_option f (find (\<lambda>p. P (f p)) ps)"
  by (induction ps) auto

lemma find_only: "p \<in> set ps \<Longrightarrow> (\<And>q. q \<in> set ps \<Longrightarrow> P q \<longleftrightarrow> q = p) \<Longrightarrow> find P ps = Some p"
  by (induction ps) auto

lemma bag_find_held:
  assumes "store_ok st"
  shows "bag_find i (held st) = map_option ((!) (ts_heap st)) (map_get (ts_ids st) i)"
proof (cases "map_get (ts_ids st) i")
  case None
  then have "tv_id (ts_heap st ! p) \<noteq> i" if "p \<in> set (live st)" for p
    using that get_id_iff [OF assms] by (metis option.distinct(1))
  then show ?thesis by (auto simp: None bag_find_def held_def envs_def find_map_key find_None_iff)
next
  case (Some p)
  then have p: "p \<in> set (live st)" "tv_id (ts_heap st ! p) = i" by (auto simp: get_id_iff [OF assms])
  have "find (\<lambda>q. tv_id (ts_heap st ! q) = i) (live st) = Some p"
    using p live_id_unique [OF assms] by (intro find_only) auto
  then show ?thesis by (simp add: Some bag_find_def held_def envs_def find_map_key)
qed

lemma bag_find_without: "j \<noteq> i \<Longrightarrow> bag_find j (bag_without i q) = bag_find j q"
  by (induction q) (auto simp: bag_find_def bag_without_def)

lemma map_filter_same: "(\<And>x. x \<in> set xs \<Longrightarrow> f x = g x) \<Longrightarrow> List.map_filter f xs = List.map_filter g xs"
  by (induction xs) (auto simp: map_filter_simps split: option.split)

lemma queued_held: "store_ok st \<Longrightarrow> store_queued u st = for_user u (held st)"
  by (simp add: store_queued_def envs_def held_def store_okD(5) filter_map o_def)

lemma pending_held: "store_ok st \<Longrightarrow> length (pending st u) = length (for_user u (held st))"
  by (simp add: envs_def held_def store_okD(5) filter_map o_def)

section \<open>Every operation\<close>

lemma drop_id_filter:
  "p \<in> set ps \<Longrightarrow> distinct ps \<Longrightarrow> (\<And>q. q \<in> set ps \<Longrightarrow> tv_id (hp ! q) = i \<longleftrightarrow> q = p) \<Longrightarrow>
   drop_id hp i ps = Some (filter (\<lambda>q. q \<noteq> p) ps)"
  by (induction ps) (auto intro: filter_True [symmetric] simp: filter_id_conv)

lemma store_remove_ok:
  assumes ok: "store_ok st" and i: "map_get (ts_ids st) i = Some p"
  defines "st' \<equiv> store_remove (ts_heap st ! p) st"
  shows "store_ok st'" "held st' = bag_without i (held st)"
    "ts_ids st' = map_del i (ts_ids st)" "ts_heap st' = ts_heap st"
proof -
  let ?e = "ts_heap st ! p" and ?u = "tv_to (ts_heap st ! p)"
  have p: "p \<in> set (live st)" "tv_id ?e = i" using i by (auto simp: get_id_iff [OF ok])
  show ids: "ts_ids st' = map_del i (ts_ids st)" and hp: "ts_heap st' = ts_heap st"
    by (simp_all add: st'_def store_remove_def p Let_def)
  have "snd ` set (map_del i (ts_ids st)) = snd ` set (ts_ids st) - {p}"
  proof -
    have "(i', p') \<in> set (ts_ids st) \<Longrightarrow> i' = i \<longleftrightarrow> p' = p" for i' p'
      by (metis i get_id_iff [OF ok] map_get_iff_in_set option.inject store_okD(2) [OF ok])
    then show ?thesis by (force simp: AList.delete_eq)
  qed
  then have live: "live st' = filter (\<lambda>q. q \<noteq> p) (live st)"
    by (auto simp: live_def ids hp intro: filter_cong)
  have drop: "drop_id (ts_heap st) i (pending st ?u) = Some (filter (\<lambda>q. q \<noteq> p) (pending st ?u))"
    using p live_id_unique [OF ok] by (intro drop_id_filter) (auto simp: store_okD(5) [OF ok])
  have pend: "pending st' u = filter (\<lambda>q. q \<noteq> p) (pending st u)" for u
  proof (cases "u = ?u")
    case True
    then show ?thesis by (simp add: pending_def st'_def store_remove_def p drop Let_def gomap_simps drop [unfolded pending_def])
  next
    case False
    then have "filter (\<lambda>q. q \<noteq> p) (pending st u) = pending st u"
      by (auto simp: store_okD(5) [OF ok] intro!: filter_cong)
    with False show ?thesis
      by (simp add: pending_def st'_def store_remove_def p Let_def gomap_simps drop [unfolded pending_def])
  qed
  have pend': "pending st' u = filter (\<lambda>q. tv_to (ts_heap st' ! q) = u) (live st')" for u
    by (auto simp: pend live hp store_okD(5) [OF ok] intro: filter_cong)
  show "store_ok st'"
  proof (rule store_okI)
    show "gomap_ok (ts_users st')" "gomap_ok (ts_ids st')"
      using store_okD(1,2) [OF ok] by (auto simp: st'_def store_remove_def p Let_def drop)
    show "ps \<noteq> []" if "(u, ps) \<in> set (ts_users st')" for u ps
      using that store_okD(6) [OF ok]
      by (auto simp: st'_def store_remove_def p Let_def drop gomap_simps split: if_splits dest!: in_map_putD in_map_delD)
    have less: "length (ts_ids st') = length (ts_ids st) - 1" and "0 < length (ts_ids st)"
      using i length_map_del [OF store_okD(2) [OF ok]] by (auto simp: ids map_of_SomeD length_pos_if_in_set)
    then show "ts_total st' = int (length (ts_ids st'))"
      by (simp add: st'_def store_remove_def Let_def store_okD(7) [OF ok] of_nat_diff Suc_le_eq)
    show "length (ts_ids st') \<le> max_global_queue" using less store_okD(8) [OF ok] by simp
    show "length (pending st' u) \<le> max_per_recipient_queue" for u
      using store_okD(9) [OF ok, of u] by (auto simp: pend intro: order_trans [OF length_filter_le])
    show "q < length (ts_heap st') \<and> tv_id (ts_heap st' ! q) = j" if "(j, q) \<in> set (ts_ids st')" for j q
      using that store_okD(3,4) [OF ok] by (auto simp: ids hp dest!: in_map_delD)
  qed (rule pend')
  have "(q \<noteq> p) = (tv_id (ts_heap st ! q) \<noteq> i)" if "q \<in> set (live st)" for q
    using that p live_id_unique [OF ok] by auto
  then show "held st' = bag_without i (held st)"
    by (auto simp: held_def envs_def live hp bag_without_def filter_map o_def intro!: arg_cong [where f = "map _"] filter_cong)
qed


lemma new_store_ok: "store_ok new_store" and held_new [simp]: "held new_store = []"
  by (simp_all add: store_ok_def new_store_def pending_def live_def held_def envs_def)

lemma store_enqueue_ok:
  assumes ok: "store_ok st" and fresh: "tv_id e \<notin> tv_id ` set (held st)"
  shows "store_ok (snd (store_enqueue e st))"
    and "bag_enqueue e (held st) = (fst (store_enqueue e st), held (snd (store_enqueue e st)))"
proof -
  consider (full) "max_global_queue \<le> length (ts_ids st)"
    | (rcpt) "length (ts_ids st) < max_global_queue" "max_per_recipient_queue \<le> length (pending st (tv_to e))"
    | (room) "length (ts_ids st) < max_global_queue" "length (pending st (tv_to e)) < max_per_recipient_queue"
    by linarith
  then have "store_ok (snd (store_enqueue e st))
    \<and> bag_enqueue e (held st) = (fst (store_enqueue e st), held (snd (store_enqueue e st)))"
  proof cases
    case full
    then show ?thesis using ok by (simp add: store_enqueue_def store_okD(7) bag_enqueue_def length_held)
  next
    case rcpt
    then show ?thesis using ok
      by (simp add: store_enqueue_def store_okD(7) bag_enqueue_def length_held pending_held)
  next
    case room
    let ?p = "length (ts_heap st)" and ?ps = "pending st (tv_to e)"
    define st' where "st' = snd (store_enqueue e st)"
    have none: "map_get (ts_ids st) (tv_id e) = None"
      using fresh by (simp add: held_ids [OF ok] map_of_eq_None_iff)
    have parts: "ts_heap st' = ts_heap st @ [e]" "ts_users st' = map_put (tv_to e) (?ps @ [?p]) (ts_users st)"
        "ts_ids st' = map_put (tv_id e) ?p (ts_ids st)" "ts_total st' = ts_total st + 1"
      and fst: "fst (store_enqueue e st) = None"
      using room by (simp_all add: st'_def store_enqueue_def store_okD(7) [OF ok] Let_def)
    have ids: "ts_ids st' = ts_ids st @ [(tv_id e, ?p)]"
      using none by (simp add: parts map_put_new)
    have old: "(ts_heap st @ [e]) ! q = ts_heap st ! q" if "q \<in> set (live st)" for q
      using that by (simp add: live_def nth_append)
    have live: "live st' = live st @ [?p]"
      using store_okD(3) [OF ok] by (auto simp: live_def parts(1) ids intro!: filter_cong)
    have pend: "pending st' u = filter (\<lambda>q. tv_to (ts_heap st' ! q) = u) (live st')" for u
      using old by (auto simp: pending_def parts(1,2) gomap_simps live store_okD(5) [OF ok, unfolded pending_def] intro!: filter_cong)
    have "store_ok st'"
    proof (rule store_okI)
      show "gomap_ok (ts_users st')" "gomap_ok (ts_ids st')"
        using store_okD(1,2) [OF ok] by (simp_all add: parts)
      show "ps \<noteq> []" if "(u, ps) \<in> set (ts_users st')" for u ps
        using that store_okD(6) [OF ok] by (auto simp: parts(2) dest!: in_map_putD)
      show "ts_total st' = int (length (ts_ids st'))" "length (ts_ids st') \<le> max_global_queue"
        using room by (simp_all add: parts(4) ids store_okD(7) [OF ok])
      show "length (pending st' u) \<le> max_per_recipient_queue" for u
        using room store_okD(9) [OF ok, of u] by (simp add: pending_def parts(2) gomap_simps)
      show "q < length (ts_heap st') \<and> tv_id (ts_heap st' ! q) = j" if "(j, q) \<in> set (ts_ids st')" for j q
        using that store_okD(3,4) [OF ok] by (auto simp: ids parts(1) nth_append)
    qed (rule pend)
    moreover have "held st' = held st @ [e]"
      using old by (simp add: held_def envs_def live parts(1))
    ultimately show ?thesis
      using ok room by (simp add: fst bag_enqueue_def length_held pending_held flip: st'_def)
  qed
  then show "store_ok (snd (store_enqueue e st))"
    and "bag_enqueue e (held st) = (fst (store_enqueue e st), held (snd (store_enqueue e st)))" by auto
qed

lemma mark_ok:
  assumes ok: "store_ok st"
  shows "store_ok (snd (mark_web_read i st))"
    and "held (snd (mark_web_read i st)) = bag_mark i (held st)"
    and "fst (mark_web_read i st) \<longleftrightarrow> i \<in> tv_id ` set (held st)"
proof -
  show "fst (mark_web_read i st) \<longleftrightarrow> i \<in> tv_id ` set (held st)"
    using map_get_domain [of "ts_ids st" i] by (auto simp: mark_web_read_def held_ids [OF ok] split: option.split)
  have "store_ok (snd (mark_web_read i st)) \<and> held (snd (mark_web_read i st)) = bag_mark i (held st)"
  proof (cases "map_get (ts_ids st) i")
    case None
    then have "i \<notin> tv_id ` set (held st)" by (simp add: held_ids [OF ok] map_of_eq_None_iff)
    then have "bag_mark i (held st) = held st" by (auto simp: bag_mark_def intro!: map_idI)
    then show ?thesis using ok None by (simp add: mark_web_read_def)
  next
    case (Some p)
    define st' where "st' = snd (mark_web_read i st)"
    have p: "p \<in> set (live st)" "tv_id (ts_heap st ! p) = i" using Some by (auto simp: get_id_iff [OF ok])
    have parts: "ts_heap st' = (ts_heap st)[p := (ts_heap st ! p)\<lparr>tv_web := True\<rparr>]"
        "ts_users st' = ts_users st" "ts_ids st' = ts_ids st" "ts_total st' = ts_total st"
      by (simp_all add: st'_def mark_web_read_def Some)
    have live: "live st' = live st" by (simp add: live_def parts)
    have same: "tv_id (ts_heap st' ! q) = tv_id (ts_heap st ! q)" "tv_to (ts_heap st' ! q) = tv_to (ts_heap st ! q)" for q
      using p(1) by (simp_all add: parts(1) live_def nth_list_update)
    have same': "pending st' u = pending st u" "length (ts_heap st') = length (ts_heap st)" for u
      by (simp_all add: pending_def parts)
    have "store_ok st' \<longleftrightarrow> store_ok st" by (simp only: store_ok_def same same' live parts(2-4))
    with ok have "store_ok st'" by simp
    moreover have "held st' = bag_mark i (held st)"
    proof -
      have "ts_heap st' ! q = (if tv_id (ts_heap st ! q) = i then (ts_heap st ! q)\<lparr>tv_web := True\<rparr> else ts_heap st ! q)"
        if "q \<in> set (live st)" for q
      proof (cases "q = p")
        case True
        with p show ?thesis by (simp add: parts(1) live_def)
      next
        case False
        with p that live_id_unique [OF ok, of q p] show ?thesis by (simp add: parts(1))
      qed
      then show ?thesis by (simp add: held_def envs_def live bag_mark_def)
    qed
    ultimately show ?thesis by (simp add: st'_def)
  qed
  then show "store_ok (snd (mark_web_read i st))" "held (snd (mark_web_read i st)) = bag_mark i (held st)" by auto
qed

lemma delete_ok:
  assumes ok: "store_ok st"
  shows "store_ok (snd (store_delete i st))"
    and "fst (store_delete i st) = map_option tv_from (bag_find i (held st))"
    and "held (snd (store_delete i st)) = bag_without i (held st)"
proof -
  have "i \<notin> tv_id ` set (held st) \<Longrightarrow> bag_without i (held st) = held st"
    by (auto simp: bag_without_def filter_id_conv)
  then show "store_ok (snd (store_delete i st))"
    "held (snd (store_delete i st)) = bag_without i (held st)"
    "fst (store_delete i st) = map_option tv_from (bag_find i (held st))"
    using store_remove_ok [OF ok] ok
    by (auto simp: store_delete_def Let_def bag_find_held held_ids map_of_eq_None_iff split: option.split)
qed

lemma recipient_held: "store_ok st \<Longrightarrow> recipient_of i st = map_option tv_to (bag_find i (held st))"
  by (simp add: recipient_of_def bag_find_held option.map_comp o_def)


lemma purge_loop_ok:
  assumes "store_ok st" "distinct ord" "set ord \<subseteq> fst ` set (ts_ids st)"
  shows "store_ok (snd (purge_loop now ord st))
    \<and> fst (purge_loop now ord st) = List.map_filter (bag_expired now (held st)) ord
    \<and> held (snd (purge_loop now ord st)) = filter (\<lambda>e. tv_id e \<in> set ord \<longrightarrow> now < tv_expires e) (held st)"
  using assms
proof (induction ord arbitrary: st)
  case Nil
  then show ?case by simp
next
  case (Cons i ord)
  from Cons.prems obtain p where p: "map_get (ts_ids st) i = Some p" using map_get_domain [of "ts_ids st" i] by auto
  let ?e = "ts_heap st ! p"
  have find: "bag_find i (held st) = Some ?e" by (simp add: bag_find_held [OF Cons.prems(1)] p)
  then have e: "?e \<in> set (held st)" "tv_id ?e = i" by (auto simp: bag_find_def find_Some_iff)
  have only: "tv_id x = i \<longleftrightarrow> x = ?e" if "x \<in> set (held st)" for x
    using that e distinct_held_ids [OF Cons.prems(1)] by (auto simp: distinct_map dest: inj_onD)
  show ?case
  proof (cases "now < tv_expires ?e")
    case True
    have "filter (\<lambda>e. tv_id e \<in> set ord \<longrightarrow> now < tv_expires e) (held st)
      = filter (\<lambda>e. tv_id e \<in> set (i # ord) \<longrightarrow> now < tv_expires e) (held st)"
      using True only by (intro filter_cong) auto
    then show ?thesis using Cons True p find by (simp add: Let_def map_filter_simps bag_expired_def)
  next
    case False
    note rm = store_remove_ok [OF Cons.prems(1) p]
    have ids: "set ord \<subseteq> fst ` set (ts_ids (store_remove ?e st))"
      using Cons.prems by (auto simp: rm(3) keys_map_del)
    have same: "List.map_filter (bag_expired now (bag_without i (held st))) ord = List.map_filter (bag_expired now (held st)) ord"
    proof (rule map_filter_same)
      fix j
      assume "j \<in> set ord"
      with Cons.prems(2) have "j \<noteq> i" by auto
      then show "bag_expired now (bag_without i (held st)) j = bag_expired now (held st) j"
        by (simp add: bag_expired_def bag_find_without)
    qed
    have keep: "filter (\<lambda>e. tv_id e \<in> set ord \<longrightarrow> now < tv_expires e) (bag_without i (held st))
      = filter (\<lambda>e. tv_id e \<in> set (i # ord) \<longrightarrow> now < tv_expires e) (held st)"
      unfolding bag_without_def filter_filter using False only by (intro filter_cong) auto
    have "bag_expired now (held st) i = Some (tv_from ?e, i)" using False find by (simp add: bag_expired_def)
    with Cons.IH [OF rm(1) _ ids] Cons.prems(2) show ?thesis
      using False p by (simp add: Let_def map_filter_simps case_prod_beta rm(2) same keep)
  qed
qed


section \<open>Refinement\<close>

datatype store_op =
  SEnqueue talk_env | SQueued string | SQueuedWeb string | SMarkWeb string | SDelete string
| SRecipientOf string | SPurge "string list" time | SLen

datatype store_out =
  OError "talk_error option" | OEnvs "talk_env list" | OFlag bool | OName "string option"
| OReceipts "(string \<times> string) list" | OLen int

fun store_step :: "store_op \<Rightarrow> talk_store \<Rightarrow> store_out \<times> talk_store" where
  "store_step (SEnqueue e) st = map_prod OError id (store_enqueue e st)"
| "store_step (SQueued u) st = (OEnvs (store_queued u st), st)"
| "store_step (SQueuedWeb u) st = (OEnvs (store_queued_web u st), st)"
| "store_step (SMarkWeb i) st = map_prod OFlag id (mark_web_read i st)"
| "store_step (SDelete i) st = map_prod OName id (store_delete i st)"
| "store_step (SRecipientOf i) st = (OName (recipient_of i st), st)"
| "store_step (SPurge ord now) st = map_prod OReceipts id (purge_expired ord now st)"
| "store_step SLen st = (OLen (store_len st), st)"

fun bag_step :: "store_op \<Rightarrow> mailbag \<Rightarrow> store_out \<times> mailbag" where
  "bag_step (SEnqueue e) q = map_prod OError id (bag_enqueue e q)"
| "bag_step (SQueued u) q = (OEnvs (for_user u q), q)"
| "bag_step (SQueuedWeb u) q = (OEnvs (filter (\<lambda>e. \<not> tv_web e) (for_user u q)), q)"
| "bag_step (SMarkWeb i) q = (OFlag (i \<in> tv_id ` set q), bag_mark i q)"
| "bag_step (SDelete i) q = (OName (map_option tv_from (bag_find i q)), bag_without i q)"
| "bag_step (SRecipientOf i) q = (OName (map_option tv_to (bag_find i q)), q)"
| "bag_step (SPurge ord now) q = (OReceipts (List.map_filter (bag_expired now q) ord), filter (\<lambda>e. now < tv_expires e) q)"
| "bag_step SLen q = (OLen (int (length q)), q)"

text \<open>What the store relies on: a new id is not in use, and a range loop visits every key once.\<close>

fun store_pre :: "store_op \<Rightarrow> talk_store \<Rightarrow> bool" where
  "store_pre (SEnqueue e) st \<longleftrightarrow> tv_id e \<notin> tv_id ` set (held st)"
| "store_pre (SPurge ord now) st \<longleftrightarrow> distinct ord \<and> set ord = fst ` set (ts_ids st)"
| "store_pre _ st \<longleftrightarrow> True"

lemma purge_ok:
  assumes "store_ok st" "distinct ord" "set ord = fst ` set (ts_ids st)"
  shows "store_ok (snd (purge_expired ord now st))"
    and "fst (purge_expired ord now st) = List.map_filter (bag_expired now (held st)) ord"
    and "held (snd (purge_expired ord now st)) = filter (\<lambda>e. now < tv_expires e) (held st)"
proof -
  note loop = purge_loop_ok [of st ord now]
  have "tv_id e \<in> set ord" if "e \<in> set (held st)" for e
    using that held_ids [OF assms(1)] assms(3) by blast
  then have "filter (\<lambda>e. tv_id e \<in> set ord \<longrightarrow> now < tv_expires e) (held st) = filter (\<lambda>e. now < tv_expires e) (held st)"
    by (intro filter_cong) auto
  with loop assms show "store_ok (snd (purge_expired ord now st))"
    "fst (purge_expired ord now st) = List.map_filter (bag_expired now (held st)) ord"
    "held (snd (purge_expired ord now st)) = filter (\<lambda>e. now < tv_expires e) (held st)"
    by (simp_all add: purge_expired_def)
qed

interpretation talk_bag: refinement store_step store_pre store_ok held bag_step
proof
  fix s x
  assume ok: "store_ok s" and pre: "store_pre x s"
  show "store_ok (snd (store_step x s))"
    using ok pre by (cases x) (auto simp: store_enqueue_ok mark_ok delete_ok purge_ok)
  show "bag_step x (held s) = (fst (store_step x s), held (snd (store_step x s)))"
    using ok pre
    by (cases x)
      (simp_all add: store_enqueue_ok mark_ok delete_ok purge_ok recipient_held queued_held length_held store_len_def store_okD(7)
        store_queued_web_def flip: store_queued_def)
qed

interpretation talk_bag: capped store_step store_pre store_ok "\<lambda>st. length (held st)" max_global_queue
  by unfold_locales (simp add: length_held store_okD(8))

text \<open>
  C10. The chat store is a list of envelopes. From the empty store, whatever operations run, in whatever
  order, with new ids not in use and every range loop in whatever order, each returns what it
  returns on the plain list of the envelopes held, in arrival order; although the code keeps two maps of
  shared pointers and a counter. The store never holds more than 5000 envelopes, nor more than 50 for one
  recipient.
\<close>

theorem talk_store_refines_list:
  assumes "granted store_step store_pre ops new_store"
  shows "run_ops bag_step ops [] = (fst (run_ops store_step ops new_store), held (snd (run_ops store_step ops new_store)))
    \<and> length (held (snd (run_ops store_step ops new_store))) \<le> 5000
    \<and> length (for_user u (held (snd (run_ops store_step ops new_store)))) \<le> 50"
proof -
  note ok = talk_bag.run_keeps [OF new_store_ok assms]
  show ?thesis
    using talk_bag.run_simulates [OF new_store_ok assms] talk_bag.run_within [OF new_store_ok assms]
      store_okD(9) [OF ok, of u]
    by (simp add: max_global_queue_def max_per_recipient_queue_def pending_held [OF ok])
qed

definition demo_envelope :: "string \<Rightarrow> string \<Rightarrow> string \<Rightarrow> talk_env" where
  "demo_envelope i from to = \<lparr>tv_id = i, tv_from = from, tv_to = to, tv_cipher = ''xyz'', tv_created = 0,
     tv_expires = 300 * second, tv_burn = 5, tv_mode = ''store'', tv_web = False\<rparr>"

theorem talk_store_refines_list_witness:
  "fst (run_ops store_step [SEnqueue (demo_envelope ''1'' ''a'' ''b''), SEnqueue (demo_envelope ''2'' ''c'' ''b''), SMarkWeb ''1'',
      SQueuedWeb ''b'', SDelete ''2'', SPurge [''1''] (300 * second), SLen] new_store)
   = [OError None, OError None, OFlag True, OEnvs [demo_envelope ''2'' ''c'' ''b''], OName (Some ''c''), OReceipts [(''a'', ''1'')], OLen 0]"
proof -
  let ?ops = "[SEnqueue (demo_envelope ''1'' ''a'' ''b''), SEnqueue (demo_envelope ''2'' ''c'' ''b''), SMarkWeb ''1'',
      SQueuedWeb ''b'', SDelete ''2'', SPurge [''1''] (300 * second), SLen]"
  have "granted store_step store_pre ?ops new_store" by code_simp
  from talk_store_refines_list [OF this] have "fst (run_ops store_step ?ops new_store) = fst (run_ops bag_step ?ops [])" by simp
  then show ?thesis by (simp only:) code_simp
qed

end
