(* ===== verification/Talk_Hub.thy ===== *)
theory Talk_Hub
  imports Talk_Store Civil_Time
begin

text \<open>
  The chat's fan-out of live events (src/internal/vayuos/vayutalk/hub.go). A channel is a buffer and
  whether it is open; a subscriber names its channel by the index at which it was made. What panics
  in Go, a send on a closed channel and a second close, sets a flag, and the theorem is that it is
  never set. The cancel function that Subscribe returns is hub_cancel at the user and subscriber it
  closes over; its sync.Once is the list of the channels whose cancel has run.
\<close>

section \<open>Events\<close>

definition max_streams_per_user :: nat where "max_streams_per_user = 5"
definition max_global_streams :: nat where "max_global_streams = 500"
definition subscriber_buffer :: nat where "subscriber_buffer = 64"

record envelope_payload =
  ep_id :: string
  ep_from :: string
  ep_ciphertext :: string
  ep_created :: string
  ep_expires :: string
  ep_burn :: int
  ep_mode :: string

datatype talk_event =
  EnvelopeEvent envelope_payload
| ReceiptEvent string string
| PeerKeyEvent string

text \<open>base64.StdEncoding: three bytes become four digits, and the last group is padded.\<close>

definition b64_digit :: "nat \<Rightarrow> char" where
  "b64_digit n = ''ABCDEFGHIJKLMNOPQRSTUVWXYZabcdefghijklmnopqrstuvwxyz0123456789+/'' ! (n mod 64)"

fun encode_ciphertext :: "string \<Rightarrow> string" where
  "encode_ciphertext [] = []"
| "encode_ciphertext [a] =
     (let n = of_char a * 65536 in [b64_digit (n div 262144), b64_digit (n div 4096), CHR ''='', CHR ''=''])"
| "encode_ciphertext [a, b] =
     (let n = of_char a * 65536 + of_char b * 256 in
      [b64_digit (n div 262144), b64_digit (n div 4096), b64_digit (n div 64), CHR ''=''])"
| "encode_ciphertext (a # b # c # s) =
     (let n = of_char a * 65536 + of_char b * 256 + of_char c in
      [b64_digit (n div 262144), b64_digit (n div 4096), b64_digit (n div 64), b64_digit n] @ encode_ciphertext s)"

text \<open>The times are printed in UTC with time.RFC3339, which is the layout of \<open>fmt_iso\<close>.\<close>

definition envelope_payload_of :: "talk_env \<Rightarrow> envelope_payload" where
  "envelope_payload_of e = \<lparr>ep_id = tv_id e, ep_from = tv_from e, ep_ciphertext = encode_ciphertext (tv_cipher e),
     ep_created = fmt_iso (tv_created e), ep_expires = fmt_iso (tv_expires e), ep_burn = tv_burn e, ep_mode = tv_mode e\<rparr>"

section \<open>The hub\<close>

record chan =
  ch_buf :: "talk_event list"
  ch_open :: bool

record subscriber =
  sb_ch :: nat
  sb_seq :: nat

record hub =
  hb_subs :: "(string, subscriber list) gomap"
  hb_total :: int
  hb_seq :: nat
  hb_chans :: "chan list"
  hb_fired :: "nat list"
  hb_panic :: bool

definition new_hub :: hub where
  "new_hub = \<lparr>hb_subs = [], hb_total = 0, hb_seq = 0, hb_chans = [], hb_fired = [], hb_panic = False\<rparr>"

definition streams :: "hub \<Rightarrow> string \<Rightarrow> subscriber list" where
  "streams h u = get_or [] (hb_subs h) u"

definition close_chan :: "nat \<Rightarrow> hub \<Rightarrow> hub" where
  "close_chan c h =
     (if ch_open (hb_chans h ! c) then h\<lparr>hb_chans := (hb_chans h)[c := (hb_chans h ! c)\<lparr>ch_open := False\<rparr>]\<rparr>
      else h\<lparr>hb_panic := True\<rparr>)"

text \<open>The set of one user after a deletion; an empty set is deleted from the map.\<close>

definition put_streams :: "string \<Rightarrow> subscriber list \<Rightarrow> hub \<Rightarrow> hub" where
  "put_streams u S h = h\<lparr>hb_subs := (if S = [] then map_del u (hb_subs h) else map_put u S (hb_subs h))\<rparr>"

definition remove_locked :: "string \<Rightarrow> subscriber \<Rightarrow> hub \<Rightarrow> hub" where
  "remove_locked u s h =
     (if s \<notin> set (streams h u) then h
      else close_chan (sb_ch s) (put_streams u (remove1 s (streams h u)) (h\<lparr>hb_total := hb_total h - 1\<rparr>)))"

definition evict_oldest_locked :: "string \<Rightarrow> hub \<Rightarrow> hub" where
  "evict_oldest_locked u h = (case oldest sb_seq (streams h u) of None \<Rightarrow> h | Some s \<Rightarrow> remove_locked u s h)"

lemma streams_put [simp]: "streams (put_streams u S h) v = (if v = u then S else streams h v)"
  by (simp add: streams_def put_streams_def gomap_simps)

lemma streams_other [simp]:
  "streams (close_chan c h) v = streams h v" "streams (h\<lparr>hb_total := t\<rparr>) v = streams h v"
  "streams (h\<lparr>hb_chans := cs\<rparr>) v = streams h v" "streams (h\<lparr>hb_fired := fs\<rparr>) v = streams h v" "streams (h\<lparr>hb_seq := n\<rparr>) v = streams h v"
  by (simp_all add: streams_def close_chan_def)

lemma streams_remove: "streams (remove_locked u s h) v = (if v = u then remove1 s (streams h u) else streams h v)"
  by (simp add: remove_locked_def remove1_idem)

lemma evict_less: "streams h u \<noteq> [] \<Longrightarrow> length (streams (evict_oldest_locked u h) u) < length (streams h u)"
  by (cases "oldest sb_seq (streams h u)") (auto simp: evict_oldest_locked_def streams_remove length_remove1 dest!: oldest_in)

function evict_excess :: "string \<Rightarrow> hub \<Rightarrow> hub" where
  "evict_excess u h =
     (if length (streams h u) \<ge> max_streams_per_user then evict_excess u (evict_oldest_locked u h) else h)"
  by pat_completeness auto
termination
proof (relation "measure (\<lambda>(u, h). length (streams h u))", goal_cases)
  case (2 u h)
  then have "streams h u \<noteq> []" by (auto simp: max_streams_per_user_def)
  then show ?case by (simp add: evict_less)
qed simp

declare evict_excess.simps [simp del]

definition hub_subscribe :: "string \<Rightarrow> hub \<Rightarrow> (talk_error + subscriber) \<times> hub" where
  "hub_subscribe u h =
     (if hb_total h \<ge> int max_global_streams then (Inl ErrGlobalStreamLimit, h)
      else (let h = evict_excess u h;
                n = hb_seq h + 1;
                s = \<lparr>sb_ch = length (hb_chans h), sb_seq = n\<rparr>
            in (Inr s, (put_streams u (streams h u @ [s]) h)
                  \<lparr>hb_seq := n, hb_total := hb_total h + 1, hb_chans := hb_chans h @ [\<lparr>ch_buf = [], ch_open = True\<rparr>]\<rparr>)))"

definition hub_cancel :: "string \<Rightarrow> subscriber \<Rightarrow> hub \<Rightarrow> hub" where
  "hub_cancel u s h =
     (if sb_ch s \<in> set (hb_fired h) then h
      else (let h = h\<lparr>hb_fired := sb_ch s # hb_fired h\<rparr> in
            case map_get (hb_subs h) u of
              None \<Rightarrow> h
            | Some S \<Rightarrow>
                if s \<in> set S
                then close_chan (sb_ch s) (put_streams u (remove1 s S) (h\<lparr>hb_total := hb_total h - 1\<rparr>))
                else h))"

definition send_locked :: "string \<Rightarrow> subscriber \<Rightarrow> talk_event \<Rightarrow> hub \<Rightarrow> bool \<times> hub" where
  "send_locked u s evt h =
     (let c = hb_chans h ! sb_ch s in
      if \<not> ch_open c then (False, h\<lparr>hb_panic := True\<rparr>)
      else if length (ch_buf c) < subscriber_buffer
      then (True, h\<lparr>hb_chans := (hb_chans h)[sb_ch s := c\<lparr>ch_buf := ch_buf c @ [evt]\<rparr>]\<rparr>)
      else (False, remove_locked u s h))"

text \<open>The range loop of Publish, PublishReceipt and PublishPeerKey over the set as it was at the start.\<close>

fun send_all :: "string \<Rightarrow> talk_event \<Rightarrow> subscriber list \<Rightarrow> hub \<Rightarrow> bool \<times> hub" where
  "send_all u evt [] h = (False, h)"
| "send_all u evt (s # S) h =
     (let (sent, h) = send_locked u s evt h; (more, h) = send_all u evt S h in (sent \<or> more, h))"

definition hub_publish :: "talk_env \<Rightarrow> hub \<Rightarrow> bool \<times> hub" where
  "hub_publish e h =
     (if streams h (tv_to e) = [] then (False, h)
      else send_all (tv_to e) (EnvelopeEvent (envelope_payload_of e)) (streams h (tv_to e)) h)"

definition publish_receipt :: "string \<Rightarrow> string \<Rightarrow> string \<Rightarrow> hub \<Rightarrow> hub" where
  "publish_receipt u i status h =
     (if streams h u = [] then h else snd (send_all u (ReceiptEvent i status) (streams h u) h))"

definition publish_peer_key :: "string \<Rightarrow> string \<Rightarrow> hub \<Rightarrow> hub" where
  "publish_peer_key u peer h =
     (if streams h u = [] then h else snd (send_all u (PeerKeyEvent peer) (streams h u) h))"

definition hub_online :: "string \<Rightarrow> hub \<Rightarrow> bool" where
  "hub_online u h \<longleftrightarrow> streams h u \<noteq> []"

text \<open>A receive by the handler of a stream: an event, the end of a closed channel, or nothing yet.\<close>

datatype received = Got talk_event | Ended | Blocked

definition hub_recv :: "nat \<Rightarrow> hub \<Rightarrow> received \<times> hub" where
  "hub_recv c h =
     (case ch_buf (hb_chans h ! c) of
        evt # buf \<Rightarrow> (Got evt, h\<lparr>hb_chans := (hb_chans h)[c := (hb_chans h ! c)\<lparr>ch_buf := buf\<rparr>]\<rparr>)
      | [] \<Rightarrow> (if ch_open (hb_chans h ! c) then Blocked else Ended, h))"

section \<open>The invariant\<close>

definition stream_count :: "(string, subscriber list) gomap \<Rightarrow> nat" where
  "stream_count m = sum_list (map (\<lambda>(u, S). length S) m)"

text \<open>The channels of the subscribers: each is open, belongs to one subscriber, and no other is open.\<close>

definition chans_ok :: "hub \<Rightarrow> bool" where
  "chans_ok h \<longleftrightarrow>
     (\<forall>u v s t. s \<in> set (streams h u) \<longrightarrow> t \<in> set (streams h v) \<longrightarrow> sb_ch s = sb_ch t \<longrightarrow> u = v \<and> s = t)
     \<and> (\<forall>u. \<forall>s \<in> set (streams h u). sb_ch s < length (hb_chans h))
     \<and> (\<forall>c < length (hb_chans h). ch_open (hb_chans h ! c) \<longleftrightarrow> (\<exists>u. \<exists>s \<in> set (streams h u). sb_ch s = c))
     \<and> (\<forall>c < length (hb_chans h). length (ch_buf (hb_chans h ! c)) \<le> subscriber_buffer)"

definition hub_ok :: "hub \<Rightarrow> bool" where
  "hub_ok h \<longleftrightarrow>
     gomap_ok (hb_subs h) \<and> (\<forall>(u, S) \<in> set (hb_subs h). S \<noteq> [])
     \<and> (\<forall>u. length (streams h u) \<le> max_streams_per_user \<and> sorted_wrt (<) (map sb_seq (streams h u)) \<and> (\<forall>s \<in> set (streams h u). sb_seq s \<le> hb_seq h))
     \<and> hb_total h = int (stream_count (hb_subs h)) \<and> hb_total h \<le> int max_global_streams
     \<and> chans_ok h \<and> \<not> hb_panic h"


lemma chans_okD:
  assumes "chans_ok h"
  shows "s \<in> set (streams h u) \<Longrightarrow> t \<in> set (streams h v) \<Longrightarrow> sb_ch s = sb_ch t \<Longrightarrow> u = v \<and> s = t"
    "s \<in> set (streams h u) \<Longrightarrow> sb_ch s < length (hb_chans h)"
    "c < length (hb_chans h) \<Longrightarrow> ch_open (hb_chans h ! c) \<longleftrightarrow> (\<exists>u. \<exists>s \<in> set (streams h u). sb_ch s = c)"
    "c < length (hb_chans h) \<Longrightarrow> length (ch_buf (hb_chans h ! c)) \<le> subscriber_buffer"
  using assms unfolding chans_ok_def by blast+

lemma hub_okD:
  assumes "hub_ok h"
  shows "gomap_ok (hb_subs h)" "(u, S) \<in> set (hb_subs h) \<Longrightarrow> S \<noteq> []"
    "length (streams h u) \<le> max_streams_per_user" "sorted_wrt (<) (map sb_seq (streams h u))"
    "s \<in> set (streams h u) \<Longrightarrow> sb_seq s \<le> hb_seq h"
    "hb_total h = int (stream_count (hb_subs h))" "hb_total h \<le> int max_global_streams" "chans_ok h" "\<not> hb_panic h"
  using assms unfolding hub_ok_def by blast+

lemma hub_okI:
  assumes "gomap_ok (hb_subs h)" "\<And>u S. (u, S) \<in> set (hb_subs h) \<Longrightarrow> S \<noteq> []"
    "\<And>u. length (streams h u) \<le> max_streams_per_user" "\<And>u. sorted_wrt (<) (map sb_seq (streams h u))"
    "\<And>u s. s \<in> set (streams h u) \<Longrightarrow> sb_seq s \<le> hb_seq h"
    "hb_total h = int (stream_count (hb_subs h))" "hb_total h \<le> int max_global_streams" "chans_ok h" "\<not> hb_panic h"
  shows "hub_ok h"
  unfolding hub_ok_def using assms by blast

lemma distinct_streams: "hub_ok h \<Longrightarrow> distinct (streams h u)"
  using hub_okD(4) [of h u] by (auto simp: strict_sorted_iff distinct_map)

lemma stream_count_put: "gomap_ok m \<Longrightarrow> stream_count (map_put u S m) + length (get_or [] m u) = stream_count m + length S"
proof (induction m)
  case Nil
  then show ?case by (simp add: stream_count_def)
next
  case (Cons p m)
  obtain v T where p: "p = (v, T)" by (cases p)
  show ?case
  proof (cases "v = u")
    case True
    then show ?thesis by (simp add: p stream_count_def get_or_def)
  next
    case False
    then show ?thesis using Cons by (simp add: p stream_count_def get_or_def)
  qed
qed

lemma stream_count_del: "gomap_ok m \<Longrightarrow> stream_count (map_del u m) + length (get_or [] m u) = stream_count m"
proof (induction m)
  case Nil
  then show ?case by (simp add: stream_count_def)
next
  case (Cons p m)
  obtain v T where p: "p = (v, T)" by (cases p)
  show ?case
  proof (cases "v = u")
    case True
    then have "u \<notin> fst ` set m" using Cons.prems p by auto
    then show ?thesis using True by (simp add: p stream_count_def get_or_def delete_idem)
  next
    case False
    then show ?thesis using Cons by (simp add: p stream_count_def get_or_def)
  qed
qed

lemma put_streams_map:
  assumes "gomap_ok (hb_subs h)" "\<And>v T. (v, T) \<in> set (hb_subs h) \<Longrightarrow> T \<noteq> []"
  shows "gomap_ok (hb_subs (put_streams u S h))"
    "(v, T) \<in> set (hb_subs (put_streams u S h)) \<Longrightarrow> T \<noteq> []"
    "int (stream_count (hb_subs (put_streams u S h))) = int (stream_count (hb_subs h)) - int (length (streams h u)) + int (length S)"
proof -
  show "gomap_ok (hb_subs (put_streams u S h))" using assms(1) by (simp add: put_streams_def)
  show "(v, T) \<in> set (hb_subs (put_streams u S h)) \<Longrightarrow> T \<noteq> []"
    using assms(2) by (auto simp: put_streams_def split: if_splits dest!: in_map_putD in_map_delD)
  show "int (stream_count (hb_subs (put_streams u S h))) = int (stream_count (hb_subs h)) - int (length (streams h u)) + int (length S)"
    using stream_count_put [OF assms(1), of u S] stream_count_del [OF assms(1), of u]
    by (simp add: put_streams_def streams_def)
qed

lemma put_streams_parts [simp]:
  "hb_total (put_streams u S h) = hb_total h" "hb_seq (put_streams u S h) = hb_seq h" "hb_chans (put_streams u S h) = hb_chans h"
  "hb_panic (put_streams u S h) = hb_panic h" "hb_fired (put_streams u S h) = hb_fired h"
  by (simp_all add: put_streams_def)

lemma sorted_wrt_remove1: "sorted_wrt P (map f xs) \<Longrightarrow> sorted_wrt P (map f (remove1 x xs))"
  by (induction xs) (auto dest: subsetD [OF set_remove1_subset])

section \<open>Every operation\<close>

lemma remove_ok:
  assumes ok: "hub_ok h" and s: "s \<in> set (streams h u)"
  defines "h' \<equiv> close_chan (sb_ch s) (put_streams u (remove1 s (streams h u)) (h\<lparr>hb_total := hb_total h - 1\<rparr>))"
  shows "hub_ok h'"
proof -
  note D = hub_okD [OF ok] and C = chans_okD [OF hub_okD(8) [OF ok]]
  let ?c = "sb_ch s" and ?S = "remove1 s (streams h u)"
  have c: "?c < length (hb_chans h)" "ch_open (hb_chans h ! ?c)" using s C(2,3) by blast+
  have set: "set ?S = set (streams h u) - {s}" using distinct_streams [OF ok] by simp
  have parts: "hb_chans h' = (hb_chans h)[?c := (hb_chans h ! ?c)\<lparr>ch_open := False\<rparr>]"
      "hb_total h' = hb_total h - 1" "hb_seq h' = hb_seq h" "hb_panic h' = hb_panic h"
      "hb_subs h' = hb_subs (put_streams u ?S h)"
    using c by (simp_all add: h'_def close_chan_def put_streams_def)
  have str: "streams h' v = (if v = u then ?S else streams h v)" for v
    using streams_put [of u ?S h v] by (simp add: streams_def parts)
  have sub: "t \<in> set (streams h' v) \<longleftrightarrow> t \<in> set (streams h v) \<and> \<not> (v = u \<and> t = s)" for t v
    by (auto simp: str set)
  have "chans_ok h'"
    unfolding chans_ok_def
  proof (intro conjI allI impI ballI)
    fix c'
    assume c': "c' < length (hb_chans h')"
    show "length (ch_buf (hb_chans h' ! c')) \<le> subscriber_buffer"
      using c' C(4) by (cases "c' = ?c") (auto simp: parts(1))
    show "ch_open (hb_chans h' ! c') \<longleftrightarrow> (\<exists>u. \<exists>s \<in> set (streams h' u). sb_ch s = c')"
    proof (cases "c' = ?c")
      case True
      moreover have "\<not> (\<exists>v. \<exists>t \<in> set (streams h' v). sb_ch t = ?c)" using C(1) [OF s] by (metis sub)
      ultimately show ?thesis using c by (simp add: parts(1))
    next
      case False
      then have "(\<exists>v. \<exists>t \<in> set (streams h' v). sb_ch t = c') \<longleftrightarrow> (\<exists>v. \<exists>t \<in> set (streams h v). sb_ch t = c')"
        by (metis sub)
      with False show ?thesis using c' C(3) [of c'] by (simp add: parts(1))
    qed
  qed (use C(1,2) sub parts(1) in auto)
  show ?thesis
  proof (rule hub_okI)
    show "gomap_ok (hb_subs h')" "\<And>v T. (v, T) \<in> set (hb_subs h') \<Longrightarrow> T \<noteq> []"
      using put_streams_map [of h] D(1,2) unfolding parts by blast+
    have len: "int (length ?S) = int (length (streams h u)) - 1"
      using length_pos_if_in_set [OF s] s by (simp add: length_remove1 Suc_leI of_nat_diff del: length_greater_0_conv)
    show "hb_total h' = int (stream_count (hb_subs h'))"
      using put_streams_map(3) [of h u ?S] D(1,2,6) len unfolding parts by simp
    show "hb_total h' \<le> int max_global_streams" using D(7) by (simp add: parts)
    show "length (streams h' v) \<le> max_streams_per_user" for v
      using D(3) [of v] by (auto simp: str length_remove1)
    show "sorted_wrt (<) (map sb_seq (streams h' v))" for v
      using D(4) [of v] by (auto simp: str sorted_wrt_remove1)
    show "sb_seq t \<le> hb_seq h'" if "t \<in> set (streams h' v)" for v t using that D(5) by (auto simp: sub parts)
    show "\<not> hb_panic h'" using D(9) by (simp add: parts)
  qed (fact \<open>chans_ok h'\<close>)
qed


lemma remove_locked_ok: "hub_ok h \<Longrightarrow> hub_ok (remove_locked u s h)"
  by (simp add: remove_locked_def remove_ok)

lemma chans_ok_buffers:
  assumes "chans_ok h" "\<And>v. streams h' v = streams h v" "length (hb_chans h') = length (hb_chans h)"
    and "\<And>c. c < length (hb_chans h) \<Longrightarrow> ch_open (hb_chans h' ! c) = ch_open (hb_chans h ! c)
          \<and> length (ch_buf (hb_chans h' ! c)) \<le> subscriber_buffer"
  shows "chans_ok h'"
  using assms(1) assms(4) unfolding chans_ok_def assms(2,3) by blast

lemma hub_ok_chans:
  assumes "hub_ok h" "chans_ok (h\<lparr>hb_chans := cs\<rparr>)"
  shows "hub_ok (h\<lparr>hb_chans := cs\<rparr>)"
  by (rule hub_okI) (use hub_okD [OF assms(1)] assms(2) in \<open>auto simp: streams_def\<close>)

lemma hub_ok_fired: "hub_ok h \<Longrightarrow> hub_ok (h\<lparr>hb_fired := fs\<rparr>)"
  by (simp add: hub_ok_def chans_ok_def)

lemma send_locked_ok:
  assumes ok: "hub_ok h" and s: "s \<in> set (streams h u)"
  shows "hub_ok (snd (send_locked u s evt h))"
    and "set (streams h v) - {s} \<subseteq> set (streams (snd (send_locked u s evt h)) v)"
proof -
  let ?c = "sb_ch s"
  have c: "?c < length (hb_chans h)" "ch_open (hb_chans h ! ?c)"
    using chans_okD(2,3) [OF hub_okD(8) [OF ok]] s by blast+
  have "chans_ok (h\<lparr>hb_chans := (hb_chans h)[?c := (hb_chans h ! ?c)\<lparr>ch_buf := ch_buf (hb_chans h ! ?c) @ [evt]\<rparr>]\<rparr>)"
    if "length (ch_buf (hb_chans h ! ?c)) < subscriber_buffer"
    by (rule chans_ok_buffers [OF hub_okD(8) [OF ok]])
      (use that c chans_okD(4) [OF hub_okD(8) [OF ok]] in \<open>auto simp: nth_list_update\<close>)
  then show "hub_ok (snd (send_locked u s evt h))"
    using c hub_ok_chans [OF ok] remove_locked_ok [OF ok] by (simp add: send_locked_def Let_def)
  show "set (streams h v) - {s} \<subseteq> set (streams (snd (send_locked u s evt h)) v)"
    using c distinct_streams [OF ok] by (auto simp: send_locked_def Let_def streams_remove)
qed

lemma send_all_ok:
  "hub_ok h \<Longrightarrow> distinct S \<Longrightarrow> set S \<subseteq> set (streams h u) \<Longrightarrow> hub_ok (snd (send_all u evt S h))"
proof (induction S arbitrary: h)
  case Nil
  then show ?case by simp
next
  case (Cons s S)
  have s: "s \<in> set (streams h u)" using Cons.prems(3) by simp
  have "set S \<subseteq> set (streams (snd (send_locked u s evt h)) u)"
    using Cons.prems send_locked_ok(2) [OF Cons.prems(1) s, of u evt] by auto
  then show ?case using Cons send_locked_ok(1) [OF Cons.prems(1) s, of evt] by (simp add: case_prod_beta Let_def)
qed

lemma broadcast_ok: "hub_ok h \<Longrightarrow> hub_ok (snd (send_all u evt (streams h u) h))"
  by (simp add: send_all_ok distinct_streams)

lemma oldest_first: "sorted_wrt (<) (map f (x # xs)) \<Longrightarrow> oldest f (x # xs) = Some x"
proof -
  assume "sorted_wrt (<) (map f (x # xs))"
  then have "\<forall>y \<in> set xs. f x < f y" by simp
  then have "oldest_loop f (Some x) xs = Some x" by (induction xs) (auto simp: not_less)
  then show ?thesis by (simp add: oldest_def)
qed

lemma evict_excess_ok:
  assumes ok: "hub_ok h"
  shows "hub_ok (evict_excess u h)" "hb_total (evict_excess u h) \<le> hb_total h"
    and "streams (evict_excess u h) v =
      (if v = u then drop (length (streams h u) - (max_streams_per_user - 1)) (streams h u) else streams h v)"
proof -
  have le: "length (streams h u) \<le> max_streams_per_user" by (rule hub_okD(3) [OF ok])
  have "hub_ok (evict_excess u h) \<and> hb_total (evict_excess u h) \<le> hb_total h
    \<and> (\<forall>v. streams (evict_excess u h) v =
      (if v = u then drop (length (streams h u) - (max_streams_per_user - 1)) (streams h u) else streams h v))"
  proof (cases "streams h u")
    case Nil
    then show ?thesis using ok by (simp add: evict_excess.simps [of u h] max_streams_per_user_def)
  next
    case (Cons s S)
    show ?thesis
    proof (cases "length (streams h u) = max_streams_per_user")
      case False
      then show ?thesis using ok le by (auto simp: evict_excess.simps [of u h])
    next
      case True
      let ?h = "remove_locked u s h"
      have old: "evict_oldest_locked u h = ?h"
        using oldest_first [of sb_seq s S] hub_okD(4) [OF ok, of u] by (simp add: evict_oldest_locked_def Cons)
      have str: "streams ?h v = (if v = u then S else streams h v)" for v by (simp add: streams_remove Cons)
      have less: "\<not> max_streams_per_user \<le> length (streams ?h u)" using True by (simp add: str Cons)
      have "evict_excess u ?h = ?h" using less by (simp add: evict_excess.simps [of u ?h])
      then have "evict_excess u h = ?h" using True old by (simp add: evict_excess.simps [of u h])
      moreover have "hb_total ?h \<le> hb_total h" by (simp add: remove_locked_def close_chan_def)
      moreover have "length (streams h u) - (max_streams_per_user - 1) = 1" using True Cons by simp
      ultimately show ?thesis using remove_locked_ok [OF ok] str by (simp add: Cons)
    qed
  qed
  then show "hub_ok (evict_excess u h)" "hb_total (evict_excess u h) \<le> hb_total h"
    "streams (evict_excess u h) v =
      (if v = u then drop (length (streams h u) - (max_streams_per_user - 1)) (streams h u) else streams h v)"
    by auto
qed


lemma subscribe_ok:
  assumes ok: "hub_ok h"
  shows "hub_ok (snd (hub_subscribe u h))"
proof (cases "hb_total h \<ge> int max_global_streams")
  case True
  then show ?thesis using ok by (simp add: hub_subscribe_def)
next
  case False
  define g where "g = evict_excess u h"
  define s where "s = \<lparr>sb_ch = length (hb_chans g), sb_seq = hb_seq g + 1\<rparr>"
  define h' where "h' = snd (hub_subscribe u h)"
  have g: "hub_ok g" "hb_total g < int max_global_streams" "length (streams g u) < max_streams_per_user"
    using evict_excess_ok [OF ok, of u] False hub_okD(3) [OF ok, of u] by (auto simp: g_def max_streams_per_user_def)
  note D = hub_okD [OF g(1)] and C = chans_okD [OF hub_okD(8) [OF g(1)]]
  have parts: "hb_subs h' = hb_subs (put_streams u (streams g u @ [s]) g)" "hb_total h' = hb_total g + 1" "hb_seq h' = hb_seq g + 1"
      "hb_chans h' = hb_chans g @ [\<lparr>ch_buf = [], ch_open = True\<rparr>]" "hb_panic h' = hb_panic g"
    using False by (simp_all add: h'_def hub_subscribe_def g_def s_def Let_def put_streams_def)
  have str: "streams h' v = (if v = u then streams g u @ [s] else streams g v)" for v
    using streams_put [of u "streams g u @ [s]" g v] by (simp add: streams_def parts)
  have mem: "t \<in> set (streams h' v) \<longleftrightarrow> t \<in> set (streams g v) \<or> v = u \<and> t = s" for t v by (auto simp: str)
  have new: "sb_ch t \<noteq> sb_ch s" if "t \<in> set (streams g v)" for t v using C(2) [OF that] by (simp add: s_def)
  have "chans_ok h'"
    unfolding chans_ok_def
  proof (intro conjI allI impI ballI)
    fix c
    assume c: "c < length (hb_chans h')"
    show "length (ch_buf (hb_chans h' ! c)) \<le> subscriber_buffer"
      using c C(4) by (auto simp: parts(4) nth_append less_Suc_eq)
    show "ch_open (hb_chans h' ! c) \<longleftrightarrow> (\<exists>v. \<exists>t \<in> set (streams h' v). sb_ch t = c)"
    proof (cases "c = length (hb_chans g)")
      case True
      moreover have "s \<in> set (streams h' u)" "sb_ch s = length (hb_chans g)" by (simp_all add: str) (simp add: s_def)
      ultimately show ?thesis by (simp add: parts(4)) blast
    next
      case False
      then have "(\<exists>v. \<exists>t \<in> set (streams h' v). sb_ch t = c) \<longleftrightarrow> (\<exists>v. \<exists>t \<in> set (streams g v). sb_ch t = c)"
        unfolding mem Bex_def by (auto simp: s_def)
      with False c C(3) [of c] show ?thesis by (simp add: parts(4) nth_append)
    qed
  next
    fix v t
    assume "t \<in> set (streams h' v)"
    then show "sb_ch t < length (hb_chans h')" using C(2) by (auto simp: mem parts(4) s_def intro: less_SucI)
  next
    fix v v' t t'
    assume "t \<in> set (streams h' v)" "t' \<in> set (streams h' v')" "sb_ch t = sb_ch t'"
    then show "v = v'" "t = t'" using C(1) new unfolding mem by metis+
  qed
  have "hub_ok h'"
  proof (rule hub_okI)
    show "gomap_ok (hb_subs h')" "\<And>v T. (v, T) \<in> set (hb_subs h') \<Longrightarrow> T \<noteq> []"
      using put_streams_map [of g] D(1,2) unfolding parts by blast+
    show "hb_total h' = int (stream_count (hb_subs h'))" "hb_total h' \<le> int max_global_streams"
      using put_streams_map(3) [of g u "streams g u @ [s]"] D(1,2,6) g(2) unfolding parts by simp_all
    show "length (streams h' v) \<le> max_streams_per_user" for v using D(3) [of v] g(3) by (simp add: str)
    show "sorted_wrt (<) (map sb_seq (streams h' v))" for v
      using D(4) [of v] D(5) by (auto simp: str sorted_wrt_append s_def less_Suc_eq_le)
    show "sb_seq t \<le> hb_seq h'" if "t \<in> set (streams h' v)" for v t
      using that D(5) [of t v] by (auto simp: mem parts s_def)
    show "\<not> hb_panic h'" using D(9) by (simp add: parts)
  qed (fact \<open>chans_ok h'\<close>)
  then show ?thesis by (simp add: h'_def)
qed

lemma cancel_ok: "hub_ok h \<Longrightarrow> hub_ok (hub_cancel u s h)"
proof -
  assume ok: "hub_ok h"
  let ?h = "h\<lparr>hb_fired := sb_ch s # hb_fired h\<rparr>"
  have "hub_cancel u s h = h \<or> hub_cancel u s h = ?h \<or> s \<in> set (streams ?h u) \<and> hub_cancel u s h =
      close_chan (sb_ch s) (put_streams u (remove1 s (streams ?h u)) (?h\<lparr>hb_total := hb_total ?h - 1\<rparr>))"
    by (auto simp: hub_cancel_def Let_def streams_def get_or_def split: option.splits)
  then show ?thesis using ok hub_ok_fired [OF ok] remove_ok by metis
qed

lemma recv_ok:
  assumes ok: "hub_ok h" and c: "c < length (hb_chans h)"
  shows "hub_ok (snd (hub_recv c h))"
proof (cases "ch_buf (hb_chans h ! c)")
  case Nil
  then show ?thesis using ok by (simp add: hub_recv_def)
next
  case (Cons evt buf)
  have "chans_ok (h\<lparr>hb_chans := (hb_chans h)[c := (hb_chans h ! c)\<lparr>ch_buf := buf\<rparr>]\<rparr>)"
    by (rule chans_ok_buffers [OF hub_okD(8) [OF ok]])
      (use Cons c chans_okD(4) [OF hub_okD(8) [OF ok]] in \<open>force simp: nth_list_update\<close>)+
  then show ?thesis using hub_ok_chans [OF ok] by (simp add: hub_recv_def Cons)
qed

lemma publish_ok:
  "hub_ok h \<Longrightarrow> hub_ok (snd (hub_publish e h))" "hub_ok h \<Longrightarrow> hub_ok (publish_receipt u i st h)"
  "hub_ok h \<Longrightarrow> hub_ok (publish_peer_key u p h)"
  by (simp_all add: hub_publish_def publish_receipt_def publish_peer_key_def broadcast_ok)


section \<open>The machine\<close>

datatype hub_op =
  HSubscribe string | HCancel string subscriber | HPublish talk_env | HReceipt string string string
| HPeerKey string string | HOnline string | HRecv nat

datatype hub_out =
  HStream "talk_error + subscriber" | HDone | HDelivered bool | HIsOnline bool | HReceived received

fun hub_step :: "hub_op \<Rightarrow> hub \<Rightarrow> hub_out \<times> hub" where
  "hub_step (HSubscribe u) h = map_prod HStream id (hub_subscribe u h)"
| "hub_step (HCancel u s) h = (HDone, hub_cancel u s h)"
| "hub_step (HPublish e) h = map_prod HDelivered id (hub_publish e h)"
| "hub_step (HReceipt u i st) h = (HDone, publish_receipt u i st h)"
| "hub_step (HPeerKey u p) h = (HDone, publish_peer_key u p h)"
| "hub_step (HOnline u) h = (HIsOnline (hub_online u h), h)"
| "hub_step (HRecv c) h = map_prod HReceived id (hub_recv c h)"

text \<open>A handler receives from a channel it was given.\<close>

fun hub_pre :: "hub_op \<Rightarrow> hub \<Rightarrow> bool" where
  "hub_pre (HRecv c) h \<longleftrightarrow> c < length (hb_chans h)"
| "hub_pre _ h \<longleftrightarrow> True"

lemma new_hub_ok: "hub_ok new_hub"
  by (simp add: hub_ok_def chans_ok_def new_hub_def streams_def stream_count_def)

interpretation talk_hub: capped hub_step hub_pre hub_ok "\<lambda>h. stream_count (hb_subs h)" max_global_streams
proof
  show "hub_ok s \<Longrightarrow> hub_pre x s \<Longrightarrow> hub_ok (snd (hub_step x s))" for s x
    by (cases x) (simp_all add: subscribe_ok cancel_ok publish_ok recv_ok)
  show "hub_ok s \<Longrightarrow> stream_count (hb_subs s) \<le> max_global_streams" for s
    using hub_okD(6,7) [of s] by simp
qed

lemma stream_open_iff:
  assumes "hub_ok h" "c < length (hb_chans h)"
  shows "ch_open (hb_chans h ! c) \<longleftrightarrow> c \<in> sb_ch ` (\<Union>u. set (streams h u))"
  using chans_okD(3) [OF hub_okD(8) [OF assms(1)] assms(2)] by auto

text \<open>
  The stream hub never panics and never leaks. Whatever subscribes, cancels (also repeated ones, and
  those of evicted streams), broadcasts and receives run, in whatever order: no closed channel is sent to or
  closed again; a user has at most five streams and the hub at most 500, and its counter is their number;
  a channel is open exactly while it is subscribed, so that the handler of every evicted or deaf stream
  sees its end; and no buffer is over 64 events. A new stream then joins the user's four newest and
  leaves the other users' alone, unless the hub is at its global limit.
\<close>

theorem hub_streams_sound:
  fixes ops
  defines "h \<equiv> snd (run_ops hub_step ops new_hub)"
  assumes "granted hub_step hub_pre ops new_hub"
  shows "\<not> hb_panic h \<and> length (streams h u) \<le> 5 \<and> hb_total h = int (stream_count (hb_subs h)) \<and> hb_total h \<le> 500
    \<and> (\<forall>c < length (hb_chans h). (ch_open (hb_chans h ! c) \<longleftrightarrow> c \<in> sb_ch ` (\<Union>v. set (streams h v)))
          \<and> length (ch_buf (hb_chans h ! c)) \<le> 64)
    \<and> (case hub_subscribe u h of
         (Inl err, h') \<Rightarrow> err = ErrGlobalStreamLimit \<and> hb_total h = 500 \<and> h' = h
       | (Inr s, h') \<Rightarrow> streams h' u = drop (length (streams h u) - 4) (streams h u) @ [s]
             \<and> (\<forall>v. v \<noteq> u \<longrightarrow> streams h' v = streams h v))"
proof -
  have ok: "hub_ok h" unfolding h_def by (rule talk_hub.run_keeps [OF new_hub_ok assms(2)])
  have "case hub_subscribe u h of
         (Inl err, h') \<Rightarrow> err = ErrGlobalStreamLimit \<and> hb_total h = 500 \<and> h' = h
       | (Inr s, h') \<Rightarrow> streams h' u = drop (length (streams h u) - 4) (streams h u) @ [s]
             \<and> (\<forall>v. v \<noteq> u \<longrightarrow> streams h' v = streams h v)"
    using hub_okD(7) [OF ok] evict_excess_ok(3) [OF ok, of u]
    by (simp add: hub_subscribe_def Let_def max_global_streams_def max_streams_per_user_def)
  then show ?thesis
    using hub_okD(3,6,7,9) [OF ok] stream_open_iff [OF ok] chans_okD(4) [OF hub_okD(8) [OF ok]]
    by (simp add: max_global_streams_def max_streams_per_user_def subscriber_buffer_def)
qed

theorem hub_streams_sound_witness:
  "let h = snd (run_ops hub_step [HSubscribe ''bob'', HReceipt ''bob'' ''1'' ''read'',
      HCancel ''bob'' \<lparr>sb_ch = 0, sb_seq = 1\<rparr>, HCancel ''bob'' \<lparr>sb_ch = 0, sb_seq = 1\<rparr>, HRecv 0] new_hub)
   in \<not> hb_panic h \<and> hb_total h = int (stream_count (hb_subs h))"
proof -
  let ?ops = "[HSubscribe ''bob'', HReceipt ''bob'' ''1'' ''read'',
      HCancel ''bob'' \<lparr>sb_ch = 0, sb_seq = 1\<rparr>, HCancel ''bob'' \<lparr>sb_ch = 0, sb_seq = 1\<rparr>, HRecv 0]"
  have "granted hub_step hub_pre ?ops new_hub" by code_simp
  from hub_streams_sound [OF this, of "''bob''"] show ?thesis unfolding Let_def by blast
qed

text \<open>
  At the global limit the eviction of the user's own oldest stream is not reached: a client that holds
  stale streams is refused when it reconnects.
\<close>

lemma reconnect_refused_at_global_limit:
  "hb_total h = 500 \<Longrightarrow> hub_subscribe u h = (Inl ErrGlobalStreamLimit, h)"
  by (simp add: hub_subscribe_def max_global_streams_def)

end
