(* ===== verification/Talk_Tokens.thy ===== *)
theory Talk_Tokens
  imports Machine
begin

text \<open>
  The chat's table of bearer tokens (src/internal/vayuos/vayutalk/tokens.go): minting with its quota
  and evictions, lookup and sweep. What randID returns is an argument of mint, the empty string when
  the generator fails.
\<close>

definition token_ttl :: dur where "token_ttl = 12 * hour"
definition max_tokens :: nat where "max_tokens = 20000"
definition max_tokens_per_email :: nat where "max_tokens_per_email = 10"

record token_rec =
  tk_email :: string
  tk_expires :: time

type_synonym token_store = "(string, token_rec) gomap"

definition new_token_store :: token_store where
  "new_token_store = []"

abbreviation of_email :: "string \<Rightarrow> string \<times> token_rec \<Rightarrow> bool" where
  "of_email email \<equiv> \<lambda>(tok, r). tk_email r = email"

abbreviation unexpired :: "time \<Rightarrow> string \<times> token_rec \<Rightarrow> bool" where
  "unexpired now \<equiv> \<lambda>(tok, r). now < tk_expires r"

definition tok_prune :: "time \<Rightarrow> token_store \<Rightarrow> token_store" where
  "tok_prune now m = filter (unexpired now) m"

definition count_for :: "string \<Rightarrow> token_store \<Rightarrow> nat" where
  "count_for email m = length (filter (of_email email) m)"

definition evict_oldest_for :: "string \<Rightarrow> token_store \<Rightarrow> token_store option" where
  "evict_oldest_for email m =
     (case oldest (\<lambda>(tok, r). tk_expires r) (filter (of_email email) m) of
        None \<Rightarrow> None
      | Some (tok, r) \<Rightarrow> if tok = [] then None else Some (map_del tok m))"

lemma evict_oldest_for_less: "evict_oldest_for email m = Some m' \<Longrightarrow> length m' < length m"
  by (auto simp: evict_oldest_for_def split: option.splits if_splits intro: length_del_less dest!: oldest_in)

text \<open>The quota loop of mint: while the account holds its ten tokens, one of its own goes.\<close>

function evict_quota :: "string \<Rightarrow> token_store \<Rightarrow> token_store" where
  "evict_quota email m =
     (if count_for email m \<ge> max_tokens_per_email
      then (case evict_oldest_for email m of None \<Rightarrow> m | Some m' \<Rightarrow> evict_quota email m')
      else m)"
  by pat_completeness auto
termination
  by (relation "measure (\<lambda>(email, m). length m)") (auto dest: evict_oldest_for_less)

declare evict_quota.simps [simp del]

definition evict_soonest :: "token_store \<Rightarrow> token_store" where
  "evict_soonest m =
     (case oldest (\<lambda>(tok, r). tk_expires r) m of
        None \<Rightarrow> m
      | Some (tok, r) \<Rightarrow> if tok = [] then m else map_del tok m)"

definition mint :: "string \<Rightarrow> string \<Rightarrow> time \<Rightarrow> token_store \<Rightarrow> string \<times> token_store" where
  "mint rand_id email now m =
     (if rand_id = [] then ([], m)
      else (let m = (if length m \<ge> max_tokens then tok_prune now m else m);
                m = evict_quota email m;
                m = (if length m \<ge> max_tokens then evict_soonest m else m)
            in (rand_id, map_put rand_id \<lparr>tk_email = email, tk_expires = now + token_ttl\<rparr> m)))"

definition tok_lookup :: "string \<Rightarrow> time \<Rightarrow> token_store \<Rightarrow> string option" where
  "tok_lookup tok now m =
     (if tok = [] then None
      else case map_get m tok of
        None \<Rightarrow> None
      | Some r \<Rightarrow> if \<not> tk_expires r > now then None else Some (tk_email r))"

definition tok_sweep :: "time \<Rightarrow> token_store \<Rightarrow> token_store" where
  "tok_sweep now m = tok_prune now m"

section \<open>The table stays bounded\<close>

definition tokens_ok :: "token_store \<Rightarrow> bool" where
  "tokens_ok m \<longleftrightarrow> gomap_ok m \<and> [] \<notin> fst ` set m \<and> length m \<le> max_tokens \<and> (\<forall>e. count_for e m \<le> max_tokens_per_email)"

lemma length_filter_del_le: "length (filter P (map_del k m)) \<le> length (filter P m)"
  by (induction m) auto

lemma count_for_del: "count_for e (map_del k m) \<le> count_for e m"
  unfolding count_for_def by (rule length_filter_del_le)

lemma count_for_filter: "count_for e (filter P m) \<le> count_for e m"
  unfolding count_for_def filter_filter by (induction m) auto

lemma count_for_put: "count_for e (map_put k r m) \<le> count_for e m + (if tk_email r = e then 1 else 0)"
  by (induction m) (auto simp: count_for_def)

lemma tokens_ok_del: "tokens_ok m \<Longrightarrow> tokens_ok (map_del k m)"
  by (auto simp: tokens_ok_def keys_map_del intro: order_trans [OF count_for_del] order_trans [OF length_map_del_le])

lemma tokens_ok_prune: "tokens_ok m \<Longrightarrow> tokens_ok (tok_prune now m)"
  by (auto simp: tokens_ok_def tok_prune_def intro: order_trans [OF count_for_filter] order_trans [OF length_filter_le])

lemma evict_oldest_for_cases:
  assumes "tokens_ok m"
  obtains "evict_oldest_for e m = None" "count_for e m = 0"
  | tok r where "evict_oldest_for e m = Some (map_del tok m)" "(tok, r) \<in> set m" "tk_email r = e"
proof (cases "oldest (\<lambda>(tok, r). tk_expires r) (filter (of_email e) m)")
  case None
  then show ?thesis using that(1) by (simp add: evict_oldest_for_def count_for_def)
next
  case (Some p)
  obtain tok r where p: "p = (tok, r)" by (cases p)
  with oldest_in [OF Some] have "(tok, r) \<in> set m" "tk_email r = e" by auto
  moreover from this assms have "tok \<noteq> []" by (force simp: tokens_ok_def)
  ultimately show ?thesis using that(2) Some p by (simp add: evict_oldest_for_def)
qed

lemma evict_quota_spec:
  "tokens_ok m \<Longrightarrow> tokens_ok (evict_quota e m) \<and> count_for e (evict_quota e m) < max_tokens_per_email
     \<and> (\<forall>tok r. map_get m tok = Some r \<and> tk_email r \<noteq> e \<longrightarrow> map_get (evict_quota e m) tok = Some r)
     \<and> length (evict_quota e m) \<le> length m"
proof (induction e m rule: evict_quota.induct)
  case (1 e m)
  show ?case
  proof (cases "count_for e m \<ge> max_tokens_per_email")
    case False
    then show ?thesis using 1 by (simp add: evict_quota.simps [of e m])
  next
    case True
    show ?thesis
    proof (cases rule: evict_oldest_for_cases [OF 1(2), of e])
      case 1
      with True show ?thesis by (simp add: max_tokens_per_email_def)
    next
      case (2 tok r)
      have r: "map_get m tok = Some r" using \<open>tokens_ok m\<close> 2 by (simp add: tokens_ok_def)
      note IH = 1(1) [OF True 2(1) tokens_ok_del [OF \<open>tokens_ok m\<close>]]
      have "map_get (map_del tok m) tok' = Some r'" if "map_get m tok' = Some r'" "tk_email r' \<noteq> e" for tok' r'
        using that r 2(3) by (auto simp: gomap_simps)
      with IH True 2(1) length_map_del_le [of tok m] show ?thesis by (auto simp: evict_quota.simps [of e m])
    qed
  qed
qed

lemma evict_soonest_spec:
  assumes "tokens_ok m" "m \<noteq> []"
  shows "tokens_ok (evict_soonest m)" "length (evict_soonest m) < length m" "count_for e (evict_soonest m) \<le> count_for e m"
proof -
  obtain tok r where s: "oldest (\<lambda>(tok, r). tk_expires r) m = Some (tok, r)"
    using assms(2) oldest_None_iff by (metis not_None_eq surj_pair)
  with oldest_in [OF s] have "(tok, r) \<in> set m" by simp
  moreover from this assms(1) have "tok \<noteq> []" by (force simp: tokens_ok_def)
  ultimately show "tokens_ok (evict_soonest m)" "length (evict_soonest m) < length m"
    "count_for e (evict_soonest m) \<le> count_for e m"
    using s assms(1) by (simp_all add: evict_soonest_def tokens_ok_del length_del_less count_for_del)
qed

text \<open>The table just before the new token is written: within every bound, with room for one more.\<close>

definition mint_room :: "string \<Rightarrow> time \<Rightarrow> token_store \<Rightarrow> token_store" where
  "mint_room email now m =
     (let m = evict_quota email (if length m \<ge> max_tokens then tok_prune now m else m)
      in if length m \<ge> max_tokens then evict_soonest m else m)"

lemma mint_eq:
  "mint rand_id email now m =
     (if rand_id = [] then ([], m)
      else (rand_id, map_put rand_id \<lparr>tk_email = email, tk_expires = now + token_ttl\<rparr> (mint_room email now m)))"
  by (simp add: mint_def mint_room_def Let_def)

lemma mint_room_ok:
  assumes "tokens_ok m"
  shows "tokens_ok (mint_room e now m)" "length (mint_room e now m) < max_tokens"
    "count_for e (mint_room e now m) < max_tokens_per_email"
proof -
  define m1 where "m1 = evict_quota e (if length m \<ge> max_tokens then tok_prune now m else m)"
  have m1: "tokens_ok m1" "count_for e m1 < max_tokens_per_email"
    using assms evict_quota_spec tokens_ok_prune by (simp_all add: m1_def)
  have le: "length m1 \<le> max_tokens" using m1(1) by (simp add: tokens_ok_def)
  show "tokens_ok (mint_room e now m)" "length (mint_room e now m) < max_tokens"
    "count_for e (mint_room e now m) < max_tokens_per_email"
  proof -
    have "m1 \<noteq> []" if "max_tokens \<le> length m1" using that by (auto simp: max_tokens_def)
    then show "tokens_ok (mint_room e now m)" "length (mint_room e now m) < max_tokens"
      "count_for e (mint_room e now m) < max_tokens_per_email"
      using m1 le evict_soonest_spec [OF m1(1)] by (auto simp: mint_room_def Let_def simp flip: m1_def intro: le_less_trans less_le_trans)
  qed
qed


lemma mint_ok: "tokens_ok m \<Longrightarrow> tokens_ok (snd (mint rand_id e now m))"
proof -
  assume ok: "tokens_ok m"
  note room = mint_room_ok [OF ok, of e now]
  have "count_for e' (mint_room e now m) + (if e = e' then 1 else 0) \<le> max_tokens_per_email" for e'
    using room by (auto simp: tokens_ok_def)
  then have *: "count_for e' (map_put rand_id \<lparr>tk_email = e, tk_expires = now + token_ttl\<rparr> (mint_room e now m)) \<le> max_tokens_per_email" for e'
    by (intro order_trans [OF count_for_put]) simp
  show ?thesis
    using ok room * by (auto simp: mint_eq tokens_ok_def length_map_put dom_update)
qed

lemma mint_keeps_other:
  assumes ok: "tokens_ok m" and r: "map_get m tok = Some r" "tk_email r \<noteq> e" "now < tk_expires r"
    and few: "length (filter (unexpired now) m) < max_tokens" and tok: "tok \<noteq> rand_id"
  shows "map_get (snd (mint rand_id e now m)) tok = Some r"
proof -
  define m1 where "m1 = (if length m \<ge> max_tokens then tok_prune now m else m)"
  have m1: "tokens_ok m1" "map_get m1 tok = Some r" "length m1 < max_tokens"
    using ok r few tokens_ok_prune [OF ok] by (auto simp: m1_def tok_prune_def tokens_ok_def map_get_filter)
  with evict_quota_spec [OF m1(1), of e] r(2)
  have "map_get (evict_quota e m1) tok = Some r" "length (evict_quota e m1) < max_tokens" by auto
  then have "map_get (mint_room e now m) tok = Some r" by (simp add: mint_room_def m1_def [symmetric] Let_def)
  then show ?thesis using r(1) tok by (simp add: mint_eq gomap_simps)
qed

datatype token_op = TMint string string time | TLookup string time | TSweep time
datatype token_out = TMinted string | TFound "string option" | TSwept

fun token_step :: "token_op \<Rightarrow> token_store \<Rightarrow> token_out \<times> token_store" where
  "token_step (TMint rand_id e now) m = map_prod TMinted id (mint rand_id e now m)"
| "token_step (TLookup tok now) m = (TFound (tok_lookup tok now m), m)"
| "token_step (TSweep now) m = (TSwept, tok_sweep now m)"

interpretation talk_tokens: capped token_step "\<lambda>_ _. True" tokens_ok length max_tokens
proof
  show "tokens_ok s \<Longrightarrow> tokens_ok (snd (token_step x s))" for s x
    by (cases x) (auto simp: mint_ok tokens_ok_prune tok_sweep_def)
qed (simp add: tokens_ok_def)

lemma new_tokens_ok: "tokens_ok new_token_store"
  by (simp add: tokens_ok_def new_token_store_def count_for_def)

text \<open>
  One account cannot sign the others out of the chat. After any sequence of connects, lookups and
  sweeps the table holds at most 20000 tokens, at most ten of one mailbox. A connect then gives its
  mailbox a token that resolves to it for exactly twelve hours; and every unexpired token of another
  mailbox still resolves as before, unless 20000 unexpired tokens fill the table.
\<close>

theorem token_pressure_stays_home:
  fixes ops now e rand_id
  defines "m \<equiv> snd (run_ops token_step ops new_token_store)"
  defines "m' \<equiv> snd (mint rand_id e now m)"
  assumes "rand_id \<noteq> []" "rand_id \<notin> fst ` set m"
  shows "length m' \<le> 20000 \<and> count_for e' m' \<le> 10
    \<and> (\<forall>later. tok_lookup rand_id later m' = (if later < now + 12 * hour then Some e else None))
    \<and> (length (filter (unexpired now) m) < 20000 \<longrightarrow>
        (\<forall>tok owner later. now \<le> later \<longrightarrow> tok_lookup tok later m = Some owner \<longrightarrow> owner \<noteq> e \<longrightarrow>
            tok_lookup tok later m' = Some owner))"
proof -
  have ok: "tokens_ok m" unfolding m_def by (rule talk_tokens.run_keeps [OF new_tokens_ok]) simp
  then have ok': "tokens_ok m'" by (simp add: m'_def mint_ok)
  have "tok_lookup rand_id later m' = (if later < now + 12 * hour then Some e else None)" for later
    using assms(3) by (simp add: m'_def mint_eq tok_lookup_def gomap_simps token_ttl_def)
  moreover have "tok_lookup tok later m' = Some owner"
    if "length (filter (unexpired now) m) < 20000" "now \<le> later" "tok_lookup tok later m = Some owner" "owner \<noteq> e" for tok owner later
  proof -
    from that(3) obtain r where r: "tok \<noteq> []" "map_get m tok = Some r" "later < tk_expires r" "owner = tk_email r"
      by (auto simp: tok_lookup_def split: if_splits option.splits)
    moreover have "tok \<noteq> rand_id" using r(2) assms(4) by (metis domI domIff map_get_domain)
    ultimately have "map_get m' tok = Some r"
      unfolding m'_def using that by (intro mint_keeps_other [OF ok]) (auto simp: max_tokens_def)
    with r show ?thesis by (simp add: tok_lookup_def)
  qed
  ultimately show ?thesis
    using ok' by (simp add: tokens_ok_def max_tokens_def max_tokens_per_email_def)
qed

theorem token_pressure_stays_home_witness:
  "tok_lookup ''t1'' 5 (snd (mint ''t2'' ''eve'' 3 (snd (run_ops token_step [TMint ''t1'' ''bob'' 1] new_token_store)))) = Some ''bob''"
proof -
  let ?m = "snd (run_ops token_step [TMint ''t1'' ''bob'' 1] new_token_store)"
  have m: "?m = [(''t1'', \<lparr>tk_email = ''bob'', tk_expires = 1 + token_ttl\<rparr>)]"
    by (simp add: mint_def new_token_store_def evict_quota.simps count_for_def max_tokens_per_email_def max_tokens_def)
  have "tok_lookup ''t1'' 5 ?m = Some ''bob''" by (simp only: m) (simp add: tok_lookup_def token_ttl_def dur_defs)
  moreover have "''t2'' \<notin> fst ` set ?m" "length (filter (unexpired 3) ?m) < 20000" by (simp_all only: m) simp_all
  ultimately show ?thesis using token_pressure_stays_home [of "''t2''" "[TMint ''t1'' ''bob'' 1]" "''eve''" 3] by auto
qed

end
