(* ===== verification/Talk_Engine.thy ===== *)
theory Talk_Engine
  imports Talk_Hub Talk_Tokens
begin

text \<open>
  The chat engine (src/internal/vayuos/vayutalk/engine.go): it owns the store, the hub and the tokens
  and composes their operations. The credential check and the directory of public keys are
  injected functions, absent when not wired. An operation here runs its calls one after the other;
  as each call takes the lock of its own part only, the race of Send with Subscribe is stated on the
  sequences of their calls.
\<close>

record talk_deps =
  dp_verify :: "(string \<Rightarrow> string \<Rightarrow> bool) option"
  dp_pubkey :: "(string \<Rightarrow> (string \<times> string) option) option"

record engine =
  tg_enabled :: bool
  tg_store :: talk_store
  tg_hub :: hub
  tg_tokens :: token_store
  tg_done :: bool

datatype engine_error = TalkDisabled | TalkNotInjected

definition new_engine :: "bool \<Rightarrow> engine" where
  "new_engine enabled = \<lparr>tg_enabled = enabled, tg_store = new_store, tg_hub = new_hub, tg_tokens = new_token_store, tg_done = False\<rparr>"

definition engine_start :: "talk_deps \<Rightarrow> engine \<Rightarrow> engine_error option" where
  "engine_start d g =
     (if \<not> tg_enabled g then Some TalkDisabled
      else if dp_verify d = None \<or> dp_pubkey d = None then Some TalkNotInjected
      else None)"

definition engine_stop :: "engine \<Rightarrow> engine" where
  "engine_stop g = (if tg_done g then g else g\<lparr>tg_done := True\<rparr>)"

text \<open>One tick of the purge loop; \<open>ord\<close> is the order in which the store's map is visited.\<close>

definition purge_tick :: "string list \<Rightarrow> time \<Rightarrow> engine \<Rightarrow> engine" where
  "purge_tick ord now g =
     (if tg_done g then g
      else (let (rs, st) = purge_expired ord now (tg_store g) in
            g\<lparr>tg_store := st, tg_hub := fold (\<lambda>(sender, i). publish_receipt sender i ''expired'') rs (tg_hub g),
               tg_tokens := tok_sweep now (tg_tokens g)\<rparr>))"

definition connect :: "talk_deps \<Rightarrow> string \<Rightarrow> time \<Rightarrow> string \<Rightarrow> string \<Rightarrow> engine \<Rightarrow> string option \<times> engine" where
  "connect d rand_id now email password g =
     (if \<not> tg_enabled g then (None, g)
      else case dp_verify d of
        None \<Rightarrow> (None, g)
      | Some verify \<Rightarrow>
          if \<not> verify email password then (None, g)
          else (let (tok, m) = mint rand_id email now (tg_tokens g) in
                (if tok = [] then None else Some tok, g\<lparr>tg_tokens := m\<rparr>)))"

definition authenticate :: "string \<Rightarrow> time \<Rightarrow> engine \<Rightarrow> string option" where
  "authenticate tok now g = tok_lookup tok now (tg_tokens g)"

definition eng_subscribe :: "string \<Rightarrow> engine \<Rightarrow> (talk_error + talk_env list \<times> subscriber) \<times> engine" where
  "eng_subscribe u g =
     (case hub_subscribe u (tg_hub g) of
        (Inl err, h) \<Rightarrow> (Inl err, g\<lparr>tg_hub := h\<rparr>)
      | (Inr s, h) \<Rightarrow> (Inr (store_queued u (tg_store g), s), g\<lparr>tg_hub := h\<rparr>))"

definition eng_subscribe_web :: "string \<Rightarrow> engine \<Rightarrow> (talk_error + talk_env list \<times> subscriber) \<times> engine" where
  "eng_subscribe_web u g =
     (case hub_subscribe u (tg_hub g) of
        (Inl err, h) \<Rightarrow> (Inl err, g\<lparr>tg_hub := h\<rparr>)
      | (Inr s, h) \<Rightarrow> (Inr (store_queued_web u (tg_store g), s), g\<lparr>tg_hub := h\<rparr>))"

definition eng_online :: "string \<Rightarrow> engine \<Rightarrow> bool" where
  "eng_online u g \<longleftrightarrow> u \<noteq> [] \<and> hub_online u (tg_hub g)"

definition eng_publish_peer_key :: "string \<Rightarrow> string \<Rightarrow> engine \<Rightarrow> engine" where
  "eng_publish_peer_key u peer g =
     (if u = [] \<or> peer = [] then g else g\<lparr>tg_hub := publish_peer_key u peer (tg_hub g)\<rparr>)"

definition mark_web_read_as :: "string \<Rightarrow> string \<Rightarrow> engine \<Rightarrow> bool \<times> engine" where
  "mark_web_read_as i claimant g =
     (if i = [] \<or> claimant = [] then (False, g)
      else if recipient_of i (tg_store g) \<noteq> Some claimant then (False, g)
      else (let (ok, st) = mark_web_read i (tg_store g) in (ok, g\<lparr>tg_store := st\<rparr>)))"

definition eng_send ::
  "int \<Rightarrow> string \<Rightarrow> time \<Rightarrow> string \<Rightarrow> string \<Rightarrow> string \<Rightarrow> int \<Rightarrow> string \<Rightarrow> engine \<Rightarrow> (talk_error + string \<times> bool \<times> bool) \<times> engine" where
  "eng_send ttl rand_id now from to cipher burn mode g =
     (case new_envelope ttl rand_id from to cipher burn mode now of
        Inl err \<Rightarrow> (Inl err, g)
      | Inr e \<Rightarrow>
          if mode = ''store'' then
            (case store_enqueue e (tg_store g) of
               (Some err, st) \<Rightarrow> (Inl err, g\<lparr>tg_store := st\<rparr>)
             | (None, st) \<Rightarrow>
                 (let (delivered, h) = hub_publish e (tg_hub g) in
                  (Inr (tv_id e, delivered, \<not> delivered), g\<lparr>tg_store := st, tg_hub := h\<rparr>)))
          else (let (delivered, h) = hub_publish e (tg_hub g) in
                (Inr (tv_id e, delivered, False), g\<lparr>tg_hub := h\<rparr>)))"

definition ack :: "string \<Rightarrow> engine \<Rightarrow> engine" where
  "ack i g =
     (case store_delete i (tg_store g) of
        (None, st) \<Rightarrow> g\<lparr>tg_store := st\<rparr>
      | (Some sender, st) \<Rightarrow> g\<lparr>tg_store := st, tg_hub := publish_receipt sender i ''read'' (tg_hub g)\<rparr>)"

definition addressed_to :: "string \<Rightarrow> string \<Rightarrow> engine \<Rightarrow> bool" where
  "addressed_to i claimant g \<longleftrightarrow>
     (case recipient_of i (tg_store g) of None \<Rightarrow> False | Some to \<Rightarrow> equal_fold to claimant)"

definition ack_as_returning_sender :: "string \<Rightarrow> string \<Rightarrow> engine \<Rightarrow> string option \<times> engine" where
  "ack_as_returning_sender i claimant g =
     (if i = [] \<or> claimant = [] then (None, g)
      else if \<not> addressed_to i claimant g then (None, g)
      else case store_delete i (tg_store g) of
        (None, st) \<Rightarrow> (None, g\<lparr>tg_store := st\<rparr>)
      | (Some sender, st) \<Rightarrow>
          (Some sender, g\<lparr>tg_store := st, tg_hub := publish_receipt sender i ''read'' (tg_hub g)\<rparr>))"

definition ack_as :: "string \<Rightarrow> string \<Rightarrow> engine \<Rightarrow> bool \<times> engine" where
  "ack_as i claimant g =
     (if i = [] \<or> claimant = [] then (False, g)
      else if \<not> addressed_to i claimant g then (False, g)
      else (True, ack i g))"

definition eng_publish_receipt :: "string \<Rightarrow> string \<Rightarrow> string \<Rightarrow> engine \<Rightarrow> engine" where
  "eng_publish_receipt u i status g = g\<lparr>tg_hub := publish_receipt u i status (tg_hub g)\<rparr>"

definition pub_key :: "talk_deps \<Rightarrow> string \<Rightarrow> (string \<times> string) option" where
  "pub_key d email = (case dp_pubkey d of None \<Rightarrow> None | Some f \<Rightarrow> f email)"

section \<open>The machine\<close>

text \<open>Every operation with what it reads of the world: the clock, the random id, the order of a range loop.\<close>

datatype engine_op =
  EStop | EPurge "string list" time | EConnect string time string string
| ESubscribe string | ESubscribeWeb string | ECancel string subscriber | ERecv nat
| EPeerKey string string | EMarkWeb string string
| ESend int string time string string string int string
| EAck string | EAckSender string string | EAckAs string string | EReceipt string string string

fun engine_step :: "talk_deps \<Rightarrow> engine_op \<Rightarrow> engine \<Rightarrow> unit \<times> engine" where
  "engine_step d EStop g = ((), engine_stop g)"
| "engine_step d (EPurge ord now) g = ((), purge_tick ord now g)"
| "engine_step d (EConnect rand_id now email password) g = ((), snd (connect d rand_id now email password g))"
| "engine_step d (ESubscribe u) g = ((), snd (eng_subscribe u g))"
| "engine_step d (ESubscribeWeb u) g = ((), snd (eng_subscribe_web u g))"
| "engine_step d (ECancel u s) g = ((), g\<lparr>tg_hub := hub_cancel u s (tg_hub g)\<rparr>)"
| "engine_step d (ERecv c) g = ((), g\<lparr>tg_hub := snd (hub_recv c (tg_hub g))\<rparr>)"
| "engine_step d (EPeerKey u p) g = ((), eng_publish_peer_key u p g)"
| "engine_step d (EMarkWeb i c) g = ((), snd (mark_web_read_as i c g))"
| "engine_step d (ESend ttl rand_id now from to cipher burn mode) g =
     ((), snd (eng_send ttl rand_id now from to cipher burn mode g))"
| "engine_step d (EAck i) g = ((), ack i g)"
| "engine_step d (EAckSender i c) g = ((), snd (ack_as_returning_sender i c g))"
| "engine_step d (EAckAs i c) g = ((), snd (ack_as i c g))"
| "engine_step d (EReceipt u i st) g = ((), eng_publish_receipt u i st g)"

fun engine_pre :: "engine_op \<Rightarrow> engine \<Rightarrow> bool" where
  "engine_pre (EPurge ord now) g \<longleftrightarrow> distinct ord \<and> set ord = fst ` set (ts_ids (tg_store g))"
| "engine_pre (ERecv c) g \<longleftrightarrow> c < length (hb_chans (tg_hub g))"
| "engine_pre (ESend ttl rand_id now from to cipher burn mode) g \<longleftrightarrow> rand_id \<notin> tv_id ` set (held (tg_store g))"
| "engine_pre _ g \<longleftrightarrow> True"

definition engine_ok :: "engine \<Rightarrow> bool" where
  "engine_ok g \<longleftrightarrow> store_ok (tg_store g) \<and> hub_ok (tg_hub g) \<and> tokens_ok (tg_tokens g)"


lemma new_envelope_Inr:
  "new_envelope ttl rand_id from to cipher burn mode now = Inr e \<Longrightarrow>
   tv_id e = rand_id \<and> tv_to e = to \<and> tv_from e = from \<and> tv_expires e = now + ttl * second \<and> \<not> tv_web e \<and> rand_id \<noteq> []"
  by (auto simp: new_envelope_def split: if_splits)

lemma receipts_ok: "hub_ok h \<Longrightarrow> hub_ok (fold (\<lambda>(sender, i). publish_receipt sender i status) rs h)"
  by (induction rs arbitrary: h) (auto simp: publish_ok)

text \<open>What each operation leaves of the three parts.\<close>

lemma connect_parts:
  "tg_store (snd (connect d r now e p g)) = tg_store g" "tg_hub (snd (connect d r now e p g)) = tg_hub g"
  "tokens_ok (tg_tokens g) \<Longrightarrow> tokens_ok (tg_tokens (snd (connect d r now e p g)))"
  by (auto simp: connect_def Let_def case_prod_beta mint_ok split: option.split)

lemma subscribe_parts:
  "tg_store (snd (eng_subscribe u g)) = tg_store g" "tg_tokens (snd (eng_subscribe u g)) = tg_tokens g"
  "tg_hub (snd (eng_subscribe u g)) = snd (hub_subscribe u (tg_hub g))"
  "tg_store (snd (eng_subscribe_web u g)) = tg_store g" "tg_tokens (snd (eng_subscribe_web u g)) = tg_tokens g"
  "tg_hub (snd (eng_subscribe_web u g)) = snd (hub_subscribe u (tg_hub g))"
  by (auto simp: eng_subscribe_def eng_subscribe_web_def split: prod.split sum.split)

lemma mark_parts:
  "tg_store (snd (mark_web_read_as i c g)) = tg_store g \<or> tg_store (snd (mark_web_read_as i c g)) = snd (mark_web_read i (tg_store g))"
  "tg_tokens (snd (mark_web_read_as i c g)) = tg_tokens g" "tg_hub (snd (mark_web_read_as i c g)) = tg_hub g"
  by (auto simp: mark_web_read_as_def Let_def case_prod_beta)

lemma ack_parts:
  "tg_store (ack i g) = snd (store_delete i (tg_store g))" "tg_tokens (ack i g) = tg_tokens g"
  "tg_hub (ack i g) = tg_hub g \<or> (\<exists>sender. tg_hub (ack i g) = publish_receipt sender i ''read'' (tg_hub g))"
  by (auto simp: ack_def split: prod.split option.split)

text \<open>Both ownership-checked acknowledgements are a plain one, or nothing.\<close>

lemma ack_as_cases:
  "snd (ack_as i c g) = (if i \<noteq> [] \<and> c \<noteq> [] \<and> addressed_to i c g then ack i g else g)"
  "fst (ack_as i c g) \<longleftrightarrow> i \<noteq> [] \<and> c \<noteq> [] \<and> addressed_to i c g"
  "snd (ack_as_returning_sender i c g) = (if i \<noteq> [] \<and> c \<noteq> [] \<and> addressed_to i c g then ack i g else g)"
  by (auto simp: ack_as_def ack_as_returning_sender_def ack_def split: prod.split option.split)

lemma send_parts:
  fixes ttl now sender to cipher burn mode
  assumes "store_ok (tg_store g)" "rand_id \<notin> tv_id ` set (held (tg_store g))"
  defines "g' \<equiv> snd (eng_send ttl rand_id now sender to cipher burn mode g)"
  shows "store_ok (tg_store g')" "set (held (tg_store g)) \<subseteq> set (held (tg_store g'))"
    "tg_tokens g' = tg_tokens g" "hub_ok (tg_hub g) \<Longrightarrow> hub_ok (tg_hub g')"
proof -
  have enq: "store_ok (snd (store_enqueue e (tg_store g))) \<and> set (held (tg_store g)) \<subseteq> set (held (snd (store_enqueue e (tg_store g))))"
    if "new_envelope ttl rand_id sender to cipher burn mode now = Inr e" for e
  proof -
    from new_envelope_Inr [OF that] assms(2) have fresh: "tv_id e \<notin> tv_id ` set (held (tg_store g))" by simp
    have "held (snd (store_enqueue e (tg_store g))) = snd (bag_enqueue e (held (tg_store g)))"
      by (simp add: store_enqueue_ok(2) [OF assms(1) fresh])
    then show ?thesis using store_enqueue_ok(1) [OF assms(1) fresh] by (auto simp: bag_enqueue_def)
  qed
  show "tg_tokens g' = tg_tokens g"
    by (auto simp: g'_def eng_send_def Let_def case_prod_beta split: sum.split prod.split option.split)
  show "store_ok (tg_store g')" "set (held (tg_store g)) \<subseteq> set (held (tg_store g'))"
    using enq assms(1)
    by (auto simp: g'_def eng_send_def Let_def case_prod_beta split: sum.split prod.split option.split)
  show "hub_ok (tg_hub g')" if "hub_ok (tg_hub g)"
    using publish_ok(1) [OF that] that
    by (auto simp: g'_def eng_send_def Let_def case_prod_beta split: sum.split prod.split option.split)
qed

lemma ack_ok: "engine_ok g \<Longrightarrow> engine_ok (ack i g)"
  using ack_parts [of i g] delete_ok(1) [of "tg_store g" i] publish_ok(2) [of "tg_hub g"]
  by (auto simp: engine_ok_def)

lemma purge_tick_ok:
  assumes "engine_ok g" "distinct ord" "set ord = fst ` set (ts_ids (tg_store g))"
  shows "engine_ok (purge_tick ord now g)"
    and "set (filter (\<lambda>e. now < tv_expires e) (held (tg_store g))) \<subseteq> set (held (tg_store (purge_tick ord now g)))"
  using assms purge_ok [of "tg_store g" ord now] receipts_ok tokens_ok_prune
  by (auto simp: engine_ok_def purge_tick_def Let_def case_prod_beta tok_sweep_def)

lemma engine_step_ok:
  assumes "engine_ok g" "engine_pre x g"
  shows "engine_ok (snd (engine_step d x g))"
proof -
  have ok: "store_ok (tg_store g)" "hub_ok (tg_hub g)" "tokens_ok (tg_tokens g)" using assms(1) by (auto simp: engine_ok_def)
  show ?thesis
  proof (cases x)
    case EStop
    then show ?thesis using ok by (simp add: engine_ok_def engine_stop_def)
  next
    case (EPurge ord now)
    then show ?thesis using assms purge_tick_ok(1) by simp
  next
    case (EConnect r now e p)
    then show ?thesis using ok by (simp add: engine_ok_def connect_parts)
  next
    case (EPeerKey u p)
    then show ?thesis using ok by (simp add: engine_ok_def eng_publish_peer_key_def publish_ok)
  next
    case (EMarkWeb i c)
    then show ?thesis using ok mark_parts [of i c g] mark_ok(1) [OF ok(1), of i] by (auto simp: engine_ok_def)
  next
    case (ESend ttl r now sender to cipher burn mode)
    then show ?thesis using ok assms(2) send_parts [OF ok(1), of r] by (simp add: engine_ok_def)
  qed (use assms ok in \<open>simp_all add: engine_ok_def subscribe_parts subscribe_ok cancel_ok recv_ok ack_as_cases eng_publish_receipt_def publish_ok
      ack_ok [unfolded engine_ok_def]\<close>)
qed

interpretation talk_engine: machine "engine_step d" engine_pre engine_ok for d
  by unfold_locales (rule engine_step_ok)

lemma new_engine_ok: "engine_ok (new_engine b)"
  by (simp add: engine_ok_def new_engine_def new_store_ok new_hub_ok new_tokens_ok)


section \<open>An unread message survives\<close>

text \<open>The envelope, or the same with the mark of a web console, is held.\<close>

definition holds_env :: "talk_env \<Rightarrow> engine \<Rightarrow> bool" where
  "holds_env e g \<longleftrightarrow> (\<exists>x \<in> set (held (tg_store g)). x\<lparr>tv_web := False\<rparr> = e)"

text \<open>What may end it: its expiry, a plain Ack of its id, and an acknowledgement by its recipient.\<close>

fun spares :: "talk_env \<Rightarrow> engine_op \<Rightarrow> bool" where
  "spares e (EPurge ord now) \<longleftrightarrow> now < tv_expires e"
| "spares e (EAck i) \<longleftrightarrow> i \<noteq> tv_id e"
| "spares e (EAckSender i c) \<longleftrightarrow> \<not> (i = tv_id e \<and> equal_fold (tv_to e) c)"
| "spares e (EAckAs i c) \<longleftrightarrow> \<not> (i = tv_id e \<and> equal_fold (tv_to e) c)"
| "spares e _ \<longleftrightarrow> True"

lemma web_core: "x\<lparr>tv_web := False\<rparr> = e \<Longrightarrow> tv_id x = tv_id e \<and> tv_to x = tv_to e \<and> tv_expires x = tv_expires e \<and> tv_from x = tv_from e"
  by auto

lemma held_find: "store_ok st \<Longrightarrow> x \<in> set (held st) \<Longrightarrow> bag_find (tv_id x) (held st) = Some x"
  unfolding bag_find_def
  by (rule find_only) (auto simp: distinct_map dest!: distinct_held_ids inj_onD)

lemma holds_recipient: "engine_ok g \<Longrightarrow> holds_env e g \<Longrightarrow> recipient_of (tv_id e) (tg_store g) = Some (tv_to e)"
  using held_find [of "tg_store g"] web_core
  by (fastforce simp: engine_ok_def holds_env_def recipient_held)

lemma ack_spares: "engine_ok g \<Longrightarrow> holds_env e g \<Longrightarrow> i \<noteq> tv_id e \<Longrightarrow> holds_env e (ack i g)"
  using web_core by (fastforce simp: engine_ok_def holds_env_def ack_parts delete_ok bag_without_def)

lemma step_spares:
  assumes ok: "engine_ok g" and pre: "engine_pre x g" and e: "holds_env e g" "spares e x"
  shows "holds_env e (snd (engine_step d x g))"
proof -
  have st: "store_ok (tg_store g)" using ok by (simp add: engine_ok_def)
  have rcpt: "recipient_of (tv_id e) (tg_store g) = Some (tv_to e)" by (rule holds_recipient [OF ok e(1)])
  have "holds_env e (if i \<noteq> [] \<and> c \<noteq> [] \<and> addressed_to i c g then ack i g else g)"
    if "\<not> (i = tv_id e \<and> equal_fold (tv_to e) c)" for i c
    using that e(1) ack_spares [OF ok e(1), of i] rcpt by (cases "i = tv_id e") (auto simp: addressed_to_def)
  note acks = this
  show ?thesis
  proof (cases x)
    case (EPurge ord now)
    with e obtain y where "y \<in> set (held (tg_store g))" "y\<lparr>tv_web := False\<rparr> = e" "now < tv_expires y"
      by (auto simp: holds_env_def)
    then show ?thesis using purge_tick_ok(2) [OF ok, of ord now] pre EPurge by (auto simp: holds_env_def)
  next
    case (EMarkWeb i c)
    have "holds_env e g'" if "tg_store g' = snd (mark_web_read i (tg_store g))" for g'
    proof -
      obtain y where y: "y \<in> set (held (tg_store g))" "y\<lparr>tv_web := False\<rparr> = e" using e(1) by (auto simp: holds_env_def)
      let ?y = "if tv_id y = i then y\<lparr>tv_web := True\<rparr> else y"
      have "?y \<in> set (held (tg_store g'))" using y(1) by (auto simp: that mark_ok(2) [OF st] bag_mark_def)
      moreover have "?y\<lparr>tv_web := False\<rparr> = e" using y(2) by auto
      ultimately show ?thesis unfolding holds_env_def by blast
    qed
    then show ?thesis using mark_parts(1) [of i c g] e(1) EMarkWeb by (auto simp: holds_env_def)
  next
    case (ESend ttl r now sender to cipher burn mode)
    then have "set (held (tg_store g)) \<subseteq> set (held (tg_store (snd (engine_step d x g))))"
      using send_parts(2) [OF st, of r] pre by simp
    then show ?thesis using e(1) unfolding holds_env_def by blast
  next
    case (EAck i)
    then show ?thesis using e ack_spares [OF ok] by simp
  qed (use e acks in \<open>simp_all add: ack_as_cases\<close>, simp_all add: holds_env_def subscribe_parts connect_parts engine_stop_def
      eng_publish_peer_key_def eng_publish_receipt_def)
qed


text \<open>
  C6. An unread message survives. A store-mode message that was accepted stays with the engine through
  every sequence of operations of all users (sends, connects, streams opened, cancelled and evicted, web
  consoles marking it as displayed, acknowledgements of others and by others) until it expires or is
  acknowledged by its recipient: whenever the recipient then opens a stream, the message is among
  the envelopes flushed to it, with its text, sender and timer.
\<close>

theorem unread_message_survives:
  fixes d ops
  defines "g \<equiv> snd (run_ops (engine_step d) ops (new_engine True))"
  assumes granted: "granted (engine_step d) engine_pre ops (new_engine True)"
    and fresh: "rand_id \<notin> tv_id ` set (held (tg_store g))"
    and new: "new_envelope ttl rand_id from to cipher burn ''store'' now = Inr e"
    and sent: "eng_send ttl rand_id now from to cipher burn ''store'' g = (Inr res, g')"
    and later: "granted (engine_step d) engine_pre ops2 g'" "\<forall>x \<in> set ops2. spares e x"
    and stream: "eng_subscribe to (snd (run_ops (engine_step d) ops2 g')) = (Inr (queued, s), g'')"
  shows "\<exists>x \<in> set queued. x\<lparr>tv_web := False\<rparr> = e"
proof -
  have ok: "engine_ok g" unfolding g_def by (rule talk_engine.run_keeps [OF new_engine_ok granted])
  then have st: "store_ok (tg_store g)" by (simp add: engine_ok_def)
  have fresh': "tv_id e \<notin> tv_id ` set (held (tg_store g))" using fresh new_envelope_Inr [OF new] by simp
  have enq: "fst (store_enqueue e (tg_store g)) = None" "tg_store g' = snd (store_enqueue e (tg_store g))"
    using sent by (auto simp: eng_send_def new Let_def case_prod_beta split: prod.splits option.splits)
  with store_enqueue_ok(2) [OF st fresh'] have "held (tg_store g') = held (tg_store g) @ [e]"
    by (auto simp: bag_enqueue_def split: if_splits)
  then have "e \<in> set (held (tg_store g'))" by simp
  moreover have web: "e\<lparr>tv_web := False\<rparr> = e" using new_envelope_Inr [OF new] by simp
  ultimately have holds: "holds_env e g'" unfolding holds_env_def by blast
  have ok': "engine_ok g'"
    using engine_step_ok [of g "ESend ttl rand_id now from to cipher burn ''store''" d] ok fresh sent by simp
  let ?h = "snd (run_ops (engine_step d) ops2 g')"
  have "holds_env e ?h"
    by (rule talk_engine.run_preserves [OF ok' later(1), of "holds_env e"]) (use holds later(2) step_spares in auto)
  then obtain x where x: "x \<in> set (held (tg_store ?h))" "x\<lparr>tv_web := False\<rparr> = e" by (auto simp: holds_env_def)
  have "store_ok (tg_store ?h)" using talk_engine.run_keeps [OF ok' later(1)] by (simp add: engine_ok_def)
  moreover have "queued = store_queued to (tg_store ?h)"
    using stream by (auto simp: eng_subscribe_def split: prod.splits sum.splits)
  moreover have "tv_to x = to" using web_core [OF x(2)] new_envelope_Inr [OF new] by simp
  ultimately show ?thesis using x by (auto simp: queued_held)
qed


definition demo_engine :: engine where
  "demo_engine = \<lparr>tg_enabled = True,
      tg_store = \<lparr>ts_heap = [demo_envelope ''m1'' ''eve'' ''bob''], ts_users = [(''bob'', [0])], ts_ids = [(''m1'', 0)], ts_total = 1\<rparr>,
      tg_hub = new_hub, tg_tokens = [], tg_done = False\<rparr>"

lemma demo_new: "new_envelope 300 ''m1'' ''eve'' ''bob'' ''xyz'' 5 ''store'' 0 = Inr (demo_envelope ''m1'' ''eve'' ''bob'')"
  by (simp add: new_envelope_def clamp_burn_def max_ciphertext_bytes_def min_burn_seconds_def max_burn_seconds_def demo_envelope_def)

lemma demo_sent:
  "eng_send 300 ''m1'' 0 ''eve'' ''bob'' ''xyz'' 5 ''store'' (new_engine True) = (Inr (''m1'', False, True), demo_engine)"
  by (simp add: eng_send_def demo_new demo_engine_def)
    (simp add: new_engine_def store_enqueue_def new_store_def max_global_queue_def pending_def demo_envelope_def
      max_per_recipient_queue_def hub_publish_def new_hub_def streams_def new_token_store_def)

theorem unread_message_survives_witness:
  "\<exists>queued s g''. eng_subscribe ''bob'' (snd (run_ops (engine_step \<lparr>dp_verify = None, dp_pubkey = None\<rparr>)
        [EAckAs ''m1'' ''eve'', ESubscribe ''eve'', EPurge [''m1''] second]
        (snd (eng_send 300 ''m1'' 0 ''eve'' ''bob'' ''xyz'' 5 ''store'' (new_engine True))))) = (Inr (queued, s), g'')
     \<and> (\<exists>x \<in> set queued. tv_cipher x = ''xyz'')"
proof -
  let ?d = "\<lparr>dp_verify = None, dp_pubkey = None\<rparr>"
  let ?e = "demo_envelope ''m1'' ''eve'' ''bob''"
  let ?ops = "[EAckAs ''m1'' ''eve'', ESubscribe ''eve'', EPurge [''m1''] second]"
  have fresh: "''m1'' \<notin> tv_id ` set (held (tg_store (new_engine True)))" by (simp add: new_engine_def)
  have granted: "granted (engine_step ?d) engine_pre ?ops demo_engine" by code_simp
  have spared: "\<forall>x \<in> set ?ops. spares ?e x" by (simp add: demo_envelope_def equal_fold_def to_lower_def lower_c_def in_range_c_def dur_defs)
  have "\<not> isl (fst (eng_subscribe ''bob'' (snd (run_ops (engine_step ?d) ?ops demo_engine))))" by code_simp
  then obtain queued s g'' where stream: "eng_subscribe ''bob'' (snd (run_ops (engine_step ?d) ?ops demo_engine)) = (Inr (queued, s), g'')"
    by (metis isl_def prod.collapse surj_pair sum.exhaust_sel)
  have "\<exists>x \<in> set queued. x\<lparr>tv_web := False\<rparr> = ?e"
    by (rule unread_message_survives [where ops = "[]", unfolded run_ops.simps snd_conv granted.simps, OF TrueI fresh demo_new demo_sent granted spared stream])
  then obtain x where x: "x \<in> set queued" "x\<lparr>tv_web := False\<rparr> = ?e" by blast
  have "tv_cipher x = tv_cipher (x\<lparr>tv_web := False\<rparr>)" by simp
  also have "\<dots> = ''xyz''" unfolding x(2) by (simp add: demo_envelope_def)
  finally show ?thesis using stream x(1) unfolding demo_sent snd_conv by blast
qed


section \<open>Send against Subscribe\<close>

text \<open>The calls of the two operations, each atomic under the lock of its part.\<close>

fun race_step :: "store_op + hub_op \<Rightarrow> talk_store \<times> hub \<Rightarrow> (store_out + hub_out) \<times> talk_store \<times> hub" where
  "race_step (Inl x) (st, h) = (case store_step x st of (out, st') \<Rightarrow> (Inl out, st', h))"
| "race_step (Inr x) (st, h) = (case hub_step x h of (out, h') \<Rightarrow> (Inr out, st, h'))"

definition send_calls :: "talk_env \<Rightarrow> (store_op + hub_op) list" where
  "send_calls e = [Inl (SEnqueue e), Inr (HPublish e)]"

definition subscribe_calls :: "string \<Rightarrow> (store_op + hub_op) list" where
  "subscribe_calls u = [Inr (HSubscribe u), Inl (SQueued u)]"

definition buffer_of :: "hub \<Rightarrow> subscriber \<Rightarrow> talk_event list" where
  "buffer_of h s = ch_buf (hb_chans h ! sb_ch s)"

lemma calls_in_a_row:
  "eng_subscribe u g = (Inr (queued, s), g') \<Longrightarrow>
     run_ops race_step (subscribe_calls u) (tg_store g, tg_hub g) = ([Inr (HStream (Inr s)), Inl (OEnvs queued)], tg_store g', tg_hub g')"
  "store_enqueue e (tg_store g) = (None, st) \<Longrightarrow>
     run_ops race_step (send_calls e) (tg_store g, tg_hub g)
     = ([Inl (OError None), Inr (HDelivered (fst (hub_publish e (tg_hub g))))], st, snd (hub_publish e (tg_hub g)))"
  by (auto simp: eng_subscribe_def subscribe_calls_def send_calls_def run_ops.simps Let_def case_prod_beta split: prod.splits sum.splits)

lemma send_other:
  assumes ok: "hub_ok h" and t: "t \<in> set (streams h u)" and s: "s \<in> set (streams h u)" "t \<noteq> s"
  shows "buffer_of (snd (send_locked u t evt h)) s = buffer_of h s" "s \<in> set (streams (snd (send_locked u t evt h)) u)"
proof -
  have "sb_ch t \<noteq> sb_ch s" using chans_okD(1) [OF hub_okD(8) [OF ok] t s(1)] s(2) by auto
  then show "buffer_of (snd (send_locked u t evt h)) s = buffer_of h s"
    by (auto simp: buffer_of_def send_locked_def Let_def remove_locked_def close_chan_def)
  show "s \<in> set (streams (snd (send_locked u t evt h)) u)"
    using send_locked_ok(2) [OF ok t, of u evt] s by auto
qed

lemma send_room:
  assumes ok: "hub_ok h" and s: "s \<in> set (streams h u)" and room: "length (buffer_of h s) < subscriber_buffer"
  shows "evt \<in> set (buffer_of (snd (send_locked u s evt h)) s)" "s \<in> set (streams (snd (send_locked u s evt h)) u)"
proof -
  have "sb_ch s < length (hb_chans h)" "ch_open (hb_chans h ! sb_ch s)"
    using chans_okD(2,3) [OF hub_okD(8) [OF ok]] s by blast+
  with room s show "evt \<in> set (buffer_of (snd (send_locked u s evt h)) s)" "s \<in> set (streams (snd (send_locked u s evt h)) u)"
    by (simp_all add: buffer_of_def send_locked_def Let_def)
qed

lemma send_all_delivers:
  assumes "hub_ok h" "distinct S" "set S \<subseteq> set (streams h u)" "s \<in> set (streams h u)"
    and "if s \<in> set S then length (buffer_of h s) < subscriber_buffer else evt \<in> set (buffer_of h s)"
  shows "evt \<in> set (buffer_of (snd (send_all u evt S h)) s)"
  using assms
proof (induction S arbitrary: h)
  case Nil
  then show ?case by simp
next
  case (Cons t S)
  let ?h = "snd (send_locked u t evt h)"
  have t: "t \<in> set (streams h u)" using Cons.prems(3) by simp
  have "set S \<subseteq> set (streams ?h u)" using Cons.prems(2,3) send_locked_ok(2) [OF Cons.prems(1) t, of u evt] by auto
  moreover have "s \<in> set (streams ?h u) \<and> (if s \<in> set S then length (buffer_of ?h s) < subscriber_buffer else evt \<in> set (buffer_of ?h s))"
  proof (cases "t = s")
    case True
    then show ?thesis using Cons.prems send_room [OF Cons.prems(1,4), of evt] by simp
  next
    case False
    then show ?thesis using Cons.prems send_other [OF Cons.prems(1) t Cons.prems(4) False, of evt] by simp
  qed
  ultimately have "evt \<in> set (buffer_of (snd (send_all u evt S ?h)) s)"
    using Cons.IH [of ?h] Cons.prems(2) send_locked_ok(1) [OF Cons.prems(1) t, of evt] by simp
  then show ?case by (simp add: case_prod_beta Let_def)
qed

lemma publish_delivers:
  "hub_ok h \<Longrightarrow> s \<in> set (streams h (tv_to e)) \<Longrightarrow> length (buffer_of h s) < subscriber_buffer \<Longrightarrow>
   EnvelopeEvent (envelope_payload_of e) \<in> set (buffer_of (snd (hub_publish e h)) s)"
  by (auto simp: hub_publish_def distinct_streams intro!: send_all_delivers)

lemma new_stream:
  assumes ok: "hub_ok h" and s: "fst (hub_subscribe u h) = Inr s"
  shows "s \<in> set (streams (snd (hub_subscribe u h)) u)" "buffer_of (snd (hub_subscribe u h)) s = []"
  using s by (auto simp: hub_subscribe_def buffer_of_def Let_def split: if_splits)

lemma shuffles_two: "shuffles [a, b] [c, d] =
   {[a, b, c, d], [a, c, b, d], [a, c, d, b], [c, a, b, d], [c, a, d, b], [c, d, a, b]}"
  by (simp add: insert_commute)

text \<open>
  C16. No message falls between Send and Subscribe. Send enqueues and then publishes; Subscribe opens the
  stream and then reads the queue; each call takes its own lock and the four can interleave in every way.
  In each of the interleavings in which both succeed, the new stream gets the message: it is in the queue
  that was read, or in the buffer of the stream.
\<close>

theorem send_subscribe_race:
  assumes ok: "store_ok st" "hub_ok h" and fresh: "tv_id e \<notin> tv_id ` set (held st)"
    and calls: "calls \<in> shuffles (send_calls e) (subscribe_calls (tv_to e))"
    and outs: "run_ops race_step calls (st, h) = (outs, st', h')"
    and sent: "Inl (OError None) \<in> set outs" and stream: "Inr (HStream (Inr s)) \<in> set outs"
  shows "(\<exists>queued. Inl (OEnvs queued) \<in> set outs \<and> e \<in> set queued)
    \<or> EnvelopeEvent (envelope_payload_of e) \<in> set (buffer_of h' s)"
proof -
  let ?u = "tv_to e" and ?st = "snd (store_enqueue e st)"
  have "e \<in> set (store_queued ?u ?st)" if "fst (store_enqueue e st) = None"
  proof -
    have "held ?st = held st @ [e]"
      using store_enqueue_ok(2) [OF ok(1) fresh] that by (auto simp: bag_enqueue_def split: if_splits)
    then show ?thesis by (simp add: queued_held [OF store_enqueue_ok(1) [OF ok(1) fresh]])
  qed
  note queue = this
  have live: "EnvelopeEvent (envelope_payload_of e) \<in> set (buffer_of (snd (hub_publish e (snd (hub_subscribe ?u h)))) s)"
    if "fst (hub_subscribe ?u h) = Inr s"
    using publish_delivers [OF subscribe_ok [OF ok(2)] new_stream(1) [OF ok(2) that]] new_stream(2) [OF ok(2) that]
    by (simp add: subscriber_buffer_def)
  let ?enq = "Inl (SEnqueue e)" and ?pub = "Inr (HPublish e)" and ?sub = "Inr (HSubscribe ?u)" and ?que = "Inl (SQueued ?u)"
  from calls consider (last) "calls = [?sub, ?que, ?enq, ?pub]"
    | (seen) "calls \<in> {[?enq, ?pub, ?sub, ?que], [?enq, ?sub, ?pub, ?que], [?enq, ?sub, ?que, ?pub], [?sub, ?enq, ?pub, ?que], [?sub, ?enq, ?que, ?pub]}"
    unfolding send_calls_def subscribe_calls_def shuffles_two by auto
  then show ?thesis
  proof cases
    case last
    then show ?thesis using outs sent stream live by (auto simp: run_ops.simps Let_def case_prod_beta map_prod_def)
  next
    case seen
    then show ?thesis
      using outs sent queue by (auto simp: run_ops.simps Let_def case_prod_beta map_prod_def)
  qed
qed


theorem send_subscribe_race_witness:
  "\<exists>outs st' h'. run_ops race_step [Inr (HSubscribe ''b''), Inl (SQueued ''b''), Inl (SEnqueue (demo_envelope ''1'' ''a'' ''b'')),
       Inr (HPublish (demo_envelope ''1'' ''a'' ''b''))] (new_store, new_hub) = (outs, st', h')
     \<and> EnvelopeEvent (envelope_payload_of (demo_envelope ''1'' ''a'' ''b'')) \<in> set (buffer_of h' \<lparr>sb_ch = 0, sb_seq = 1\<rparr>)"
proof -
  let ?e = "demo_envelope ''1'' ''a'' ''b''"
  let ?calls = "[Inr (HSubscribe ''b''), Inl (SQueued ''b''), Inl (SEnqueue ?e), Inr (HPublish ?e)]"
  obtain outs st' h' where outs: "run_ops race_step ?calls (new_store, new_hub) = (outs, st', h')" by (metis surj_pair)
  have sub: "hub_subscribe ''b'' new_hub = (Inr \<lparr>sb_ch = 0, sb_seq = 1\<rparr>, snd (hub_subscribe ''b'' new_hub))"
    by (simp add: hub_subscribe_def new_hub_def max_global_streams_def Let_def evict_excess.simps streams_def max_streams_per_user_def)
  have enq: "store_enqueue ?e new_store = (None, snd (store_enqueue ?e new_store))"
    by (simp add: store_enqueue_def new_store_def max_global_queue_def pending_def max_per_recipient_queue_def Let_def)
  have "Inl (OError None) \<in> set outs" "Inr (HStream (Inr \<lparr>sb_ch = 0, sb_seq = 1\<rparr>)) \<in> set outs"
      "\<And>queued. Inl (OEnvs queued) \<in> set outs \<Longrightarrow> queued = []"
    using outs sub enq
    by (auto simp: run_ops.simps Let_def case_prod_beta map_prod_def store_queued_def envs_def pending_def new_store_def) (metis fst_conv)+
  moreover have "?calls \<in> shuffles (send_calls ?e) (subscribe_calls (tv_to ?e))"
    by (simp add: send_calls_def subscribe_calls_def shuffles_two demo_envelope_def)
  ultimately have "EnvelopeEvent (envelope_payload_of ?e) \<in> set (buffer_of h' \<lparr>sb_ch = 0, sb_seq = 1\<rparr>)"
    using send_subscribe_race [OF new_store_ok new_hub_ok _ _ outs, of "?e"] by fastforce
  then show ?thesis using outs by blast
qed

section \<open>Only the recipient\<close>

text \<open>
  C29. Only the recipient acknowledges. On whatever engine the operations lead to: an acknowledgement or a web mark of
  an unknown message, or by someone it is not addressed to, is refused and changes nothing. One by the
  recipient (whatever the case of the address) destroys exactly that message and
  returns its sender; afterwards it is unknown.
\<close>

theorem only_recipient_acks:
  fixes d ops b
  defines "g \<equiv> snd (run_ops (engine_step d) ops (new_engine b))"
  assumes "granted (engine_step d) engine_pre ops (new_engine b)"
  shows "case bag_find i (held (tg_store g)) of
      None \<Rightarrow> ack_as i c g = (False, g) \<and> ack_as_returning_sender i c g = (None, g) \<and> mark_web_read_as i c g = (False, g)
    | Some e \<Rightarrow>
        (tv_to e \<noteq> c \<longrightarrow> mark_web_read_as i c g = (False, g))
        \<and> (\<not> equal_fold (tv_to e) c \<longrightarrow> ack_as i c g = (False, g) \<and> ack_as_returning_sender i c g = (None, g))
        \<and> (equal_fold (tv_to e) c \<and> i \<noteq> [] \<and> c \<noteq> [] \<longrightarrow>
             fst (ack_as i c g) \<and> fst (ack_as_returning_sender i c g) = Some (tv_from e)
             \<and> snd (ack_as_returning_sender i c g) = snd (ack_as i c g)
             \<and> held (tg_store (snd (ack_as i c g))) = bag_without i (held (tg_store g))
             \<and> \<not> fst (ack_as i c (snd (ack_as i c g))))"
proof -
  have "engine_ok g" unfolding g_def by (rule talk_engine.run_keeps [OF new_engine_ok assms(2)])
  then have st: "store_ok (tg_store g)" by (simp add: engine_ok_def)
  note rcpt = recipient_held [OF st, of i] and del = delete_ok [OF st, of i]
  have gone: "bag_find i (bag_without i q) = None" for q by (auto simp: bag_find_def bag_without_def find_None_iff)
  have "\<not> addressed_to i c (ack i g)"
    by (simp add: addressed_to_def ack_parts recipient_held [OF del(1)] del(3) gone)
  then show ?thesis
    using rcpt del
    by (auto simp: ack_as_def ack_as_returning_sender_def mark_web_read_as_def addressed_to_def ack_def split: option.splits prod.splits)
qed

lemma demo_folds: "equal_fold ''bob'' ''BOB''" "equal_fold ''Bob'' ''bob''" "\<not> equal_fold ''bob'' ''mallory''"
  by code_simp+

theorem only_recipient_acks_witness:
  "let g = snd (eng_send 300 ''m1'' 0 ''eve'' ''bob'' ''xyz'' 5 ''store'' (new_engine True))
   in ack_as ''m1'' ''mallory'' g = (False, g) \<and> held (tg_store (snd (ack_as ''m1'' ''BOB'' g))) = []"
proof -
  let ?ops = "[ESend 300 ''m1'' 0 ''eve'' ''bob'' ''xyz'' 5 ''store'']" and ?d = "\<lparr>dp_verify = None, dp_pubkey = None\<rparr>"
  have g: "snd (run_ops (engine_step ?d) ?ops (new_engine True)) = demo_engine" by (simp add: demo_sent)
  have granted: "granted (engine_step ?d) engine_pre ?ops (new_engine True)" by (simp add: new_engine_def)
  have held: "held (tg_store demo_engine) = [demo_envelope ''m1'' ''eve'' ''bob'']"
    by (simp add: demo_engine_def held_def live_def envs_def)
  have find: "bag_find ''m1'' (held (tg_store demo_engine)) = Some (demo_envelope ''m1'' ''eve'' ''bob'')"
    by (simp add: held bag_find_def demo_envelope_def)
  have "bag_without ''m1'' [demo_envelope ''m1'' ''eve'' ''bob''] = []" by (simp add: bag_without_def demo_envelope_def)
  then show ?thesis
    using only_recipient_acks [OF granted, of "''m1''" "''mallory''", unfolded g find]
      only_recipient_acks [OF granted, of "''m1''" "''BOB''", unfolded g find] demo_folds
    by (simp add: demo_sent held) (simp add: demo_envelope_def)
qed

text \<open>The web mark compares the address exactly where the acknowledgements fold its case.\<close>

lemma web_mark_is_stricter_than_ack:
  "let g = snd (eng_send 300 ''m1'' 0 ''eve'' ''Bob'' ''xyz'' 5 ''store'' (new_engine True))
   in \<not> fst (mark_web_read_as ''m1'' ''bob'' g) \<and> fst (ack_as ''m1'' ''bob'' g)"
  by (simp add: eng_send_def new_envelope_def new_engine_def store_enqueue_def new_store_def max_global_queue_def pending_def
      max_per_recipient_queue_def hub_publish_def new_hub_def streams_def new_token_store_def max_ciphertext_bytes_def
      mark_web_read_as_def ack_as_def addressed_to_def recipient_of_def demo_folds Let_def)

end
