(* ===== verification/Account_Lock.thy ===== *)
theory Account_Lock
  imports Vayu_Prelude
begin

text \<open>
  The account lockout shared by every door that takes a password or a code
  (src/internal/auth/accountlock.go). The package's mutex makes each operation atomic. The set of
  sources of an account is a Go map used as a set: here the list of its keys, each once. Every
  operation takes the clock it reads.
\<close>

definition account_fail_max :: nat where "account_fail_max = 5"
definition account_fail_window :: dur where "account_fail_window = 15 * minute"
definition account_base_lock :: dur where "account_base_lock = 15 * minute"
definition account_max_lock :: dur where "account_max_lock = 24 * hour"
definition account_level_reset :: dur where "account_level_reset = 24 * hour"
definition account_sources_max :: nat where "account_sources_max = 10"

lemmas account_const_defs = account_fail_max_def account_fail_window_def account_base_lock_def
  account_max_lock_def account_level_reset_def account_sources_max_def

record acct =
  at_failures :: "time list"
  at_level :: nat
  at_until :: time
  at_sources :: "string list"

type_synonym accounts = "(string, acct) gomap"

definition new_acct :: acct where
  "new_acct = \<lparr>at_failures = [], at_level = 0, at_until = zero_time, at_sources = []\<rparr>"

definition account_key :: "string \<Rightarrow> string" where
  "account_key account = to_lower (trim_space account)"

definition account_lockout_policy :: "nat \<times> dur \<times> dur \<times> dur" where
  "account_lockout_policy = (account_fail_max, account_fail_window, account_base_lock, account_max_lock)"

definition check_account_lockout :: "time \<Rightarrow> string \<Rightarrow> accounts \<Rightarrow> bool \<times> time" where
  "check_account_lockout now account sts =
     (let k = account_key account in
      if k = '''' then (False, zero_time)
      else case map_get sts k of
        None \<Rightarrow> (False, zero_time)
      | Some s \<Rightarrow> if now < at_until s then (True, at_until s) else (False, zero_time))"

text \<open>The wait of a lockout: an int64 shift, then the cap that also catches an overflow.\<close>

definition lock_wait :: "nat \<Rightarrow> dur" where
  "lock_wait lvl =
     (let wait = dur_shl account_base_lock lvl
      in if wait > account_max_lock \<or> wait \<le> 0 then account_max_lock else wait)"

definition add_source :: "string \<Rightarrow> string list \<Rightarrow> string list" where
  "add_source src srcs =
     (if src \<noteq> '''' \<and> length srcs < account_sources_max then List.insert src srcs else srcs)"

text \<open>What RecordAccountFailure does to one account that is not locked at \<open>now\<close>.\<close>

definition acct_count :: "time \<Rightarrow> string \<Rightarrow> acct \<Rightarrow> acct \<times> (time \<times> string list) option" where
  "acct_count now source s =
     (let s = (if at_until s \<noteq> zero_time \<and> time_sub now (at_until s) > account_level_reset
               then s\<lparr>at_level := 0\<rparr> else s);
          kept = filter (\<lambda>t. time_sub now t < account_fail_window) (at_failures s);
          s = s\<lparr>at_failures := kept @ [now], at_sources := add_source source (at_sources s)\<rparr>
      in if length (at_failures s) < account_fail_max then (s, None)
         else (let until = now + lock_wait (at_level s) in
               (s\<lparr>at_level := Suc (at_level s), at_until := until, at_failures := [], at_sources := []\<rparr>,
                Some (until, sort (at_sources s)))))"

record fail_result =
  fr_locked :: bool
  fr_until :: time
  fr_notify :: "(string \<times> time \<times> string list) option"

definition record_account_failure :: "time \<Rightarrow> string \<Rightarrow> string \<Rightarrow> accounts \<Rightarrow> fail_result \<times> accounts" where
  "record_account_failure now account source sts =
     (let k = account_key account in
      if k = '''' then (\<lparr>fr_locked = False, fr_until = zero_time, fr_notify = None\<rparr>, sts)
      else (let s = (case map_get sts k of Some s \<Rightarrow> s | None \<Rightarrow> new_acct) in
            if now < at_until s
            then (\<lparr>fr_locked = False, fr_until = at_until s, fr_notify = None\<rparr>, map_put k s sts)
            else case acct_count now source s of
              (s', None) \<Rightarrow> (\<lparr>fr_locked = False, fr_until = zero_time, fr_notify = None\<rparr>, map_put k s' sts)
            | (s', Some (until, srcs)) \<Rightarrow>
                (\<lparr>fr_locked = True, fr_until = until, fr_notify = Some (k, until, srcs)\<rparr>, map_put k s' sts)))"

definition record_account_success :: "string \<Rightarrow> accounts \<Rightarrow> accounts" where
  "record_account_success account sts = map_del (account_key account) sts"

definition lift_account_lockout :: "string \<Rightarrow> accounts \<Rightarrow> accounts" where
  "lift_account_lockout account sts = record_account_success account sts"

definition lift_all_account_lockouts :: "accounts \<Rightarrow> accounts" where
  "lift_all_account_lockouts sts = []"

definition locked_accounts :: "time \<Rightarrow> accounts \<Rightarrow> (string, time) gomap" where
  "locked_accounts now sts = map (\<lambda>(k, s). (k, at_until s)) (filter (\<lambda>(k, s). now < at_until s) sts)"

definition acct_stale :: "time \<Rightarrow> acct \<Rightarrow> bool" where
  "acct_stale now s \<longleftrightarrow>
     \<not> (at_failures s \<noteq> [] \<and> time_sub now (last (at_failures s)) < account_fail_window)
     \<and> now > at_until s + account_level_reset"

definition sweep_accounts :: "time \<Rightarrow> accounts \<Rightarrow> accounts" where
  "sweep_accounts now sts = filter (\<lambda>(k, s). \<not> acct_stale now s) sts"

section \<open>The wait\<close>

lemma base_shift_zero: "53 \<le> l \<Longrightarrow> dur_shl account_base_lock l = 0"
proof -
  assume "53 \<le> l"
  then have "(2 :: int) ^ 53 dvd 2 ^ l" by (rule le_imp_power_dvd)
  then have "(2 :: int) ^ 11 * 2 ^ 53 dvd account_base_lock * 2 ^ l"
    by (intro mult_dvd_mono) (auto simp: account_base_lock_def dur_defs)
  then show ?thesis by (simp add: dur_shl_def wrap64_zero_multiple)
qed

lemma lock_wait_small: "\<forall>l \<in> set [0..<53]. lock_wait l = min (account_base_lock * 2 ^ l) account_max_lock"
  by code_simp

lemma lock_wait_eq: "lock_wait l = min (account_base_lock * 2 ^ l) account_max_lock"
proof (cases "l < 53")
  case True
  then show ?thesis using lock_wait_small by simp
next
  case False
  then have "(2 :: int) ^ 53 \<le> 2 ^ l" by (intro power_increasing) auto
  then have "account_max_lock \<le> account_base_lock * 2 ^ l"
    by (simp add: account_const_defs dur_defs)
  moreover have "lock_wait l = account_max_lock"
    using base_shift_zero [of l] False by (simp add: lock_wait_def account_const_defs dur_defs)
  ultimately show ?thesis by simp
qed

lemma lock_wait_ge: "account_fail_window \<le> lock_wait l"
proof -
  have "account_base_lock * 1 \<le> account_base_lock * 2 ^ l"
    by (intro mult_left_mono) (auto simp: account_const_defs dur_defs)
  then show ?thesis by (simp add: lock_wait_eq) (simp add: account_const_defs dur_defs)
qed

section \<open>Attempts on one account\<close>

lemma window_sub_iff: "time_sub now t < account_fail_window \<longleftrightarrow> now - t < account_fail_window"
  by (rule time_sub_less_iff) (auto simp: account_const_defs dur_defs)

text \<open>
  A run of failed attempts on one account: an attempt during a lockout is refused and not counted,
  every other one is counted. The second component is the list of counted attempts.
\<close>

fun acct_run :: "(time \<times> string) list \<Rightarrow> acct \<Rightarrow> acct \<times> time list" where
  "acct_run [] s = (s, [])"
| "acct_run ((now, src) # rest) s =
     (if now < at_until s then acct_run rest s
      else (let (s', c) = acct_run rest (fst (acct_count now src s)) in (s', now # c)))"

text \<open>Six consecutive counted attempts span at least the window.\<close>

definition spaced :: "time list \<Rightarrow> bool" where
  "spaced c \<longleftrightarrow> (\<forall>i. i + account_fail_max < length c \<longrightarrow> c ! (i + account_fail_max) - c ! i \<ge> account_fail_window)"

lemma spaced_snoc:
  "spaced (c @ [t]) \<longleftrightarrow> spaced c
     \<and> (account_fail_max \<le> length c \<longrightarrow> t - c ! (length c - account_fail_max) \<ge> account_fail_window)"
  (is "?l \<longleftrightarrow> ?r")
proof
  assume l: ?l
  have "c ! (i + account_fail_max) - c ! i \<ge> account_fail_window" if "i + account_fail_max < length c" for i
    using l that unfolding spaced_def by (auto simp: nth_append dest!: spec [of _ i])
  moreover have "t - c ! (length c - account_fail_max) \<ge> account_fail_window" if "account_fail_max \<le> length c"
    using l that unfolding spaced_def
    by (auto simp: nth_append account_fail_max_def dest!: spec [of _ "length c - account_fail_max"])
  ultimately show ?r by (simp add: spaced_def)
next
  assume r: ?r
  show ?l
    unfolding spaced_def
  proof (intro allI impI)
    fix i assume i: "i + account_fail_max < length (c @ [t])"
    show "(c @ [t]) ! (i + account_fail_max) - (c @ [t]) ! i \<ge> account_fail_window"
    proof (cases "i + account_fail_max < length c")
      case True
      with r show ?thesis by (simp add: spaced_def nth_append)
    next
      case False
      with i have len: "i + account_fail_max = length c" by simp
      then have "i = length c - account_fail_max" "i < length c" by (auto simp: account_fail_max_def)
      with r len show ?thesis by (simp add: nth_append)
    qed
  qed
qed

text \<open>
  The invariant of a run: the counted attempts are \<open>old @ failures\<close>, and every attempt that may
  be counted from now on is at least a window away from all of \<open>old\<close>.
\<close>

definition acct_inv :: "time list \<Rightarrow> acct \<Rightarrow> time \<Rightarrow> bool" where
  "acct_inv c s t \<longleftrightarrow> spaced c \<and> length (at_failures s) < account_fail_max
     \<and> (\<forall>f \<in> set (at_failures s). f \<le> t)
     \<and> (\<exists>old. c = old @ at_failures s
          \<and> (\<forall>d \<in> set old. \<forall>now. t \<le> now \<longrightarrow> at_until s \<le> now \<longrightarrow> now - d \<ge> account_fail_window))"

lemma sorted_filter_suffix:
  fixes fs :: "time list"
  assumes "sorted fs"
  shows "fs = filter (\<lambda>t. \<not> now - t < w) fs @ filter (\<lambda>t. now - t < w) fs"
  using assms
proof (induction fs)
  case Nil
  then show ?case by simp
next
  case (Cons f fs)
  show ?case
  proof (cases "now - f < w")
    case True
    with Cons.prems have "\<forall>t \<in> set fs. now - t < w" by auto
    then have "filter (\<lambda>t. \<not> now - t < w) fs = []" and "filter (\<lambda>t. now - t < w) fs = fs"
      by (auto simp: filter_empty_conv filter_id_conv)
    with True show ?thesis by simp
  next
    case False
    have "fs = filter (\<lambda>t. \<not> now - t < w) fs @ filter (\<lambda>t. now - t < w) fs"
      using Cons by simp
    with False show ?thesis by simp
  qed
qed

lemma acct_count_cases:
  defines "kept now s \<equiv> filter (\<lambda>t. now - t < account_fail_window) (at_failures s)"
  shows "at_failures (fst (acct_count now src s)) = (if Suc (length (kept now s)) < account_fail_max then kept now s @ [now] else [])"
    and "at_until (fst (acct_count now src s)) = (if Suc (length (kept now s)) < account_fail_max then at_until s
      else now + lock_wait (if at_until s \<noteq> zero_time \<and> time_sub now (at_until s) > account_level_reset then 0 else at_level s))"
  by (simp_all add: acct_count_def Let_def window_sub_iff kept_def)

lemma acct_inv_count:
  assumes inv: "acct_inv c s t" and "sorted (at_failures s)" and "t \<le> now" and free: "at_until s \<le> now"
  shows "acct_inv (c @ [now]) (fst (acct_count now src s)) now"
proof -
  from inv obtain old where c: "c = old @ at_failures s"
    and far: "\<forall>d \<in> set old. \<forall>n. t \<le> n \<longrightarrow> at_until s \<le> n \<longrightarrow> n - d \<ge> account_fail_window"
    and sp: "spaced c" and len: "length (at_failures s) < account_fail_max"
    and le: "\<forall>f \<in> set (at_failures s). f \<le> t"
    by (auto simp: acct_inv_def)
  define kept where "kept = filter (\<lambda>x. now - x < account_fail_window) (at_failures s)"
  define gone where "gone = filter (\<lambda>x. \<not> now - x < account_fail_window) (at_failures s)"
  have split: "at_failures s = gone @ kept"
    unfolding gone_def kept_def by (rule sorted_filter_suffix) fact
  have old_far: "now - d \<ge> account_fail_window" if "d \<in> set old" for d
    using far that assms(3) free by auto
  have sp': "spaced (c @ [now])"
    unfolding spaced_snoc
  proof (intro conjI impI sp)
    assume l: "account_fail_max \<le> length c"
    then have "length c - account_fail_max < length old" using c len by simp
    then have "c ! (length c - account_fail_max) \<in> set old" by (simp add: c nth_append)
    then show "now - c ! (length c - account_fail_max) \<ge> account_fail_window" by (rule old_far)
  qed
  have far': "n - d \<ge> account_fail_window" if "d \<in> set (old @ gone)" and "now \<le> n" for d n
    using that old_far by (fastforce simp: gone_def)
  show ?thesis
  proof (cases "Suc (length kept) < account_fail_max")
    case True
    then have f: "at_failures (fst (acct_count now src s)) = kept @ [now]"
      by (simp add: acct_count_cases kept_def)
    have "\<forall>f \<in> set (kept @ [now]). f \<le> now" using le assms(3) by (auto simp: kept_def)
    then show ?thesis
      unfolding acct_inv_def f using True sp' far' by (auto simp: c split intro!: exI [of _ "old @ gone"])
  next
    case False
    then have f: "at_failures (fst (acct_count now src s)) = []"
      and u: "at_until (fst (acct_count now src s)) \<ge> now + account_fail_window"
      using lock_wait_ge by (simp_all add: acct_count_cases kept_def)
    have "n - d \<ge> account_fail_window"
      if "d \<in> set (c @ [now])" "now \<le> n" "at_until (fst (acct_count now src s)) \<le> n" for d n
    proof -
      have "d \<le> now \<or> d \<in> set old" using that(1) c le assms(3) by auto
      then show ?thesis using u that old_far by fastforce
    qed
    then show ?thesis
      unfolding acct_inv_def f using sp' by (auto simp: account_fail_max_def)
  qed
qed

lemma acct_inv_later: "acct_inv c s t \<Longrightarrow> t \<le> t' \<Longrightarrow> acct_inv c s t'"
proof -
  assume inv: "acct_inv c s t" and le: "t \<le> t'"
  from inv obtain old where c: "c = old @ at_failures s"
    and far: "\<forall>d \<in> set old. \<forall>n. t \<le> n \<longrightarrow> at_until s \<le> n \<longrightarrow> n - d \<ge> account_fail_window"
    by (auto simp: acct_inv_def)
  have "\<forall>d \<in> set old. \<forall>n. t' \<le> n \<longrightarrow> at_until s \<le> n \<longrightarrow> n - d \<ge> account_fail_window"
    using far le by auto
  moreover have "\<forall>f \<in> set (at_failures s). f \<le> t'" using inv le by (fastforce simp: acct_inv_def)
  ultimately show ?thesis using inv c by (simp add: acct_inv_def)
qed

lemma acct_count_sorted:
  assumes "sorted (at_failures s)" and "\<forall>f \<in> set (at_failures s). f \<le> now"
  shows "sorted (at_failures (fst (acct_count now src s)))"
  using assms by (auto simp: acct_count_cases sorted_append sorted_filter [where f = "\<lambda>x. x", simplified])

lemma acct_run_spaced:
  assumes "acct_inv c s t" and "sorted (at_failures s)"
    and "sorted (map fst evs)" and "\<forall>e \<in> set evs. t \<le> fst e"
  shows "spaced (c @ snd (acct_run evs s))"
  using assms
proof (induction evs arbitrary: c s t)
  case Nil
  then show ?case by (simp add: acct_inv_def)
next
  case (Cons e evs)
  obtain now src where e: "e = (now, src)" by (cases e)
  have inv: "acct_inv c s now" using Cons.prems(1,4) e by (auto intro: acct_inv_later)
  show ?case
  proof (cases "now < at_until s")
    case True
    with Cons.IH [OF inv] Cons.prems e show ?thesis by simp
  next
    case False
    have "acct_inv (c @ [now]) (fst (acct_count now src s)) now"
      using inv Cons.prems(2) False by (intro acct_inv_count) auto
    moreover have "sorted (at_failures (fst (acct_count now src s)))"
      using Cons.prems(2) inv by (intro acct_count_sorted) (auto simp: acct_inv_def)
    ultimately have "spaced ((c @ [now]) @ snd (acct_run evs (fst (acct_count now src s))))"
      using Cons.prems(3,4) e by (intro Cons.IH) auto
    with False e show ?thesis by (simp add: split_beta Let_def)
  qed
qed

section \<open>Runs over all accounts\<close>

text \<open>The attempts on \<open>account\<close> that were let through, that is, made while it was not locked.\<close>

fun admitted :: "string \<Rightarrow> (time \<times> string \<times> string) list \<Rightarrow> accounts \<Rightarrow> time list" where
  "admitted k [] sts = []"
| "admitted k ((now, account, source) # rest) sts =
     (let sts' = snd (record_account_failure now account source sts) in
      if account_key account = k \<and> \<not> fst (check_account_lockout now account sts)
      then now # admitted k rest sts' else admitted k rest sts')"

definition acct_of :: "accounts \<Rightarrow> string \<Rightarrow> acct" where
  "acct_of sts k = (case map_get sts k of Some s \<Rightarrow> s | None \<Rightarrow> new_acct)"

lemma acct_of_failure:
  assumes "account_key account \<noteq> ''''"
  shows "acct_of (snd (record_account_failure now account source sts)) k =
    (if account_key account = k \<and> \<not> now < at_until (acct_of sts k)
     then fst (acct_count now source (acct_of sts k)) else acct_of sts k)"
  using assms
  by (auto simp: record_account_failure_def acct_of_def Let_def gomap_simps split: option.splits prod.splits)

lemma check_acct_of:
  assumes "account_key account \<noteq> ''''" and "0 \<le> now"
  shows "fst (check_account_lockout now account sts) \<longleftrightarrow> now < at_until (acct_of sts (account_key account))"
  using assms
  by (auto simp: check_account_lockout_def acct_of_def Let_def new_acct_def zero_time_def split: option.splits)

definition events_of :: "string \<Rightarrow> (time \<times> string \<times> string) list \<Rightarrow> (time \<times> string) list" where
  "events_of k evs = map (\<lambda>(now, account, source). (now, source)) (filter (\<lambda>(now, account, source). account_key account = k) evs)"

lemma failure_empty_key:
  "account_key account = '''' \<Longrightarrow> snd (record_account_failure now account source sts) = sts"
  by (simp add: record_account_failure_def Let_def)

lemma admitted_acct_run:
  assumes "k \<noteq> ''''" and "\<forall>e \<in> set evs. 0 \<le> fst e"
  shows "admitted k evs sts = snd (acct_run (events_of k evs) (acct_of sts k))"
  using assms
proof (induction evs arbitrary: sts)
  case Nil
  then show ?case by (simp add: events_of_def)
next
  case (Cons e evs)
  obtain now account source where e: "e = (now, account, source)" by (cases e)
  let ?sts = "snd (record_account_failure now account source sts)"
  have IH: "admitted k evs ?sts = snd (acct_run (events_of k evs) (acct_of ?sts k))"
    using Cons by simp
  show ?case
  proof (cases "account_key account = k")
    case True
    then have ne: "account_key account \<noteq> ''''" using Cons.prems(1) by simp
    have now: "0 \<le> now" using Cons.prems(2) e by simp
    have "events_of k (e # evs) = (now, source) # events_of k evs"
      using True e by (simp add: events_of_def)
    then show ?thesis
      using IH True e acct_of_failure [OF ne, of now source sts k] check_acct_of [OF ne now, of sts]
      by (simp add: Let_def split_beta)
  next
    case False
    have "acct_of ?sts k = acct_of sts k"
      using acct_of_failure [of account now source sts k] failure_empty_key [of account now source sts] False
      by (cases "account_key account = ''''") auto
    then show ?thesis using IH False e by (simp add: events_of_def Let_def)
  qed
qed

lemma spaced_window:
  assumes "spaced c" and "sorted c"
  shows "length (filter (\<lambda>t. a \<le> t \<and> t < a + account_fail_window) c) \<le> account_fail_max"
proof (rule ccontr)
  assume "\<not> ?thesis"
  let ?P = "\<lambda>t. a \<le> t \<and> t < a + account_fail_window"
  let ?L = "filter (\<lambda>t. t < a) c" and ?M = "filter ?P c" and ?R = "filter (\<lambda>t. a + account_fail_window \<le> t) c"
  assume "\<not> length ?M \<le> account_fail_max"
  have w: "0 < account_fail_window" by (simp add: account_const_defs dur_defs)
  have "c = ?L @ ?M @ ?R"
    using assms(2)
  proof (induction c)
    case Nil
    then show ?case by simp
  next
    case (Cons x c)
    have IH: "c = filter (\<lambda>t. t < a) c @ filter ?P c @ filter (\<lambda>t. a + account_fail_window \<le> t) c"
      using Cons by simp
    have ge: "\<forall>y \<in> set c. x \<le> y" using Cons.prems by simp
    show ?case
    proof (cases "x < a")
      case True
      with IH w show ?thesis by simp
    next
      case False
      then have "filter (\<lambda>t. t < a) c = []" using ge by (auto simp: filter_empty_conv)
      moreover have "a + account_fail_window \<le> x \<Longrightarrow> filter ?P c = []"
        using ge by (force simp: filter_empty_conv)
      ultimately show ?thesis using IH False by (cases "x < a + account_fail_window") auto
    qed
  qed
  moreover define n where "n = length ?L"
  ultimately have nth: "c ! (n + j) = ?M ! j" if "j < length ?M" for j
    using that by (metis n_def nth_append_length_plus nth_append)
  have five: "account_fail_max < length ?M" using \<open>\<not> length ?M \<le> account_fail_max\<close> by simp
  then have "c ! (n + account_fail_max) - c ! n < account_fail_window"
  proof -
    have "c ! (n + account_fail_max) \<in> set ?M" and "c ! n \<in> set ?M"
      using nth [of account_fail_max] nth [of 0] five nth_mem [of account_fail_max ?M] nth_mem [of 0 ?M]
      by (simp_all only: add_0_right zero_less_Suc)
    then show ?thesis by auto
  qed
  moreover have "n + account_fail_max < length c"
  proof -
    have "length c = length ?L + (length ?M + length ?R)"
      using arg_cong [OF \<open>c = ?L @ ?M @ ?R\<close>, of length] by (simp only: length_append)
    then show ?thesis using five unfolding n_def by linarith
  qed
  ultimately show False using assms(1) by (auto simp: spaced_def)
qed

lemma acct_run_subseq: "sorted (map fst evs) \<Longrightarrow> sorted (snd (acct_run evs s)) \<and> set (snd (acct_run evs s)) \<subseteq> fst ` set evs"
proof (induction evs arbitrary: s)
  case Nil
  then show ?case by simp
next
  case (Cons e evs)
  obtain now src where e: "e = (now, src)" by (cases e)
  have "\<forall>x \<in> set evs. now \<le> fst x" using Cons.prems e by simp
  then show ?case
    using Cons.IH [of s] Cons.IH [of "fst (acct_count now src s)"] Cons.prems e
    by (auto simp: split_beta Let_def)
qed

section \<open>Properties\<close>

text \<open>
  The guess rate on one account is bounded whatever the doors and the addresses. Start with no
  state and let failed sign-ins arrive in time order, on any accounts, from any sources: for every
  account and every moment, at most five attempts that the lockout let through fall in the fifteen
  minutes from that moment.
\<close>

theorem account_guess_rate:
  assumes "sorted (map fst evs)" and "\<forall>e \<in> set evs. 0 \<le> fst e" and "k \<noteq> ''''"
  shows "length (filter (\<lambda>t. a \<le> t \<and> t < a + 15 * minute) (admitted k evs [])) \<le> 5"
proof -
  let ?evs = "events_of k evs" and ?s = "acct_of [] k"
  have sub: "map fst ?evs = map fst (filter (\<lambda>(now, account, source). account_key account = k) evs)"
    by (simp add: events_of_def split_beta comp_def)
  have sorted: "sorted (map fst ?evs)" unfolding sub using assms(1) by (rule sorted_filter)
  have ge: "\<forall>e \<in> set ?evs. 0 \<le> fst e" using assms(2) by (auto simp: events_of_def)
  have s: "?s = new_acct" by (simp add: acct_of_def)
  have "acct_inv [] new_acct 0" by (simp add: acct_inv_def spaced_def new_acct_def account_fail_max_def)
  then have "spaced ([] @ snd (acct_run ?evs ?s))"
    using sorted ge unfolding s by (intro acct_run_spaced) (auto simp: new_acct_def)
  moreover have "sorted (snd (acct_run ?evs ?s))" using acct_run_subseq [OF sorted] by blast
  ultimately show ?thesis
    using spaced_window [of "snd (acct_run ?evs ?s)" a] admitted_acct_run [OF assms(3,2), of "[]"]
    by (simp add: account_const_defs)
qed

theorem account_guess_rate_witness:
  "length (filter (\<lambda>t. 1 \<le> t \<and> t < 1 + 15 * minute)
     (admitted ''ann'' (map (\<lambda>i. (int i, ''Ann '', ''10.0.0.1'')) [1..<9]) [])) \<le> 5
   \<and> length (admitted ''ann'' (map (\<lambda>i. (int i, ''Ann '', ''10.0.0.1'')) [1..<9]) []) = 5"
proof -
  let ?e = "map (\<lambda>i. (int i, ''Ann '', ''10.0.0.1'')) [1..<9]"
  have "length (admitted ''ann'' ?e []) = 5" by code_simp
  moreover have "length (filter (\<lambda>t. 1 \<le> t \<and> t < 1 + 15 * minute) (admitted ''ann'' ?e [])) \<le> 5"
    by (rule account_guess_rate) (simp_all add: upt_rec)
  ultimately show ?thesis by simp
qed

text \<open>
  The wait doubles from fifteen minutes and stops at a day, for every number of lockouts in the
  run, also where the int64 shift has overflowed: the cap catches every wrapped value.
\<close>

theorem lock_wait_doubles:
  "lock_wait l = min (15 * minute * 2 ^ l) (24 * hour)"
  using lock_wait_eq [of l] by (simp add: account_const_defs)

end
