(* ===== verification/Mail_Throttle.thy ===== *)
theory Mail_Throttle
  imports Machine
begin

text \<open>
  The mail server's defences on its ports (src/internal/vayuos/mail/): the delay on repeated
  failed sign-ins (auththrottle.go), the limits on concurrent connections and the pause of a
  failing accept loop (connlimit.go). A delay is returned; who calls sleeps for it.
\<close>

section \<open>The sign-in throttle\<close>

definition auth_decay_per_fail :: dur where "auth_decay_per_fail = 20 * second"
definition auth_delay_step :: dur where "auth_delay_step = 250 * millisecond"
definition auth_delay_max :: dur where "auth_delay_max = 2 * second"
definition auth_max_tracked :: nat where "auth_max_tracked = 4096"

lemmas auth_const_defs = auth_decay_per_fail_def auth_delay_step_def auth_delay_max_def auth_max_tracked_def

record auth_attempts =
  aa_fails :: int
  aa_last :: time

record auth_throttle =
  th_m :: "(string, auth_attempts) gomap"
  th_max :: dur

definition new_auth_throttle :: auth_throttle where
  "new_auth_throttle = \<lparr>th_m = [], th_max = auth_delay_max\<rparr>"

definition new_auth_throttle_with_max :: "dur \<Rightarrow> auth_throttle" where
  "new_auth_throttle_with_max mx = \<lparr>th_m = [], th_max = (if mx \<le> 0 then auth_delay_max else mx)\<rparr>"

definition source_auth_throttle :: auth_throttle where
  "source_auth_throttle = new_auth_throttle_with_max (8 * second)"

definition decayed :: "time \<Rightarrow> auth_attempts \<Rightarrow> int" where
  "decayed now a =
     (if aa_fails a \<le> 0 then 0
      else (let decay = go_quot (time_sub now (aa_last a)) auth_decay_per_fail; f = aa_fails a - decay
            in if f > 0 then f else 0))"

definition delay_of :: "dur \<Rightarrow> int \<Rightarrow> dur" where
  "delay_of mx f =
     (let d = wrap64 (f * auth_delay_step); mx = (if mx \<le> 0 then auth_delay_max else mx)
      in if d > mx then mx else d)"

definition throttle_delay :: "time \<Rightarrow> string \<Rightarrow> auth_throttle \<Rightarrow> dur \<times> auth_throttle" where
  "throttle_delay now key t =
     (case map_get (th_m t) key of
        None \<Rightarrow> (0, t)
      | Some a \<Rightarrow>
          (let f = decayed now a in
           if f \<le> 0 then (0, t\<lparr>th_m := map_del key (th_m t)\<rparr>)
           else (delay_of (th_max t) f, t)))"

definition throttle_evict_oldest :: "(string, auth_attempts) gomap \<Rightarrow> (string, auth_attempts) gomap" where
  "throttle_evict_oldest m =
     (case oldest (\<lambda>(k, a). aa_last a) m of
        None \<Rightarrow> m
      | Some (k, a) \<Rightarrow> if k \<noteq> [] then map_del k m else m)"

definition throttle_fail :: "time \<Rightarrow> string \<Rightarrow> auth_throttle \<Rightarrow> auth_throttle" where
  "throttle_fail now key t =
     (case map_get (th_m t) key of
        Some a \<Rightarrow> t\<lparr>th_m := map_put key \<lparr>aa_fails = decayed now a + 1, aa_last = now\<rparr> (th_m t)\<rparr>
      | None \<Rightarrow>
          (let m = (if length (th_m t) \<ge> auth_max_tracked then throttle_evict_oldest (th_m t) else th_m t)
           in t\<lparr>th_m := map_put key \<lparr>aa_fails = decayed now \<lparr>aa_fails = 0, aa_last = zero_time\<rparr> + 1, aa_last = now\<rparr> m\<rparr>))"

definition throttle_success :: "string \<Rightarrow> auth_throttle \<Rightarrow> auth_throttle" where
  "throttle_success key t = t\<lparr>th_m := map_del key (th_m t)\<rparr>"

section \<open>Addresses and connections\<close>

text \<open>
  A net.Addr: absent, a TCP address with the text of its IP, if it has one, or any with what String prints.
\<close>

datatype net_addr = NoAddr | TCPAddr "string option" string | OtherAddr string

text \<open>Package net: SplitHostPort, of which only the host is used.\<close>

definition last_colon :: "string \<Rightarrow> nat option" where
  "last_colon s = (if CHR '':'' \<in> set s then Some (length s - 1 - length (takeWhile (\<lambda>c. c \<noteq> CHR '':'') (rev s))) else None)"

definition index_byte :: "char \<Rightarrow> string \<Rightarrow> nat option" where
  "index_byte c s = (if c \<in> set s then Some (length (takeWhile (\<lambda>x. x \<noteq> c) s)) else None)"

definition split_host :: "string \<Rightarrow> string option" where
  "split_host s =
     (case last_colon s of
        None \<Rightarrow> None
      | Some i \<Rightarrow>
          if hd s = CHR ''['' then
            (case index_byte (CHR '']'') s of
               None \<Rightarrow> None
             | Some e \<Rightarrow>
                 if e + 1 \<noteq> i then None
                 else if CHR ''['' \<in> set (drop 1 s) \<or> CHR '']'' \<in> set (drop (e + 1) s) then None
                 else Some (take (e - 1) (drop 1 s)))
          else if CHR '':'' \<in> set (take i s) then None
          else if CHR ''['' \<in> set s \<or> CHR '']'' \<in> set s then None
          else Some (take i s))"

definition addr_string :: "net_addr \<Rightarrow> string" where
  "addr_string a = (case a of NoAddr \<Rightarrow> [] | TCPAddr ip s \<Rightarrow> s | OtherAddr s \<Rightarrow> s)"

definition addr_key :: "net_addr \<Rightarrow> string" where
  "addr_key a =
     (case a of
        NoAddr \<Rightarrow> ''?''
      | TCPAddr (Some ip) s \<Rightarrow> ip
      | _ \<Rightarrow> (case split_host (addr_string a) of
                 None \<Rightarrow> ''?''
               | Some host \<Rightarrow> if host = [] then ''?'' else host))"

text \<open>throttleSource: the delay before an attempt, and the record of its result afterwards.\<close>

definition throttle_source :: "time \<Rightarrow> net_addr \<Rightarrow> auth_throttle \<Rightarrow> dur \<times> auth_throttle" where
  "throttle_source now a t = throttle_delay now (addr_key a) t"

definition record_result :: "time \<Rightarrow> net_addr \<Rightarrow> bool \<Rightarrow> auth_throttle \<Rightarrow> auth_throttle" where
  "record_result now a ok t = (if ok then throttle_success (addr_key a) t else throttle_fail now (addr_key a) t)"

definition default_max_conns :: int where "default_max_conns = 256"
definition default_max_conns_per_addr :: int where "default_max_conns_per_addr = 16"

record conn_limiter =
  cl_per_addr :: "(string, int) gomap"
  cl_total :: int
  cl_max_total :: int
  cl_max_per_addr :: int

definition new_conn_limiter :: "int \<Rightarrow> int \<Rightarrow> conn_limiter" where
  "new_conn_limiter max_total max_per_addr =
     \<lparr>cl_per_addr = [], cl_total = 0,
      cl_max_total = (if max_total \<le> 0 then default_max_conns else max_total),
      cl_max_per_addr = (if max_per_addr \<le> 0 then default_max_conns_per_addr else max_per_addr)\<rparr>"

definition acquire :: "net_addr \<Rightarrow> conn_limiter \<Rightarrow> bool \<times> conn_limiter" where
  "acquire a l =
     (let key = addr_key a in
      if cl_total l \<ge> cl_max_total l \<or> get_or 0 (cl_per_addr l) key \<ge> cl_max_per_addr l then (False, l)
      else (True, l\<lparr>cl_total := cl_total l + 1, cl_per_addr := map_put key (get_or 0 (cl_per_addr l) key + 1) (cl_per_addr l)\<rparr>))"

text \<open>The body of the release function, which its sync.Once runs at most once for each connection.\<close>

definition release :: "net_addr \<Rightarrow> conn_limiter \<Rightarrow> conn_limiter" where
  "release a l =
     (let key = addr_key a; l = l\<lparr>cl_total := cl_total l - 1\<rparr>; n = get_or 0 (cl_per_addr l) key - 1
      in if n > 0 then l\<lparr>cl_per_addr := map_put key n (cl_per_addr l)\<rparr>
         else l\<lparr>cl_per_addr := map_del key (cl_per_addr l)\<rparr>)"

section \<open>The accept loop\<close>

definition accept_min :: dur where "accept_min = 5 * millisecond"
definition accept_max :: dur where "accept_max = second"

definition accept_pause :: "dur \<Rightarrow> dur" where
  "accept_pause d =
     (if d = 0 then accept_min
      else if d < accept_max then (if d * 2 > accept_max then accept_max else d * 2)
      else d)"

definition accept_reset :: dur where
  "accept_reset = 0"


section \<open>The table stays bounded\<close>

datatype throttle_op = ThDelay time string | ThFail time string | ThSuccess string

fun throttle_key :: "throttle_op \<Rightarrow> string" where
  "throttle_key (ThDelay now k) = k"
| "throttle_key (ThFail now k) = k"
| "throttle_key (ThSuccess k) = k"

fun throttle_step :: "throttle_op \<Rightarrow> auth_throttle \<Rightarrow> dur \<times> auth_throttle" where
  "throttle_step (ThDelay now k) t = throttle_delay now k t"
| "throttle_step (ThFail now k) t = (0, throttle_fail now k t)"
| "throttle_step (ThSuccess k) t = (0, throttle_success k t)"

definition throttle_ok :: "auth_throttle \<Rightarrow> bool" where
  "throttle_ok t \<longleftrightarrow> gomap_ok (th_m t) \<and> [] \<notin> fst ` set (th_m t) \<and> length (th_m t) \<le> auth_max_tracked"

lemma throttle_evict_spec:
  assumes "[] \<notin> fst ` set m" "m \<noteq> []"
  shows "length (throttle_evict_oldest m) < length m" "[] \<notin> fst ` set (throttle_evict_oldest m)"
    "gomap_ok m \<Longrightarrow> gomap_ok (throttle_evict_oldest m)"
proof -
  obtain k a where o: "oldest (\<lambda>(k, a). aa_last a) m = Some (k, a)"
    using assms(2) oldest_None_iff by (metis not_None_eq surj_pair)
  then have k: "(k, a) \<in> set m" by (rule oldest_in)
  with assms(1) have ne: "k \<noteq> []" by force
  show "length (throttle_evict_oldest m) < length m" "[] \<notin> fst ` set (throttle_evict_oldest m)"
    "gomap_ok m \<Longrightarrow> gomap_ok (throttle_evict_oldest m)"
    using o ne k assms(1) by (simp_all add: throttle_evict_oldest_def length_del_less keys_map_del)
qed

lemma throttle_fail_ok:
  assumes ok: "throttle_ok t" and key: "key \<noteq> []"
  shows "throttle_ok (throttle_fail now key t)"
proof -
  have "th_m t \<noteq> []" if "auth_max_tracked \<le> length (th_m t)" using that by (auto simp: auth_max_tracked_def)
  then show ?thesis
    using ok key throttle_evict_spec [of "th_m t"]
    by (cases "map_get (th_m t) key") (auto simp: throttle_ok_def throttle_fail_def Let_def length_map_put dom_update)
qed

interpretation throttle: capped throttle_step "\<lambda>x t. throttle_key x \<noteq> []" throttle_ok "\<lambda>t. length (th_m t)" auth_max_tracked
proof
  show "throttle_ok s \<Longrightarrow> throttle_key x \<noteq> [] \<Longrightarrow> throttle_ok (snd (throttle_step x s))" for s x
    by (cases x)
      (auto simp: throttle_fail_ok, auto simp: throttle_ok_def throttle_delay_def throttle_success_def Let_def keys_map_del
        split: option.split intro: order_trans [OF length_map_del_le])
qed (simp add: throttle_ok_def)

text \<open>The guard of the eviction against an empty map also spares the empty key: while it is the oldest, nothing is evicted.\<close>

lemma empty_key_blocks_eviction:
  assumes "oldest (\<lambda>(k, a). aa_last a) (th_m t) = Some ([], a)" "map_get (th_m t) key = None" "auth_max_tracked \<le> length (th_m t)"
  shows "length (th_m (throttle_fail now key t)) = Suc (length (th_m t))"
  using assms by (simp add: throttle_fail_def throttle_evict_oldest_def length_map_put)

section \<open>The rate of guesses\<close>

text \<open>The failures counted for a key, the last of them at \<open>l\<close>.\<close>

definition tracked :: "string \<Rightarrow> int \<Rightarrow> time \<Rightarrow> auth_throttle \<Rightarrow> bool" where
  "tracked key c l t \<longleftrightarrow>
     (case map_get (th_m t) key of None \<Rightarrow> c = 0 | Some a \<Rightarrow> aa_fails a = c \<and> aa_last a = l \<and> 0 < c)"

definition decay :: "time \<Rightarrow> time \<Rightarrow> int" where
  "decay now from = go_quot (time_sub now from) auth_decay_per_fail"

lemma decay_bounds:
  assumes "from \<le> now"
  shows "0 \<le> decay now from" "auth_decay_per_fail * decay now from \<le> now - from" "now \<le> now' \<Longrightarrow> decay now from \<le> decay now' from"
proof -
  have sub: "0 \<le> time_sub now from" "time_sub now from \<le> now - from" "now \<le> now' \<Longrightarrow> time_sub now from \<le> time_sub now' from"
    using assms by (auto simp: time_sub_def dur_defs)
  have eq: "decay now from = time_sub now from div auth_decay_per_fail"
    using sub(1) by (simp add: decay_def go_quot_nonneg auth_const_defs dur_defs)
  show "0 \<le> decay now from" using sub(1) by (simp add: eq pos_imp_zdiv_nonneg_iff auth_const_defs dur_defs)
  have "auth_decay_per_fail * (time_sub now from div auth_decay_per_fail) \<le> time_sub now from"
    by (simp add: auth_const_defs dur_defs)
  then show "auth_decay_per_fail * decay now from \<le> now - from" unfolding eq using sub(2) by linarith
  assume "now \<le> now'"
  then have "0 \<le> time_sub now' from" using sub by simp
  then have "decay now' from = time_sub now' from div auth_decay_per_fail"
    by (simp add: decay_def go_quot_nonneg auth_const_defs dur_defs)
  then show "decay now from \<le> decay now' from"
    using sub(3) [OF \<open>now \<le> now'\<close>] by (simp add: eq zdiv_mono1 auth_const_defs dur_defs)
qed

lemma decayed_eq: "0 < aa_fails a \<Longrightarrow> decayed now a = max 0 (aa_fails a - decay now (aa_last a))"
  by (simp add: decayed_def decay_def Let_def max_def)

lemma delay_of_eq:
  "0 \<le> f \<Longrightarrow> f \<le> 2 ^ 31 \<Longrightarrow> 0 < m \<Longrightarrow> delay_of (m * auth_delay_step) f = min m f * auth_delay_step"
proof -
  assume f: "0 \<le> f" "f \<le> 2 ^ 31" "0 < m"
  then have "wrap64 (f * auth_delay_step) = f * auth_delay_step"
    by (intro wrap64_id) (simp_all add: auth_const_defs dur_defs)
  with f show ?thesis by (simp add: delay_of_def Let_def min_def auth_const_defs dur_defs mult_le_cancel_right)
qed

lemma fail_tracked:
  assumes "tracked key c l t"
  shows "tracked key (if map_get (th_m t) key = None then 1 else max 0 (c - decay f l) + 1) f (throttle_fail f key t)"
  using assms
  by (auto simp: tracked_def throttle_fail_def Let_def gomap_simps decayed_eq split: option.splits) (simp_all add: decayed_def)

lemma guess_step:
  assumes t: "tracked key c l t" and time: "l \<le> a" "a + fst (throttle_delay a key t) \<le> f"
    and mx: "th_max t = m * auth_delay_step" "0 < m" and c: "c \<le> 2 ^ 31"
  defines "t' \<equiv> throttle_fail f key (snd (throttle_delay a key t))"
  shows "\<exists>c' dc. tracked key c' f t' \<and> l \<le> f \<and> 0 \<le> dc \<and> auth_decay_per_fail * dc \<le> f - l
    \<and> c' \<le> c + 1 \<and> c + 1 \<le> c' + dc \<and> (c' \<le> m \<or> m * auth_delay_step \<le> f - l)"
proof (cases "map_get (th_m t) key")
  case None
  then have d: "throttle_delay a key t = (0, t)" "c = 0" using t by (simp_all add: throttle_delay_def tracked_def)
  have "tracked key 1 f t'" using fail_tracked [OF t, of f] None by (simp add: t'_def d)
  then show ?thesis using time d mx(2) by (intro exI [of _ 1] exI [of _ 0]) auto
next
  case (Some x)
  then have x: "aa_fails x = c" "aa_last x = l" "0 < c" using t by (auto simp: tracked_def)
  let ?g = "max 0 (c - decay a l)"
  have g: "decayed a x = ?g" using x by (simp add: decayed_eq)
  have delay: "fst (throttle_delay a key t) = min m ?g * auth_delay_step"
    using Some g mx c decay_bounds(1) [OF time(1)] x(3) delay_of_eq [of ?g m]
    by (auto simp: throttle_delay_def Let_def)
  then have af: "a \<le> f" using time(2) mx(2) by (simp add: auth_const_defs dur_defs) (smt (verit) mult_nonneg_nonneg)
  let ?dc = "decay f l"
  note D = decay_bounds [OF order_trans [OF time(1) af]]
  have mono: "decay a l \<le> ?dc" by (rule decay_bounds(3) [OF time(1) af])
  have "tracked key (max 0 (c - ?dc) + 1) f t'"
  proof (cases "?g = 0")
    case True
    then have "throttle_delay a key t = (0, t\<lparr>th_m := map_del key (th_m t)\<rparr>)" using Some g by (simp add: throttle_delay_def)
    moreover have "max 0 (c - ?dc) = 0" using True mono by simp
    ultimately show ?thesis using fail_tracked [of key 0 l "t\<lparr>th_m := map_del key (th_m t)\<rparr>" f]
      by (simp add: t'_def tracked_def gomap_simps)
  next
    case False
    then have "snd (throttle_delay a key t) = t" using Some g by (simp add: throttle_delay_def Let_def)
    then show ?thesis using fail_tracked [OF t, of f] Some by (simp add: t'_def)
  qed
  moreover have "max 0 (c - ?dc) + 1 \<le> m \<or> m * auth_delay_step \<le> f - l"
  proof (cases "m \<le> ?g")
    case True
    then have "fst (throttle_delay a key t) = m * auth_delay_step" using delay by (simp add: min_def)
    then show ?thesis using time by simp
  next
    case False
    then have "max 0 (c - ?dc) + 1 \<le> m" using mono mx(2) by arith
    then show ?thesis ..
  qed
  ultimately show ?thesis using D(1,2) af time(1) x(3)
    by (intro exI [of _ "max 0 (c - ?dc) + 1"] exI [of _ ?dc]) auto
qed


text \<open>
  A guesser of one key who serves the delays: before each guess other keys have their operations, the delay
  is read at \<open>a\<close>, and the failure is recorded at \<open>f\<close>, after the delay. The other keys do not fill the table.
\<close>

fun patient :: "string \<Rightarrow> time \<Rightarrow> (throttle_op list \<times> time \<times> time) list \<Rightarrow> auth_throttle \<Rightarrow> bool" where
  "patient key l [] t \<longleftrightarrow> True"
| "patient key l ((others, a, f) # gs) t \<longleftrightarrow>
     (\<forall>x \<in> set others. throttle_key x \<noteq> key) \<and> length (th_m t) + length others \<le> auth_max_tracked
     \<and> (let (d, t') = throttle_delay a key (snd (run_ops throttle_step others t)) in
        l \<le> a \<and> a + d \<le> f \<and> patient key f gs (throttle_fail f key t'))"

fun last_guess :: "time \<Rightarrow> (throttle_op list \<times> time \<times> time) list \<Rightarrow> time" where
  "last_guess l [] = l"
| "last_guess l ((others, a, f) # gs) = last_guess f gs"

lemma other_step:
  assumes "throttle_key x \<noteq> key" "length (th_m t) < auth_max_tracked"
  shows "map_get (th_m (snd (throttle_step x t))) key = map_get (th_m t) key"
    "length (th_m (snd (throttle_step x t))) \<le> Suc (length (th_m t))" "th_max (snd (throttle_step x t)) = th_max t"
  using assms length_map_del_le [of _ "th_m t"]
  by (cases x; auto simp: throttle_delay_def throttle_fail_def throttle_success_def Let_def gomap_simps length_map_put le_SucI split: option.split)+

lemma others_keep:
  "\<forall>x \<in> set xs. throttle_key x \<noteq> key \<Longrightarrow> length (th_m t) + length xs \<le> auth_max_tracked \<Longrightarrow>
   map_get (th_m (snd (run_ops throttle_step xs t))) key = map_get (th_m t) key \<and> th_max (snd (run_ops throttle_step xs t)) = th_max t"
proof (induction xs arbitrary: t)
  case Nil
  then show ?case by simp
next
  case (Cons x xs)
  have "length (th_m t) < auth_max_tracked" "throttle_key x \<noteq> key" using Cons.prems by simp_all
  note step = other_step [OF this(2,1)]
  from Cons.IH [of "snd (throttle_step x t)"] Cons.prems step show ?case by simp
qed

lemma fail_max [simp]: "th_max (throttle_fail f key t) = th_max t" "th_max (snd (throttle_delay a key t)) = th_max t"
  by (simp_all add: throttle_fail_def throttle_delay_def Let_def split: option.split)

lemma guess_count:
  assumes "patient key l gs t" "tracked key c l t" "th_max t = m * auth_delay_step" "0 < m"
    and "n \<le> min m c + D + H" "auth_decay_per_fail * D \<le> l - s" "m * auth_delay_step * H \<le> l - s" "c \<le> n" "n + int (length gs) \<le> 2 ^ 31"
  shows "\<exists>D H. n + int (length gs) \<le> m + D + H \<and> auth_decay_per_fail * D \<le> last_guess l gs - s
    \<and> m * auth_delay_step * H \<le> last_guess l gs - s"
  using assms
proof (induction gs arbitrary: l t c n D H)
  case Nil
  then show ?case by (intro exI [of _ D] exI [of _ H]) auto
next
  case (Cons g gs)
  obtain os a f where g: "g = (os, a, f)" by (cases g) auto
  define t1 where "t1 = snd (run_ops throttle_step os t)"
  have os: "map_get (th_m t1) key = map_get (th_m t) key" "th_max t1 = th_max t"
    using Cons.prems(1) others_keep [of os key t] by (auto simp: g t1_def)
  have time: "l \<le> a" "a + fst (throttle_delay a key t1) \<le> f"
    and next_: "patient key f gs (throttle_fail f key (snd (throttle_delay a key t1)))"
    using Cons.prems(1) by (auto simp: g t1_def case_prod_beta Let_def)
  have "tracked key c l t1" using Cons.prems(2) os(1) by (simp add: tracked_def)
  moreover have "c \<le> 2 ^ 31" using Cons.prems(8,9) by simp
  ultimately obtain c' dc where st: "tracked key c' f (throttle_fail f key (snd (throttle_delay a key t1)))" "l \<le> f" "0 \<le> dc"
      "auth_decay_per_fail * dc \<le> f - l" "c' \<le> c + 1" "c + 1 \<le> c' + dc" "c' \<le> m \<or> m * auth_delay_step \<le> f - l"
    using guess_step [OF _ time] os(2) Cons.prems(3,4) by metis
  define H' where "H' = (if c' \<le> m then H else H + 1)"
  have "n + 1 \<le> min m c' + (D + dc) + H'" using st(5,6) Cons.prems(5) by (auto simp: H'_def min_def split: if_splits)
  moreover have "auth_decay_per_fail * (D + dc) \<le> f - s" using st(4) Cons.prems(6) by (simp add: distrib_left)
  moreover have "m * auth_delay_step * H' \<le> f - s"
    using st(2,7) Cons.prems(7) by (auto simp: H'_def distrib_left)
  moreover have "c' \<le> n + 1" "n + 1 + int (length gs) \<le> 2 ^ 31" using st(5) Cons.prems(8,9) by simp_all
  ultimately have "\<exists>D H. n + 1 + int (length gs) \<le> m + D + H \<and> auth_decay_per_fail * D \<le> last_guess f gs - s
      \<and> m * auth_delay_step * H \<le> last_guess f gs - s"
    using Cons.IH [OF next_ st(1)] os(2) Cons.prems(3,4) by simp
  then show ?case by (simp add: g add.assoc)
qed

text \<open>
  Guessing at one mailbox, or from one source, is slow. Let one key, clean at first, be tried by a client that
  serves its delays, whatever the other keys do meanwhile (short of filling the table of 4096): in a span \<open>T\<close> at
  most m + T/20s + T/(m * 250ms) guesses fail, for the cap of m * 250ms on the delay. For the mailbox throttle (m = 8) these are
  eight guesses, and then about one in two seconds; for the source throttle m = 32.
\<close>

theorem guess_rate_bounded:
  assumes "patient key start gs t" "map_get (th_m t) key = None" "th_max t = int m * (250 * millisecond)" "0 < m"
    and "length gs \<le> 2 ^ 31"
  defines "span \<equiv> last_guess start gs - start"
  shows "int (length gs) \<le> int m + span div (20 * second) + span div (int m * (250 * millisecond))"
proof -
  have "tracked key 0 start t" using assms(2) by (simp add: tracked_def)
  then obtain D H where n: "int (length gs) \<le> int m + D + H" "auth_decay_per_fail * D \<le> span" "int m * auth_delay_step * H \<le> span"
    using guess_count [OF assms(1), of 0 "int m" 0 0 0 start] assms(3-5) by (auto simp: span_def auth_delay_step_def)
  have "D \<le> span div (20 * second)"
    using n(2) zdiv_mono1 [of "auth_decay_per_fail * D" span auth_decay_per_fail] by (simp add: auth_const_defs dur_defs)
  moreover have "H \<le> span div (int m * (250 * millisecond))"
    using n(3) assms(4) zdiv_mono1 [of "int m * auth_delay_step * H" span "int m * auth_delay_step"]
    by (simp add: auth_const_defs dur_defs)
  ultimately show ?thesis using n(1) by linarith
qed


theorem guess_rate_bounded_witness:
  "int (length [([], 0, 0), ([ThFail 1 ''b''], 1, 300 * millisecond), ([], 300 * millisecond, second)])
   \<le> int 8 + second div (20 * second) + second div (int 8 * (250 * millisecond))"
proof -
  let ?gs = "[([], 0, 0), ([ThFail 1 ''b''], 1, 300 * millisecond), ([], 300 * millisecond, second)]"
  have "patient ''a'' 0 ?gs new_auth_throttle"
    by (simp add: new_auth_throttle_def throttle_delay_def throttle_fail_def decayed_def go_quot_def time_sub_def delay_of_def wrap64_def
        Let_def auth_const_defs dur_defs)
  from guess_rate_bounded [OF this, of 8] show ?thesis
    by (simp add: new_auth_throttle_def auth_delay_max_def dur_defs)
qed

section \<open>Connections\<close>

text \<open>The limiter with the release functions it has handed out, and whether each has run.\<close>

record conn_world =
  cw_lim :: conn_limiter
  cw_tickets :: "(net_addr \<times> bool) list"

datatype conn_op = CAcquire net_addr | CRelease nat

fun conn_step :: "conn_op \<Rightarrow> conn_world \<Rightarrow> bool \<times> conn_world" where
  "conn_step (CAcquire a) w =
     (case acquire a (cw_lim w) of
        (False, l) \<Rightarrow> (False, w\<lparr>cw_lim := l\<rparr>)
      | (True, l) \<Rightarrow> (True, w\<lparr>cw_lim := l, cw_tickets := cw_tickets w @ [(a, False)]\<rparr>))"
| "conn_step (CRelease i) w =
     (if i < length (cw_tickets w) \<and> \<not> snd (cw_tickets w ! i)
      then (True, w\<lparr>cw_lim := release (fst (cw_tickets w ! i)) (cw_lim w), cw_tickets := (cw_tickets w)[i := (fst (cw_tickets w ! i), True)]\<rparr>)
      else (False, w))"

definition new_conns :: "int \<Rightarrow> int \<Rightarrow> conn_world" where
  "new_conns max_total max_per_addr = \<lparr>cw_lim = new_conn_limiter max_total max_per_addr, cw_tickets = []\<rparr>"

text \<open>The connections open now, and those of one source.\<close>

definition open_conns :: "conn_world \<Rightarrow> nat" where
  "open_conns w = length (filter (\<lambda>(a, done). \<not> done) (cw_tickets w))"

definition open_from :: "string \<Rightarrow> conn_world \<Rightarrow> nat" where
  "open_from k w = length (filter (\<lambda>(a, done). \<not> done \<and> addr_key a = k) (cw_tickets w))"

definition conn_ok :: "conn_world \<Rightarrow> bool" where
  "conn_ok w \<longleftrightarrow>
     gomap_ok (cl_per_addr (cw_lim w)) \<and> (\<forall>(k, n) \<in> set (cl_per_addr (cw_lim w)). 0 < n)
     \<and> cl_total (cw_lim w) = int (open_conns w) \<and> (\<forall>k. get_or 0 (cl_per_addr (cw_lim w)) k = int (open_from k w))
     \<and> cl_total (cw_lim w) \<le> cl_max_total (cw_lim w) \<and> (\<forall>k. int (open_from k w) \<le> cl_max_per_addr (cw_lim w))"

lemma filter_done:
  assumes "i < length xs" "\<not> snd (xs ! i)"
  shows "length (filter (\<lambda>(a, done). \<not> done \<and> P a) xs)
    = length (filter (\<lambda>(a, done). \<not> done \<and> P a) (xs[i := (fst (xs ! i), True)])) + (if P (fst (xs ! i)) then 1 else 0)"
proof -
  have split: "xs = take i xs @ xs ! i # drop (Suc i) xs" using assms(1) by (simp add: id_take_nth_drop)
  have upd: "xs[i := y] = take i xs @ y # drop (Suc i) xs" for y using assms(1) by (simp add: upd_conv_take_nth_drop)
  show ?thesis unfolding upd by (subst split) (use assms(2) in \<open>simp add: case_prod_beta\<close>)
qed

lemma release_ok:
  assumes ok: "conn_ok w" and i: "i < length (cw_tickets w)" "\<not> snd (cw_tickets w ! i)"
  shows "conn_ok (snd (conn_step (CRelease i) w))"
proof -
  define a where "a = fst (cw_tickets w ! i)"
  define w' where "w' = snd (conn_step (CRelease i) w)"
  have parts: "cw_tickets w' = (cw_tickets w)[i := (a, True)]" "cw_lim w' = release a (cw_lim w)"
    using i by (simp_all add: w'_def a_def)
  note fd = filter_done [OF i]
  have total: "int (open_conns w') = int (open_conns w) - 1"
    using fd [of "\<lambda>_. True"] by (simp add: open_conns_def parts a_def)
  have from_: "int (open_from k w') = int (open_from k w) - (if addr_key a = k then 1 else 0)" for k
    using fd [of "\<lambda>a. addr_key a = k"] by (simp add: open_from_def parts a_def)
  have le: "int (open_from k w) \<le> cl_max_per_addr (cw_lim w)" for k using ok by (simp add: conn_ok_def)
  have one: "0 < open_from (addr_key a) w" "int (open_from (addr_key a) w) - 1 \<le> cl_max_per_addr (cw_lim w)"
    using from_ [of "addr_key a"] le [of "addr_key a"] by simp_all
  have "conn_ok w'"
    using ok total from_ one unfolding conn_ok_def parts(2) release_def Let_def
    by (auto simp: gomap_simps dest!: in_map_putD in_map_delD)
  then show ?thesis by (simp add: w'_def)
qed


lemma acquire_ok:
  assumes ok: "conn_ok w"
  shows "conn_ok (snd (conn_step (CAcquire a) w))"
    and "fst (conn_step (CAcquire a) w) \<longleftrightarrow>
      int (open_conns w) < cl_max_total (cw_lim w) \<and> int (open_from (addr_key a) w) < cl_max_per_addr (cw_lim w)"
proof -
  have ok': "cl_total (cw_lim w) = int (open_conns w)" "get_or 0 (cl_per_addr (cw_lim w)) k = int (open_from k w)" for k
    using ok by (auto simp: conn_ok_def)
  show "fst (conn_step (CAcquire a) w) \<longleftrightarrow>
      int (open_conns w) < cl_max_total (cw_lim w) \<and> int (open_from (addr_key a) w) < cl_max_per_addr (cw_lim w)"
    by (auto simp: acquire_def Let_def ok')
  show "conn_ok (snd (conn_step (CAcquire a) w))"
    using ok unfolding conn_ok_def
    by (auto simp: acquire_def Let_def ok' open_conns_def open_from_def gomap_simps dest!: in_map_putD)
qed

interpretation conns: machine conn_step "\<lambda>_ _. True" conn_ok
proof
  show "conn_ok s \<Longrightarrow> conn_ok (snd (conn_step x s))" for s x
    by (cases x) (use acquire_ok(1) release_ok in \<open>auto simp del: conn_step.simps\<close>, auto)
qed

lemma new_conns_ok: "conn_ok (new_conns max_total max_per_addr)"
  by (auto simp: conn_ok_def new_conns_def new_conn_limiter_def open_conns_def open_from_def default_max_conns_def default_max_conns_per_addr_def)

lemma conn_caps: "cl_max_total (cw_lim (snd (conn_step x w))) = cl_max_total (cw_lim w)
    \<and> cl_max_per_addr (cw_lim (snd (conn_step x w))) = cl_max_per_addr (cw_lim w)"
  by (cases x) (auto simp: acquire_def release_def Let_def)

lemma run_caps: "cl_max_total (cw_lim (snd (run_ops conn_step xs w))) = cl_max_total (cw_lim w)
    \<and> cl_max_per_addr (cw_lim (snd (run_ops conn_step xs w))) = cl_max_per_addr (cw_lim w)"
  by (induction xs arbitrary: w) (auto simp: conn_caps)

text \<open>
  The connection limiter counts the open connections. Whatever connections are accepted and closed, in
  whatever order, with a close repeated as often as one likes: the counters are the numbers of connections open now,
  in all and for each source, they stay within their caps, and a source with no open connection
  has no entry. A connection is admitted exactly when it is below both caps, so that a refusal is never stale.
\<close>

theorem conn_limiter_exact:
  fixes ops max_total max_per_addr
  defines "w \<equiv> snd (run_ops conn_step ops (new_conns max_total max_per_addr))"
    and "cap \<equiv> if max_total \<le> 0 then 256 else max_total" and "per \<equiv> if max_per_addr \<le> 0 then 16 else max_per_addr"
  shows "cl_total (cw_lim w) = int (open_conns w) \<and> int (open_conns w) \<le> cap
    \<and> map_get (cl_per_addr (cw_lim w)) k = (if open_from k w = 0 then None else Some (int (open_from k w)))
    \<and> int (open_from k w) \<le> per
    \<and> (fst (acquire a (cw_lim w)) \<longleftrightarrow> int (open_conns w) < cap \<and> int (open_from (addr_key a) w) < per)"
proof -
  have ok: "conn_ok w" unfolding w_def by (rule conns.run_keeps [OF new_conns_ok]) simp
  have caps: "cl_max_total (cw_lim w) = cap" "cl_max_per_addr (cw_lim w) = per"
    by (simp_all add: w_def run_caps new_conns_def new_conn_limiter_def cap_def per_def default_max_conns_def default_max_conns_per_addr_def)
  have get: "get_or 0 (cl_per_addr (cw_lim w)) k = int (open_from k w)" using ok by (simp add: conn_ok_def)
  have pos: "\<And>n. map_get (cl_per_addr (cw_lim w)) k = Some n \<Longrightarrow> 0 < n"
    using ok by (auto simp: conn_ok_def dest!: map_of_SomeD)
  have "map_get (cl_per_addr (cw_lim w)) k = (if open_from k w = 0 then None else Some (int (open_from k w)))"
    using get pos by (cases "map_get (cl_per_addr (cw_lim w)) k") (auto simp: get_or_def)
  moreover have "fst (acquire a (cw_lim w)) = fst (conn_step (CAcquire a) w)" by (auto split: prod.split bool.split)
  ultimately show ?thesis using ok acquire_ok(2) [OF ok, of a] by (simp add: conn_ok_def caps)
qed

text \<open>The pause of a failing accept loop doubles from five milliseconds to one second.\<close>

lemma accept_pause_doubles: "(accept_pause ^^ Suc n) accept_reset = min (5 * millisecond * 2 ^ n) second"
proof (induction n)
  case 0
  then show ?case by (simp add: accept_pause_def accept_reset_def accept_min_def dur_defs)
next
  case (Suc n)
  have "(1 :: int) \<le> 2 ^ n" by simp
  with Suc show ?case by (auto simp: accept_pause_def accept_min_def accept_max_def dur_defs min_def)
qed

end
