(* ===== verification/Sign_In.thy ===== *)
theory Sign_In
  imports Account_Lock Mail_Throttle
begin

text \<open>
  The doors of the mail server and the chat (src/cmd/vayupress/vayuos.go, signin.go): AuthUser and
  talkVerify compose the account lockout, the mailbox throttle and the credential check. The
  directory of sign-in names, the refusal rules and the credential check are arguments. A call reads
  the clock when it is admitted and again, after the throttle's sleep and the check, when it records the result.
\<close>

record signin_env =
  se_names :: "string \<Rightarrow> string option"   \<comment> \<open>AddressForSigninName; the accounts may be absent\<close>
  se_refused :: "string \<Rightarrow> bool"
  se_verify :: "string \<Rightarrow> string \<Rightarrow> bool"
  se_domain :: string

record door =
  dr_accounts :: accounts
  dr_throttle :: auth_throttle

datatype signin_stage = StagePaused | StagePassword

record signin_result =
  sr_ok :: bool
  sr_locked :: bool
  sr_checked :: "string option"   \<comment> \<open>the account whose credential was checked\<close>
  sr_record :: "(string \<times> signin_stage) option"

definition signin_resolve :: "signin_env \<Rightarrow> string \<Rightarrow> string" where
  "signin_resolve v given =
     (let given = to_lower (trim_space given) in
      if given = [] \<or> CHR ''@'' \<in> set given then given
      else case se_names v given of
        None \<Rightarrow> given
      | Some addr \<Rightarrow> if addr \<noteq> [] then addr else given)"

text \<open>What both doors do with an address: \<open>label\<close> is the source that the lockout notice names.\<close>

definition try_credential :: "signin_env \<Rightarrow> string \<Rightarrow> time \<Rightarrow> time \<Rightarrow> string \<Rightarrow> string \<Rightarrow> door \<Rightarrow> signin_result \<times> door" where
  "try_credential v label now later addr password g =
     (if se_refused v addr then (\<lparr>sr_ok = False, sr_locked = False, sr_checked = None, sr_record = None\<rparr>, g)
      else if fst (check_account_lockout now addr (dr_accounts g))
      then (\<lparr>sr_ok = False, sr_locked = True, sr_checked = None, sr_record = Some (account_key addr, StagePaused)\<rparr>, g)
      else (let t = snd (throttle_delay now addr (dr_throttle g)) in
            if se_verify v addr password
            then (\<lparr>sr_ok = True, sr_locked = False, sr_checked = Some addr, sr_record = None\<rparr>,
                  \<lparr>dr_accounts = record_account_success addr (dr_accounts g), dr_throttle = throttle_success addr t\<rparr>)
            else (\<lparr>sr_ok = False, sr_locked = False, sr_checked = Some addr, sr_record = Some (account_key addr, StagePassword)\<rparr>,
                  \<lparr>dr_accounts = snd (record_account_failure later addr label (dr_accounts g)), dr_throttle = throttle_fail later addr t\<rparr>)))"

definition auth_user :: "signin_env \<Rightarrow> time \<Rightarrow> time \<Rightarrow> string \<Rightarrow> string \<Rightarrow> door \<Rightarrow> signin_result \<times> door" where
  "auth_user v now later username password g =
     (let addr = signin_resolve v username;
          addr = (if CHR ''@'' \<in> set addr then addr else addr @ ''@'' @ se_domain v)
      in try_credential v ''a mail app (IMAP, POP3 or SMTP)'' now later addr password g)"

definition talk_verify :: "signin_env \<Rightarrow> time \<Rightarrow> time \<Rightarrow> string \<Rightarrow> string \<Rightarrow> door \<Rightarrow> bool \<times> door" where
  "talk_verify v now later email password g =
     (let (r, g) = try_credential v ''VayuTalk'' now later (signin_resolve v email) password g in (sr_ok r, g))"

text \<open>The delay that AuthUser sleeps before the check.\<close>

definition signin_delay :: "time \<Rightarrow> string \<Rightarrow> door \<Rightarrow> dur" where
  "signin_delay now addr g = fst (throttle_delay now addr (dr_throttle g))"

section \<open>Guesses through every door\<close>

text \<open>A call through one of the doors, by its label, with the two readings of the clock.\<close>

record signin_call =
  sc_label :: string
  sc_now :: time
  sc_later :: time
  sc_addr :: string
  sc_password :: string

definition call_step :: "signin_env \<Rightarrow> signin_call \<Rightarrow> door \<Rightarrow> signin_result \<times> door" where
  "call_step v c g = try_credential v (sc_label c) (sc_now c) (sc_later c) (sc_addr c) (sc_password c) g"

text \<open>The wrong passwords that were checked against account \<open>k\<close>: when, and through which door.\<close>

fun wrong_checks :: "signin_env \<Rightarrow> string \<Rightarrow> signin_call list \<Rightarrow> door \<Rightarrow> (time \<times> string) list" where
  "wrong_checks v k [] g = []"
| "wrong_checks v k (c # cs) g =
     (let (r, g') = call_step v c g in
      (if account_key (sc_addr c) = k \<and> sr_checked r \<noteq> None \<and> \<not> sr_ok r then [(sc_later c, sc_label c)] else [])
      @ wrong_checks v k cs g')"

text \<open>The calls follow one another.\<close>

fun in_turn :: "time \<Rightarrow> signin_call list \<Rightarrow> bool" where
  "in_turn t [] \<longleftrightarrow> True"
| "in_turn t (c # cs) \<longleftrightarrow> t \<le> sc_now c \<and> sc_now c \<le> sc_later c \<and> in_turn (sc_later c) cs"

lemma call_acct:
  assumes k: "k \<noteq> []" and c: "0 \<le> sc_now c" "sc_now c \<le> sc_later c"
    and miss: "account_key (sc_addr c) = k \<Longrightarrow> \<not> se_verify v (sc_addr c) (sc_password c)"
  shows "acct_of (dr_accounts (snd (call_step v c g))) k =
      (if account_key (sc_addr c) = k \<and> sr_checked (fst (call_step v c g)) \<noteq> None
       then fst (acct_count (sc_later c) (sc_label c) (acct_of (dr_accounts g) k)) else acct_of (dr_accounts g) k)"
    and "account_key (sc_addr c) = k \<Longrightarrow> sr_checked (fst (call_step v c g)) \<noteq> None \<Longrightarrow>
      \<not> sr_ok (fst (call_step v c g)) \<and> \<not> sc_later c < at_until (acct_of (dr_accounts g) k)"
proof -
  have free: "\<not> sc_later c < at_until (acct_of (dr_accounts g) k)"
    if "account_key (sc_addr c) = k" "\<not> fst (check_account_lockout (sc_now c) (sc_addr c) (dr_accounts g))"
    using that check_acct_of [of "sc_addr c" "sc_now c" "dr_accounts g"] k c by auto
  have other: "acct_of (record_account_success a s) k = acct_of s k" if "account_key a \<noteq> k" for a s
    using that by (simp add: acct_of_def record_account_success_def gomap_simps)
  have other': "acct_of (snd (record_account_failure n a l s)) k = acct_of s k" if "account_key a \<noteq> k" for n a l s
    using that acct_of_failure [of a n l s k] failure_empty_key [of a n l s] by (cases "account_key a = []") auto
  show "acct_of (dr_accounts (snd (call_step v c g))) k =
      (if account_key (sc_addr c) = k \<and> sr_checked (fst (call_step v c g)) \<noteq> None
       then fst (acct_count (sc_later c) (sc_label c) (acct_of (dr_accounts g) k)) else acct_of (dr_accounts g) k)"
    using miss free k other other' acct_of_failure [of "sc_addr c" "sc_later c" "sc_label c" "dr_accounts g" k]
    by (auto simp: call_step_def try_credential_def Let_def)
  show "account_key (sc_addr c) = k \<Longrightarrow> sr_checked (fst (call_step v c g)) \<noteq> None \<Longrightarrow>
      \<not> sr_ok (fst (call_step v c g)) \<and> \<not> sc_later c < at_until (acct_of (dr_accounts g) k)"
    using miss free by (auto simp: call_step_def try_credential_def Let_def split: if_splits)
qed

lemma wrong_checks_counted:
  assumes "k \<noteq> []" "0 \<le> t" "in_turn t cs"
    and "\<forall>c \<in> set cs. account_key (sc_addr c) = k \<longrightarrow> \<not> se_verify v (sc_addr c) (sc_password c)"
  shows "snd (acct_run (wrong_checks v k cs g) (acct_of (dr_accounts g) k)) = map fst (wrong_checks v k cs g)
    \<and> sorted (map fst (wrong_checks v k cs g)) \<and> (\<forall>x \<in> set (wrong_checks v k cs g). t \<le> fst x)"
  using assms
proof (induction cs arbitrary: g t)
  case Nil
  then show ?case by simp
next
  case (Cons c cs)
  let ?g = "snd (call_step v c g)" and ?r = "fst (call_step v c g)"
  have times: "0 \<le> sc_now c" "sc_now c \<le> sc_later c" "t \<le> sc_later c" "in_turn (sc_later c) cs" using Cons.prems by auto
  note acct = call_acct [OF Cons.prems(1) times(1,2), of v g]
  have miss: "account_key (sc_addr c) = k \<Longrightarrow> \<not> se_verify v (sc_addr c) (sc_password c)" using Cons.prems(4) by simp
  from Cons.IH [of "sc_later c" ?g] Cons.prems times
  have IH: "snd (acct_run (wrong_checks v k cs ?g) (acct_of (dr_accounts ?g) k)) = map fst (wrong_checks v k cs ?g)"
    "sorted (map fst (wrong_checks v k cs ?g))" "\<forall>x \<in> set (wrong_checks v k cs ?g). sc_later c \<le> fst x" by auto
  then show ?case
    using acct(1) [OF miss] acct(2) [OF miss] times(3) by (fastforce simp: case_prod_beta Let_def)
qed



definition demo_call :: "int \<Rightarrow> signin_call" where
  "demo_call i = \<lparr>sc_label = ''VayuTalk'', sc_now = i, sc_later = i, sc_addr = ''ann@x'', sc_password = ''guess''\<rparr>"

definition demo_signin :: signin_env where
  "demo_signin = \<lparr>se_names = \<lambda>_. None, se_refused = \<lambda>_. False, se_verify = \<lambda>_ _. False, se_domain = ''x''\<rparr>"


text \<open>
  The check of the lockout and the record of the failure are apart, with the sleep between them, and calls of different
  connections overlap: calls that were all admitted before the first failure is recorded all have their
  password checked.
\<close>

definition admitted_call :: "signin_env \<Rightarrow> signin_call \<Rightarrow> door \<Rightarrow> bool" where
  "admitted_call v c g \<longleftrightarrow> \<not> se_refused v (sc_addr c) \<and> \<not> fst (check_account_lockout (sc_now c) (sc_addr c) (dr_accounts g))"

lemma overlapping_guesses_pass:
  assumes "\<forall>c \<in> set calls. \<not> se_refused v (sc_addr c)"
  shows "\<forall>c \<in> set calls. admitted_call v c \<lparr>dr_accounts = [], dr_throttle = t\<rparr>"
  using assms by (auto simp: admitted_call_def check_account_lockout_def Let_def)

end
