(* ===== verification/Rate_Limit.thy ===== *)
theory Rate_Limit
  imports Machine Complex_Main "HOL-Library.Word"
begin

unbundle bit_operations_syntax

text \<open>
  The shield's first line of defence (src/internal/vayushield/resilience/resilience.go): the sharded
  token buckets, the gate on requests in flight, the jail with its expiries and the meter that says when the
  site is under attack. The float64 tokens and rates are exact rationals here: their rounding is not
  modelled. A range loop visits a map in the order of its list.
\<close>

section \<open>Token buckets\<close>

definition limiter_shards :: nat where "limiter_shards = 256"

record bucket =
  bk_tokens :: rat
  bk_last :: time

type_synonym shard = "(string, bucket) gomap"

record limiter =
  lm_shards :: "shard list"
  lm_rate :: rat
  lm_burst :: rat
  lm_max :: nat

definition set_rate :: "rat \<Rightarrow> rat \<Rightarrow> limiter \<Rightarrow> limiter" where
  "set_rate rate burst l = l\<lparr>lm_rate := (if rate < 0 then 0 else rate), lm_burst := (if burst < 1 then 1 else burst)\<rparr>"

definition new_limiter :: "rat \<Rightarrow> rat \<Rightarrow> nat \<Rightarrow> limiter" where
  "new_limiter rate burst max_keys =
     (let max_keys = (if max_keys < limiter_shards then limiter_shards * 16 else max_keys)
      in set_rate rate burst \<lparr>lm_shards = replicate limiter_shards [], lm_rate = 0, lm_burst = 0, lm_max = max_keys div limiter_shards\<rparr>)"

text \<open>hash/fnv: the 32-bit FNV-1a hash.\<close>

definition fnv32a :: "string \<Rightarrow> 32 word" where
  "fnv32a s = fold (\<lambda>c h. (h XOR word_of_nat (of_char c)) * 16777619) s 2166136261"

definition shard_index :: "string \<Rightarrow> nat" where
  "shard_index key = unat (fnv32a key) mod limiter_shards"

definition evict_locked :: "rat \<Rightarrow> nat \<Rightarrow> shard \<Rightarrow> shard" where
  "evict_locked burst mx m =
     (let m = filter (\<lambda>(k, b). \<not> bk_tokens b \<ge> burst - 1 / 1000) m
      in if length m \<ge> mx then drop (mx div 8 + 1) m else m)"

text \<open>Seconds, as Duration.Seconds gives them.\<close>

definition dur_seconds :: "dur \<Rightarrow> rat" where
  "dur_seconds d = of_int d / 1000000000"

definition refill :: "rat \<Rightarrow> rat \<Rightarrow> time \<Rightarrow> bucket \<Rightarrow> bucket" where
  "refill rate burst now b =
     (let elapsed = dur_seconds (time_sub now (bk_last b)) in
      if elapsed > 0 then \<lparr>bk_tokens = min burst (bk_tokens b + elapsed * rate), bk_last = now\<rparr> else b)"

definition shard_allow :: "rat \<Rightarrow> rat \<Rightarrow> nat \<Rightarrow> time \<Rightarrow> string \<Rightarrow> shard \<Rightarrow> bool \<times> shard" where
  "shard_allow rate burst mx now key m =
     (case map_get m key of
        None \<Rightarrow>
          (let m = (if length m \<ge> mx then evict_locked burst mx m else m)
           in (True, map_put key \<lparr>bk_tokens = burst - 1, bk_last = now\<rparr> m))
      | Some b \<Rightarrow>
          (let b = refill rate burst now b in
           if bk_tokens b \<ge> 1 then (True, map_put key (b\<lparr>bk_tokens := bk_tokens b - 1\<rparr>) m)
           else (False, map_put key b m)))"

definition limiter_allow :: "time \<Rightarrow> string \<Rightarrow> limiter \<Rightarrow> bool \<times> limiter" where
  "limiter_allow now key l =
     (let i = shard_index key; (ok, m) = shard_allow (lm_rate l) (lm_burst l) (lm_max l) now key (lm_shards l ! i)
      in (ok, l\<lparr>lm_shards := (lm_shards l)[i := m]\<rparr>))"

section \<open>The jail\<close>

definition blocklist_shards :: nat where "blocklist_shards = 64"
definition blocklist_prune_at :: nat where "blocklist_prune_at = 20000"

type_synonym blocklist = "(string, time) gomap list"

definition new_blocklist :: blocklist where
  "new_blocklist = replicate blocklist_shards []"

definition blocklist_shard :: "string \<Rightarrow> nat" where
  "blocklist_shard key = shard_index key mod blocklist_shards"

text \<open>Block reads the clock twice: before it takes the lock, and for the sweep of a large shard.\<close>

definition block_shard :: "time \<Rightarrow> time \<Rightarrow> string \<Rightarrow> (string, time) gomap \<Rightarrow> (string, time) gomap" where
  "block_shard until now key m =
     (let m = (case map_get m key of
                 None \<Rightarrow> map_put key until m
               | Some cur \<Rightarrow> if until > cur then map_put key until m else m)
      in if length m > blocklist_prune_at then filter (\<lambda>(k, e). \<not> now > e) m else m)"

definition jail_block :: "time \<Rightarrow> time \<Rightarrow> string \<Rightarrow> dur \<Rightarrow> blocklist \<Rightarrow> blocklist" where
  "jail_block now now' key ttl b =
     (if key = [] \<or> ttl \<le> 0 then b
      else (let i = blocklist_shard key in b[i := block_shard (now + ttl) now' key (b ! i)]))"

definition jail_unblock :: "string \<Rightarrow> blocklist \<Rightarrow> blocklist" where
  "jail_unblock key b =
     (if key = [] then b else (let i = blocklist_shard key in b[i := map_del key (b ! i)]))"

definition jail_blocked :: "time \<Rightarrow> string \<Rightarrow> blocklist \<Rightarrow> bool \<times> blocklist" where
  "jail_blocked now key b =
     (if key = [] then (False, b)
      else (let i = blocklist_shard key in
            case map_get (b ! i) key of
              None \<Rightarrow> (False, b)
            | Some e \<Rightarrow> if now > e then (False, b[i := map_del key (b ! i)]) else (True, b)))"

definition jail_unblock_all :: "blocklist \<Rightarrow> nat \<times> blocklist" where
  "jail_unblock_all b = (sum_list (map length b), map (\<lambda>_. []) b)"

definition jail_len :: "blocklist \<Rightarrow> nat" where
  "jail_len b = sum_list (map length b)"

section \<open>The meter\<close>

record controller =
  ct_sec :: int
  ct_count :: int
  ct_last :: int
  ct_threshold :: int

definition set_threshold :: "int \<Rightarrow> controller \<Rightarrow> controller" where
  "set_threshold rps c = c\<lparr>ct_threshold := rps\<rparr>"

definition observe :: "int \<Rightarrow> controller \<Rightarrow> controller" where
  "observe now c =
     (let c = (if ct_sec c \<noteq> now then c\<lparr>ct_sec := now, ct_last := ct_count c, ct_count := 0\<rparr> else c)
      in c\<lparr>ct_count := ct_count c + 1\<rparr>)"

definition under_attack :: "controller \<Rightarrow> bool" where
  "under_attack c \<longleftrightarrow> \<not> ct_threshold c \<le> 0 \<and> (ct_count c > ct_threshold c \<or> ct_last c > ct_threshold c)"

definition rps :: "controller \<Rightarrow> int" where
  "rps c = (if ct_count c > ct_last c then ct_count c else ct_last c)"

section \<open>Requests in flight\<close>

text \<open>
  InFlight is lock-free: its operations are sequences of atomic accesses to a counter, and those of different
  requests interleave. A request is between accesses or admitted; the state counts the requests
  at each point. The gate is on: its limit is positive and stays.
\<close>

record in_flight =
  if_n :: int
  if_admitted :: nat
  if_failing :: nat
  if_leaving :: nat

text \<open>
  Acquire adds one and looks at the result: within the limit it is admitted, past it it will take its one back.
  Release of an admitted request looks at the counter and, when it is positive, will take one off.
\<close>

inductive flight_step :: "int \<Rightarrow> in_flight \<Rightarrow> in_flight \<Rightarrow> bool" for mx where
  Enter: "if_n s + 1 \<le> mx \<Longrightarrow> flight_step mx s (s\<lparr>if_n := if_n s + 1, if_admitted := if_admitted s + 1\<rparr>)"
| Over: "\<not> if_n s + 1 \<le> mx \<Longrightarrow> flight_step mx s (s\<lparr>if_n := if_n s + 1, if_failing := if_failing s + 1\<rparr>)"
| Undo: "0 < if_failing s \<Longrightarrow> flight_step mx s (s\<lparr>if_n := if_n s - 1, if_failing := if_failing s - 1\<rparr>)"
| Leave: "0 < if_admitted s \<Longrightarrow> if_n s > 0 \<Longrightarrow> flight_step mx s (s\<lparr>if_admitted := if_admitted s - 1, if_leaving := if_leaving s + 1\<rparr>)"
| Stuck: "0 < if_admitted s \<Longrightarrow> \<not> if_n s > 0 \<Longrightarrow> flight_step mx s (s\<lparr>if_admitted := if_admitted s - 1\<rparr>)"
| Left: "0 < if_leaving s \<Longrightarrow> flight_step mx s (s\<lparr>if_n := if_n s - 1, if_leaving := if_leaving s - 1\<rparr>)"

inductive flight_reach :: "int \<Rightarrow> in_flight \<Rightarrow> bool" for mx where
  Start: "flight_reach mx \<lparr>if_n = 0, if_admitted = 0, if_failing = 0, if_leaving = 0\<rparr>"
| Step: "flight_reach mx s \<Longrightarrow> flight_step mx s s' \<Longrightarrow> flight_reach mx s'"

text \<open>The same operations run without interleaving, with a limit that may be off.\<close>

definition flight_acquire :: "int \<Rightarrow> int \<Rightarrow> bool \<times> int" where
  "flight_acquire mx n = (if mx \<le> 0 then (True, n) else if n + 1 > mx then (False, n) else (True, n + 1))"

definition flight_release :: "int \<Rightarrow> int" where
  "flight_release n = (if n > 0 then n - 1 else n)"


section \<open>The allowance of a source\<close>

definition limiter_ok :: "string set \<Rightarrow> limiter \<Rightarrow> bool" where
  "limiter_ok K l \<longleftrightarrow>
     length (lm_shards l) = limiter_shards \<and> 0 \<le> lm_rate l \<and> 1 \<le> lm_burst l \<and> card K \<le> lm_max l
     \<and> (\<forall>m \<in> set (lm_shards l). gomap_ok m \<and> fst ` set m \<subseteq> K
          \<and> (\<forall>(k, b) \<in> set m. 0 \<le> bk_tokens b \<and> bk_tokens b \<le> lm_burst l))"

definition bucket_of :: "limiter \<Rightarrow> string \<Rightarrow> bucket option" where
  "bucket_of l key = map_get (lm_shards l ! shard_index key) key"

definition allow_step :: "time \<times> string \<Rightarrow> limiter \<Rightarrow> bool \<times> limiter" where
  "allow_step = (\<lambda>(now, key) l. limiter_allow now key l)"

lemma shard_index_less: "shard_index key < limiter_shards"
  by (simp add: shard_index_def limiter_shards_def)

lemma room_in_shard:
  assumes "gomap_ok m" "fst ` set m \<subseteq> K" "finite K" "key \<in> K" "map_get m key = None"
  shows "length m < card K"
proof -
  have "length m = card (fst ` set m)" using assms(1) by (metis distinct_card length_map list.set_map)
  moreover have "fst ` set m \<subset> K" using assms(2,4,5) by (auto simp: map_of_eq_None_iff)
  ultimately show ?thesis using assms(3) by (simp add: psubset_card_mono)
qed

lemma refill_bounds:
  assumes "0 \<le> bk_tokens b" "bk_tokens b \<le> burst" "0 \<le> rate" "1 \<le> burst"
  shows "0 \<le> bk_tokens (refill rate burst now b)" "bk_tokens (refill rate burst now b) \<le> burst"
  using assms by (auto simp: refill_def Let_def)

text \<open>What Allow does to the bucket of the key, as long as there is room.\<close>

definition allow_bucket :: "rat \<Rightarrow> rat \<Rightarrow> time \<Rightarrow> bucket option \<Rightarrow> bool \<times> bucket" where
  "allow_bucket rate burst now ob =
     (case ob of
        None \<Rightarrow> (True, \<lparr>bk_tokens = burst - 1, bk_last = now\<rparr>)
      | Some b \<Rightarrow> (let b = refill rate burst now b in
                   if bk_tokens b \<ge> 1 then (True, b\<lparr>bk_tokens := bk_tokens b - 1\<rparr>) else (False, b)))"

lemma allow_bucket_bounds:
  assumes "0 \<le> rate" "1 \<le> burst" "\<And>b. ob = Some b \<Longrightarrow> 0 \<le> bk_tokens b \<and> bk_tokens b \<le> burst"
  shows "0 \<le> bk_tokens (snd (allow_bucket rate burst now ob))" "bk_tokens (snd (allow_bucket rate burst now ob)) \<le> burst"
proof -
  have "0 \<le> bk_tokens (snd (allow_bucket rate burst now ob)) \<and> bk_tokens (snd (allow_bucket rate burst now ob)) \<le> burst"
  proof (cases ob)
    case None
    then show ?thesis using assms(2) by (simp add: allow_bucket_def)
  next
    case (Some b)
    with assms have "0 \<le> bk_tokens (refill rate burst now b)" "bk_tokens (refill rate burst now b) \<le> burst"
      by (auto intro: refill_bounds)
    then show ?thesis by (simp add: Some allow_bucket_def Let_def)
  qed
  then show "0 \<le> bk_tokens (snd (allow_bucket rate burst now ob))" "bk_tokens (snd (allow_bucket rate burst now ob)) \<le> burst" by auto
qed

lemma limiter_allow_eq:
  fixes now
  assumes ok: "limiter_ok K l" and K: "finite K" "key \<in> K"
  defines "ab \<equiv> allow_bucket (lm_rate l) (lm_burst l) now (bucket_of l key)"
  shows "fst (limiter_allow now key l) = fst ab"
    and "lm_shards (snd (limiter_allow now key l)) =
      (lm_shards l)[shard_index key := map_put key (snd ab) (lm_shards l ! shard_index key)]"
proof -
  let ?m = "lm_shards l ! shard_index key"
  have m: "?m \<in> set (lm_shards l)" using ok by (simp add: limiter_ok_def shard_index_less)
  have room: "\<not> lm_max l \<le> length ?m" if "map_get ?m key = None"
    using room_in_shard [of ?m K key] that ok K m by (auto simp: limiter_ok_def)
  show "fst (limiter_allow now key l) = fst ab"
    "lm_shards (snd (limiter_allow now key l)) = (lm_shards l)[shard_index key := map_put key (snd ab) ?m]"
    using room by (auto simp: limiter_allow_def shard_allow_def ab_def allow_bucket_def bucket_of_def Let_def case_prod_beta split: option.split)
qed

lemma limiter_allow_ok:
  assumes ok: "limiter_ok K l" and K: "finite K" "key \<in> K"
  shows "limiter_ok K (snd (limiter_allow now key l))"
    and "bucket_of (snd (limiter_allow now key l)) k =
      (if k = key then Some (snd (allow_bucket (lm_rate l) (lm_burst l) now (bucket_of l key))) else bucket_of l k)"
    and "lm_rate (snd (limiter_allow now key l)) = lm_rate l" "lm_burst (snd (limiter_allow now key l)) = lm_burst l"
proof -
  let ?i = "shard_index key" and ?l = "snd (limiter_allow now key l)"
  let ?b = "snd (allow_bucket (lm_rate l) (lm_burst l) now (bucket_of l key))"
  have i: "?i < length (lm_shards l)" using ok by (simp add: limiter_ok_def shard_index_less)
  have same: "lm_rate ?l = lm_rate l" "lm_burst ?l = lm_burst l" "lm_max ?l = lm_max l"
    by (simp_all add: limiter_allow_def Let_def case_prod_beta)
  show "lm_rate ?l = lm_rate l" "lm_burst ?l = lm_burst l" by (fact same)+
  note shards = limiter_allow_eq(2) [OF ok K, of now]
  have m: "lm_shards l ! ?i \<in> set (lm_shards l)" using i by simp
  have "0 \<le> bk_tokens ?b \<and> bk_tokens ?b \<le> lm_burst l"
    using allow_bucket_bounds [of "lm_rate l" "lm_burst l" "bucket_of l key" now] ok m
    by (force simp: limiter_ok_def bucket_of_def dest!: map_of_SomeD)
  then show "limiter_ok K ?l"
    using ok K m unfolding limiter_ok_def shards same
    by (auto dest!: in_map_putD subsetD [OF set_update_subset_insert] simp: dom_update)
  show "bucket_of ?l k = (if k = key then Some ?b else bucket_of l k)"
    using i by (auto simp: bucket_of_def shards nth_list_update gomap_simps)
qed


text \<open>The most requests that can still be admitted from \<open>a\<close> to \<open>b\<close>.\<close>

definition credit :: "time \<Rightarrow> time \<Rightarrow> rat \<Rightarrow> rat \<Rightarrow> bucket option \<Rightarrow> rat" where
  "credit a b rate burst ob =
     (case ob of
        None \<Rightarrow> burst + rate * dur_seconds (b - a)
      | Some x \<Rightarrow> if bk_last x < a then burst + rate * dur_seconds (b - a) else bk_tokens x + rate * dur_seconds (b - bk_last x))"

lemma dur_seconds_mono: "d \<le> e \<Longrightarrow> dur_seconds d \<le> dur_seconds e"
  by (simp add: dur_seconds_def divide_right_mono)

lemma dur_seconds_add: "dur_seconds (d + e) = dur_seconds d + dur_seconds e"
  by (simp add: dur_seconds_def add_divide_distrib)

lemma refill_tokens:
  assumes "bk_last x \<le> t" "0 \<le> rate" "bk_tokens x \<le> burst"
  shows "bk_last (refill rate burst t x) = t" "bk_tokens (refill rate burst t x) \<le> bk_tokens x + rate * dur_seconds (t - bk_last x)"
    "bk_tokens (refill rate burst t x) \<le> burst"
proof -
  let ?e = "dur_seconds (time_sub t (bk_last x))"
  have sub: "0 \<le> time_sub t (bk_last x)" "time_sub t (bk_last x) \<le> t - bk_last x" "0 < time_sub t (bk_last x) \<longleftrightarrow> bk_last x < t"
    using assms(1) by (auto simp: time_sub_def dur_defs)
  have pos: "?e > 0 \<longleftrightarrow> bk_last x < t" using sub(3) by (simp add: dur_seconds_def)
  have "?e * rate \<le> rate * dur_seconds (t - bk_last x)"
    using dur_seconds_mono [OF sub(2)] assms(2) by (simp add: mult.commute mult_left_mono)
  then show "bk_tokens (refill rate burst t x) \<le> bk_tokens x + rate * dur_seconds (t - bk_last x)"
    using pos assms by (auto simp: refill_def Let_def dur_seconds_def)
  show "bk_last (refill rate burst t x) = t" "bk_tokens (refill rate burst t x) \<le> burst"
    using pos assms by (auto simp: refill_def Let_def)
qed

lemma allow_credit:
  assumes "a \<le> t" "t \<le> b" "0 \<le> rate" "1 \<le> burst"
    and ob: "\<And>x. ob = Some x \<Longrightarrow> bk_last x \<le> t \<and> 0 \<le> bk_tokens x \<and> bk_tokens x \<le> burst"
  defines "ab \<equiv> allow_bucket rate burst t ob"
  shows "bk_last (snd ab) = t" "of_bool (fst ab) + credit a b rate burst (Some (snd ab)) \<le> credit a b rate burst ob"
    "0 \<le> credit a b rate burst (Some (snd ab))"
proof -
  let ?left = "rate * dur_seconds (b - t)"
  have left: "0 \<le> ?left" using assms by (simp add: dur_seconds_def)
  have mono: "?left \<le> rate * dur_seconds (b - a)" using assms by (intro mult_left_mono dur_seconds_mono) auto
  show last: "bk_last (snd ab) = t"
    using ob refill_tokens(1) [OF _ assms(3)] by (auto simp: ab_def allow_bucket_def Let_def split: option.split)
  have new: "credit a b rate burst (Some (snd ab)) = bk_tokens (snd ab) + ?left" using assms(1) by (simp add: credit_def last)
  have "0 \<le> bk_tokens (snd ab)"
    unfolding ab_def by (rule allow_bucket_bounds(1) [OF assms(3,4)]) (use ob in auto)
  then show "0 \<le> credit a b rate burst (Some (snd ab))" using left by (simp add: new)
  show "of_bool (fst ab) + credit a b rate burst (Some (snd ab)) \<le> credit a b rate burst ob"
  proof (cases ob)
    case None
    then show ?thesis using mono unfolding new by (simp add: ab_def allow_bucket_def credit_def)
  next
    case (Some x)
    let ?r = "refill rate burst t x"
    have x: "bk_last x \<le> t" "bk_tokens x \<le> burst" using ob [OF Some] by auto
    note r = refill_tokens [OF x(1) assms(3) x(2)]
    have "of_bool (fst ab) + bk_tokens (snd ab) = bk_tokens ?r" by (simp add: ab_def Some allow_bucket_def Let_def)
    moreover have "bk_tokens ?r + ?left \<le> credit a b rate burst ob"
    proof (cases "bk_last x < a")
      case True
      then show ?thesis using r(3) mono by (simp add: Some credit_def)
    next
      case False
      have "dur_seconds (b - bk_last x) = dur_seconds (t - bk_last x) + dur_seconds (b - t)"
        by (simp add: flip: dur_seconds_add)
      then show ?thesis using False r(2) by (simp add: Some credit_def distrib_left)
    qed
    ultimately show ?thesis unfolding new by linarith
  qed
qed

text \<open>The requests of a source that were admitted from \<open>a\<close> to \<open>b\<close>.\<close>

definition hits :: "time \<Rightarrow> time \<Rightarrow> string \<Rightarrow> (time \<times> string) list \<Rightarrow> bool list \<Rightarrow> nat" where
  "hits a b k reqs outs = length (filter (\<lambda>((t, k'), ok). ok \<and> k' = k \<and> a \<le> t \<and> t \<le> b) (zip reqs outs))"

lemma hits_Cons: "hits a b k ((t, k') # reqs) (ok # outs) = of_bool (ok \<and> k' = k \<and> a \<le> t \<and> t \<le> b) + hits a b k reqs outs"
  by (simp add: hits_def)

lemma hits_late: "\<forall>r \<in> set reqs. b < fst r \<Longrightarrow> hits a b k reqs outs = 0"
  by (force simp: hits_def filter_empty_conv dest: set_zip_leftD)

lemma limiter_bucket_bounds:
  assumes "limiter_ok K l" "bucket_of l k = Some x"
  shows "0 \<le> bk_tokens x \<and> bk_tokens x \<le> lm_burst l"
proof -
  have "lm_shards l ! shard_index k \<in> set (lm_shards l)" using assms(1) by (simp add: limiter_ok_def shard_index_less)
  then show ?thesis using assms by (force simp: limiter_ok_def bucket_of_def dest!: map_of_SomeD)
qed

lemma hits_credit:
  assumes "limiter_ok K l" "finite K" "snd ` set reqs \<subseteq> K" "sorted (map fst reqs)" "a \<le> b"
    and "\<And>x r. bucket_of l k = Some x \<Longrightarrow> r \<in> set reqs \<Longrightarrow> bk_last x \<le> fst r"
  shows "hits a b k reqs (fst (run_ops allow_step reqs l)) = 0
    \<or> of_nat (hits a b k reqs (fst (run_ops allow_step reqs l))) \<le> credit a b (lm_rate l) (lm_burst l) (bucket_of l k)"
  using assms
proof (induction reqs arbitrary: l)
  case Nil
  then show ?case by (simp add: hits_def)
next
  case (Cons r reqs)
  obtain t k' where r: "r = (t, k')" by (cases r)
  have key: "k' \<in> K" using Cons.prems(3) r by simp
  note ok = limiter_allow_ok [OF Cons.prems(1,2) key, of t]
  let ?l = "snd (limiter_allow t k' l)" and ?ok = "fst (limiter_allow t k' l)"
  let ?h = "hits a b k reqs (fst (run_ops allow_step reqs ?l))"
  have total: "hits a b k (r # reqs) (fst (run_ops allow_step (r # reqs) l)) = of_bool (?ok \<and> k' = k \<and> a \<le> t \<and> t \<le> b) + ?h"
    by (simp add: r hits_Cons allow_step_def)
  have later: "t \<le> fst q" if "q \<in> set reqs" for q using Cons.prems(4) that r by auto
  have rates: "0 \<le> lm_rate l" "1 \<le> lm_burst l" using Cons.prems(1) by (auto simp: limiter_ok_def)
  have "of_bool (?ok \<and> k' = k \<and> a \<le> t \<and> t \<le> b) + ?h = 0
    \<or> of_nat (of_bool (?ok \<and> k' = k \<and> a \<le> t \<and> t \<le> b) + ?h) \<le> credit a b (lm_rate l) (lm_burst l) (bucket_of l k)"
  proof (cases "b < t")
    case True
    then have "\<forall>q \<in> set reqs. b < fst q" using later by force
    then show ?thesis using True by (simp add: hits_late)
  next
    case False
    show ?thesis
    proof (cases "k' = k")
      case other: False
      have "\<And>x q. bucket_of ?l k = Some x \<Longrightarrow> q \<in> set reqs \<Longrightarrow> bk_last x \<le> fst q"
        using Cons.prems(6) other by (auto simp: ok(2))
      then have "?h = 0 \<or> of_nat ?h \<le> credit a b (lm_rate ?l) (lm_burst ?l) (bucket_of ?l k)"
        using Cons.IH [OF ok(1)] Cons.prems by auto
      then show ?thesis using other by (auto simp: ok(2-4))
    next
      case True
      let ?ab = "allow_bucket (lm_rate l) (lm_burst l) t (bucket_of l k)"
      have ob: "bk_last x \<le> t \<and> 0 \<le> bk_tokens x \<and> bk_tokens x \<le> lm_burst l" if "bucket_of l k = Some x" for x
        using limiter_bucket_bounds [OF Cons.prems(1) that] Cons.prems(6) [OF that, of r] by (simp add: r)
      have last: "bk_last (snd ?ab) = t"
        using allow_credit(1) [of t t t "lm_rate l" "lm_burst l" "bucket_of l k"] rates ob by simp
      have bk: "bucket_of ?l k = Some (snd ?ab)" using ok(2) [of k] True by simp
      have "\<And>x q. bucket_of ?l k = Some x \<Longrightarrow> q \<in> set reqs \<Longrightarrow> bk_last x \<le> fst q"
        using last later by (auto simp: bk)
      then have IH: "?h = 0 \<or> of_nat ?h \<le> credit a b (lm_rate l) (lm_burst l) (Some (snd ?ab))"
        using Cons.IH [OF ok(1)] Cons.prems by (auto simp: bk ok(3,4))
      have fst: "?ok = fst ?ab" using limiter_allow_eq(1) [OF Cons.prems(1,2) key, of t] True by simp
      show ?thesis
      proof (cases "t < a")
        case early: True
        then have "credit a b (lm_rate l) (lm_burst l) (Some (snd ?ab)) = credit a b (lm_rate l) (lm_burst l) (bucket_of l k)"
          using ob last by (fastforce simp: credit_def split: option.split)
        then show ?thesis using IH early by simp
      next
        case within: False
        have c: "of_bool (fst ?ab) + credit a b (lm_rate l) (lm_burst l) (Some (snd ?ab)) \<le> credit a b (lm_rate l) (lm_burst l) (bucket_of l k)"
          "0 \<le> credit a b (lm_rate l) (lm_burst l) (Some (snd ?ab))"
          using allow_credit(2,3) [of a t b "lm_rate l" "lm_burst l" "bucket_of l k"] within False rates ob by auto
        then have "of_nat (of_bool (fst ?ab) + ?h) \<le> credit a b (lm_rate l) (lm_burst l) (bucket_of l k)"
          using IH by auto
        then show ?thesis using True within False fst by simp
      qed
    qed
  qed
  then show ?case unfolding total .
qed


lemma allow_run:
  assumes "limiter_ok K l" "finite K" "snd ` set reqs \<subseteq> K"
  shows "limiter_ok K (snd (run_ops allow_step reqs l))"
    and "k \<notin> snd ` set reqs \<Longrightarrow> bucket_of (snd (run_ops allow_step reqs l)) k = bucket_of l k"
  using assms
  by (induction reqs arbitrary: l) (auto simp: allow_step_def limiter_allow_ok)

lemma first_admitted:
  assumes "limiter_ok K l" "finite K" "snd ` set reqs \<subseteq> K" and i: "i < length reqs" "snd (reqs ! i) \<notin> snd ` set (take i reqs)"
    and none: "bucket_of l (snd (reqs ! i)) = None"
  shows "fst (run_ops allow_step reqs l) ! i"
proof -
  have sub: "snd ` set (take i reqs) \<subseteq> K" using assms(3) set_take_subset [of i reqs] by blast
  have key: "snd (reqs ! i) \<in> K" using assms(3) i(1) by (meson image_subset_iff nth_mem)
  note pre = allow_run(1) [OF assms(1,2) sub] allow_run(2) [OF assms(1,2) sub i(2)]
  then show ?thesis
    using limiter_allow_eq(1) [OF pre(1) assms(2) key] none
    by (simp add: run_nth [OF i(1)] allow_step_def case_prod_beta allow_bucket_def)
qed

lemma new_limiter_ok:
  assumes "card K \<le> lm_max (new_limiter rate burst mx)"
  shows "limiter_ok K (new_limiter rate burst mx)"
  using assms by (auto simp: limiter_ok_def new_limiter_def set_rate_def Let_def limiter_shards_def)

lemma new_limiter_empty: "bucket_of (new_limiter rate burst mx) k = None"
  by (simp add: bucket_of_def new_limiter_def set_rate_def Let_def shard_index_less)

lemma limiter_run_bounded:
  fixes rate burst mx reqs a b
  defines "l \<equiv> new_limiter rate burst mx"
  assumes few: "card (snd ` set reqs) \<le> lm_max l" and order: "sorted (map fst reqs)" and ab: "a \<le> b"
  shows "of_nat (hits a b k reqs (fst (run_ops allow_step reqs l))) \<le> max 1 burst + max 0 rate * dur_seconds (b - a)"
proof -
  have ok: "limiter_ok (snd ` set reqs) l" using few by (simp add: l_def new_limiter_ok)
  have none: "bucket_of l k = None" by (simp add: l_def new_limiter_empty)
  have rates: "lm_rate l = max 0 rate" "lm_burst l = max 1 burst"
    by (auto simp: l_def new_limiter_def set_rate_def Let_def)
  have "0 \<le> max 1 burst + max 0 rate * dur_seconds (b - a)"
    using ab by (intro add_nonneg_nonneg mult_nonneg_nonneg) (auto simp: dur_seconds_def)
  with hits_credit [OF ok _ subset_refl order ab, of k] show ?thesis
    by (auto simp: none credit_def rates)
qed



section \<open>The jail keeps every sentence\<close>

datatype jail_op = JBlock time time string dur | JUnblock string | JBlocked time string | JAmnesty

fun jail_step :: "jail_op \<Rightarrow> blocklist \<Rightarrow> bool \<times> blocklist" where
  "jail_step (JBlock now now' key ttl) b = (False, jail_block now now' key ttl b)"
| "jail_step (JUnblock key) b = (False, jail_unblock key b)"
| "jail_step (JBlocked now key) b = jail_blocked now key b"
| "jail_step JAmnesty b = (False, snd (jail_unblock_all b))"

text \<open>When an operation reads the clock.\<close>

fun jail_time :: "jail_op \<Rightarrow> time option" where
  "jail_time (JBlock now now' key ttl) = Some now'"
| "jail_time (JBlocked now key) = Some now"
| "jail_time _ = None"

text \<open>The sentences of one key as the operator would write them down: the latest end, until it is lifted.\<close>

fun sentence :: "string \<Rightarrow> jail_op \<Rightarrow> time option \<Rightarrow> time option" where
  "sentence k (JBlock now now' key ttl) e =
     (if key = k \<and> k \<noteq> [] \<and> 0 < ttl then Some (case e of None \<Rightarrow> now + ttl | Some c \<Rightarrow> max c (now + ttl)) else e)"
| "sentence k (JUnblock key) e = (if key = k then None else e)"
| "sentence k (JBlocked now key) e = e"
| "sentence k JAmnesty e = None"

definition jail_ok :: "blocklist \<Rightarrow> bool" where
  "jail_ok b \<longleftrightarrow> length b = blocklist_shards \<and> (\<forall>m \<in> set b. gomap_ok m)"

definition jail_end :: "blocklist \<Rightarrow> string \<Rightarrow> time option" where
  "jail_end b k = map_get (b ! blocklist_shard k) k"

text \<open>
  The jail agrees with the sentences: it has the end that is written down, or that end is over by \<open>t\<close>.
\<close>

definition agrees :: "time \<Rightarrow> string \<Rightarrow> time option \<Rightarrow> blocklist \<Rightarrow> bool" where
  "agrees t k e b \<longleftrightarrow> jail_end b k = e \<or> (\<exists>c. e = Some c \<and> c < t \<and> jail_end b k = None)"

lemma blocklist_shard_less: "blocklist_shard k < blocklist_shards"
  by (simp add: blocklist_shard_def blocklist_shards_def)

lemma jail_shard_ok: "jail_ok b \<Longrightarrow> gomap_ok (b ! blocklist_shard k)"
  using blocklist_shard_less [of k] by (auto simp: jail_ok_def)

lemma jail_ok_update: "jail_ok b \<Longrightarrow> gomap_ok m \<Longrightarrow> jail_ok (b[i := m])"
  by (auto simp: jail_ok_def dest!: subsetD [OF set_update_subset_insert])

lemma block_shard_ok: "gomap_ok m \<Longrightarrow> gomap_ok (block_shard u n key m)"
  by (auto simp: block_shard_def Let_def split: option.split)

lemma jail_step_ok: "jail_ok b \<Longrightarrow> jail_ok (snd (jail_step x b))"
  by (cases x)
    (auto simp: jail_block_def jail_unblock_def jail_blocked_def jail_unblock_all_def Let_def jail_shard_ok block_shard_ok
      intro!: jail_ok_update split: option.split, auto simp: jail_ok_def)

interpretation jail: machine jail_step "\<lambda>_ _. True" jail_ok
  by unfold_locales (rule jail_step_ok)


lemma shard_update: "jail_ok b \<Longrightarrow> b[blocklist_shard key := m] ! blocklist_shard k = (if blocklist_shard k = blocklist_shard key then m else b ! blocklist_shard k)"
  using blocklist_shard_less [of key] by (simp add: jail_ok_def nth_list_update)

lemma block_shard_get:
  fixes u key
  assumes ok: "gomap_ok m"
  defines "e k \<equiv> if k = key then Some (case map_get m key of None \<Rightarrow> u | Some c \<Rightarrow> max c u) else map_get m k"
  shows "map_get (block_shard u n key m) k = e k \<or> (\<exists>c. e k = Some c \<and> c < n \<and> map_get (block_shard u n key m) k = None)"
proof -
  define m' where "m' = (case map_get m key of None \<Rightarrow> map_put key u m | Some cur \<Rightarrow> if u > cur then map_put key u m else m)"
  have m': "gomap_ok m'" using ok by (simp add: m'_def split: option.split)
  have get: "map_get m' k = e k"
  proof (cases "map_get m key")
    case None
    then show ?thesis by (simp add: m'_def e_def gomap_simps del: map_of_eq_None_iff)
  next
    case (Some c)
    then show ?thesis by (simp add: m'_def e_def gomap_simps max_def)
  qed
  have "block_shard u n key m = (if length m' > blocklist_prune_at then filter (\<lambda>(k, e). \<not> n > e) m' else m')"
    by (simp add: block_shard_def m'_def Let_def)
  then show ?thesis using get by (auto simp: map_get_filter [OF m'] split: option.split)
qed

lemma agrees_later: "agrees t k e b \<Longrightarrow> t \<le> t' \<Longrightarrow> agrees t' k e b"
  by (auto simp: agrees_def)

lemma agrees_step:
  assumes ok: "jail_ok b" and k: "k \<noteq> []" and ag: "agrees t k e b" and time: "\<And>now. jail_time x = Some now \<Longrightarrow> t \<le> now"
    and block: "\<And>now now' key ttl. x = JBlock now now' key ttl \<Longrightarrow> t \<le> now \<and> now \<le> now'"
  shows "agrees (case jail_time x of None \<Rightarrow> t | Some now \<Rightarrow> now) k (sentence k x e) (snd (jail_step x b))"
proof (cases x)
  case (JBlock now now' key ttl)
  show ?thesis
  proof (cases "key = [] \<or> ttl \<le> 0")
    case True
    then show ?thesis using ag agrees_later [OF ag] time [of now'] k by (auto simp: JBlock jail_block_def)
  next
    case False
    have t: "t \<le> now" "now \<le> now'" using block [OF JBlock] by auto
    have same: "jail_end (jail_block now now' key ttl b) k =
        (if blocklist_shard k = blocklist_shard key then map_get (block_shard (now + ttl) now' key (b ! blocklist_shard key)) k else jail_end b k)"
      using False by (simp add: jail_block_def jail_end_def shard_update [OF ok] Let_def)
    note get = block_shard_get [OF jail_shard_ok [OF ok], of "now + ttl" now' key key k]
    have "jail_end (jail_block now now' key ttl b) k = e' \<or> (\<exists>c. e' = Some c \<and> c < now' \<and> jail_end (jail_block now now' key ttl b) k = None)"
      if "e' = (if k = key then Some (case jail_end b k of None \<Rightarrow> now + ttl | Some c \<Rightarrow> max c (now + ttl)) else jail_end b k)" for e'
      using get that unfolding same by (auto simp: jail_end_def)
    then show ?thesis using ag t False k
      by (auto simp: JBlock agrees_def max_def split: option.splits if_splits)
  qed
next
  case (JUnblock key)
  then show ?thesis using ag k
    by (auto simp: jail_unblock_def agrees_def jail_end_def shard_update [OF ok] Let_def gomap_simps)
next
  case (JBlocked now key)
  then show ?thesis using ag k time [of now]
    by (auto simp: jail_blocked_def agrees_def jail_end_def shard_update [OF ok] Let_def gomap_simps split: option.splits)
next
  case JAmnesty
  have "blocklist_shard k < length b" using ok blocklist_shard_less by (simp add: jail_ok_def)
  then show ?thesis by (simp add: JAmnesty jail_unblock_all_def agrees_def jail_end_def)
qed


text \<open>The clock does not go back from one operation to the next; the last reading is \<open>jail_clock\<close>.\<close>

fun jail_order :: "time \<Rightarrow> jail_op list \<Rightarrow> bool" where
  "jail_order t [] \<longleftrightarrow> True"
| "jail_order t (JBlock now now' key ttl # xs) \<longleftrightarrow> t \<le> now \<and> now \<le> now' \<and> jail_order now' xs"
| "jail_order t (JBlocked now key # xs) \<longleftrightarrow> t \<le> now \<and> jail_order now xs"
| "jail_order t (x # xs) \<longleftrightarrow> jail_order t xs"

fun jail_clock :: "time \<Rightarrow> jail_op list \<Rightarrow> time" where
  "jail_clock t [] = t"
| "jail_clock t (x # xs) = jail_clock (case jail_time x of None \<Rightarrow> t | Some now \<Rightarrow> now) xs"

lemma agrees_run:
  "jail_ok b \<Longrightarrow> k \<noteq> [] \<Longrightarrow> agrees t k e b \<Longrightarrow> jail_order t xs \<Longrightarrow>
   agrees (jail_clock t xs) k (fold (sentence k) xs e) (snd (run_ops jail_step xs b))"
proof (induction xs arbitrary: b t e)
  case Nil
  then show ?case by simp
next
  case (Cons x xs)
  let ?t = "case jail_time x of None \<Rightarrow> t | Some now \<Rightarrow> now"
  have "agrees ?t k (sentence k x e) (snd (jail_step x b))"
    by (rule agrees_step [OF Cons.prems(1-3)]) (use Cons.prems(4) in \<open>cases x; auto\<close>)+
  moreover have "jail_order ?t xs" using Cons.prems(4) by (cases x) auto
  ultimately show ?case using Cons.IH jail_step_ok [OF Cons.prems(1)] Cons.prems(2) by simp
qed

text \<open>
  C38. The jail keeps every sentence and no longer. Whatever keys are jailed, pardoned, looked up and swept, in whatever order: a
  key is blocked exactly until the latest end of its sentences since it was last pardoned. A shorter sentence does not cut a longer one,
  the removal of expired entries, on lookup or when a shard is large, frees nobody early, and an amnesty frees all.
\<close>

theorem jail_keeps_sentences:
  assumes "k \<noteq> []" "jail_order 0 ops" "jail_clock 0 ops \<le> now"
  shows "fst (jail_blocked now k (snd (run_ops jail_step ops new_blocklist)))
    \<longleftrightarrow> (\<exists>e. fold (sentence k) ops None = Some e \<and> now \<le> e)"
proof -
  have ok: "jail_ok new_blocklist" by (simp add: jail_ok_def new_blocklist_def blocklist_shards_def)
  have "agrees 0 k None new_blocklist"
    by (simp add: agrees_def jail_end_def new_blocklist_def blocklist_shard_less)
  from agrees_run [OF ok assms(1) this assms(2)] show ?thesis
    using assms(1,3)
    by (cases "fold (sentence k) ops None") (auto simp: agrees_def jail_blocked_def jail_end_def Let_def split: if_splits)
qed

theorem jail_keeps_sentences_witness:
  "fst (jail_blocked 50 ''ip'' (snd (run_ops jail_step
      [JBlock 0 0 ''ip'' 100, JBlock 10 10 ''ip'' 5, JUnblock ''other'', JBlocked 20 ''other''] new_blocklist)))"
  using jail_keeps_sentences [of "''ip''" "[JBlock 0 0 ''ip'' 100, JBlock 10 10 ''ip'' 5, JUnblock ''other'', JBlocked 20 ''other'']" 50]
  by simp

section \<open>The gate holds under interleaving\<close>

inductive_cases flight_stepE: "flight_step mx s s'"

definition flight_inv :: "int \<Rightarrow> in_flight \<Rightarrow> bool" where
  "flight_inv mx s \<longleftrightarrow> if_n s = int (if_admitted s + if_failing s + if_leaving s) \<and> int (if_admitted s + if_leaving s) \<le> mx"

lemma flight_inv_step: "flight_inv mx s \<Longrightarrow> flight_step mx s s' \<Longrightarrow> flight_inv mx s'"
  by (erule flight_stepE) (auto simp: flight_inv_def)

text \<open>
  The gate never admits more than its limit, although it has no lock. However the atomic accesses of acquiring
  and releasing requests interleave: the requests admitted are never more than the limit, the counter is never negative, and whenever
  no request is between two accesses, the counter is the number of requests admitted, so that no slot is lost or gained.
\<close>

theorem gate_never_overadmits:
  assumes "flight_reach mx s" "0 < mx"
  shows "int (if_admitted s) \<le> mx \<and> 0 \<le> if_n s \<and> (if_failing s = 0 \<and> if_leaving s = 0 \<longrightarrow> if_n s = int (if_admitted s))"
proof -
  have "flight_inv mx s" using assms(1)
  proof induction
    case Start
    then show ?case using assms(2) by (simp add: flight_inv_def)
  next
    case (Step s s')
    then show ?case by (blast intro: flight_inv_step)
  qed
  then show ?thesis by (auto simp: flight_inv_def)
qed

theorem gate_never_overadmits_witness:
  "\<exists>s. flight_reach 1 s \<and> if_failing s = 1 \<and> int (if_admitted s) \<le> 1"
proof -
  let ?s = "\<lparr>if_n = 1, if_admitted = 1, if_failing = 0, if_leaving = 0\<rparr>"
  have "flight_step 1 \<lparr>if_n = 0, if_admitted = 0, if_failing = 0, if_leaving = 0\<rparr> ?s"
    using flight_step.Enter [of "\<lparr>if_n = 0, if_admitted = 0, if_failing = 0, if_leaving = 0\<rparr>" 1] by simp
  then have "flight_reach 1 ?s" by (rule flight_reach.Step [OF flight_reach.Start])
  moreover have "flight_step 1 ?s (?s\<lparr>if_n := 2, if_failing := 1\<rparr>)" using flight_step.Over [of ?s 1] by simp
  ultimately have reach: "flight_reach 1 (?s\<lparr>if_n := 2, if_failing := 1\<rparr>)" by (rule flight_reach.Step)
  from gate_never_overadmits [OF this] have "int (if_admitted (?s\<lparr>if_n := 2, if_failing := 1\<rparr>)) \<le> 1" by simp
  with reach show ?thesis by (intro exI [of _ "?s\<lparr>if_n := 2, if_failing := 1\<rparr>"]) simp
qed

text \<open>
  A request admitted while the gate is off adds nothing to the counter, and its release takes one off that
  another request added: when the gate is switched on meanwhile, two requests are in flight at a limit of one.
\<close>

lemma gate_switched_on_in_flight:
  "let n0 = snd (flight_acquire 0 0); n1 = snd (flight_acquire 1 n0); n2 = flight_release n1
   in fst (flight_acquire 0 0) \<and> fst (flight_acquire 1 n0) \<and> fst (flight_acquire 1 n2)"
  by (simp add: flight_acquire_def flight_release_def)

section \<open>The meter remembers a flood\<close>

lemma meter_counts_second: "ct_sec c = now \<Longrightarrow> ct_count ((observe now ^^ n) c) = ct_count c + int n \<and> ct_sec ((observe now ^^ n) c) = now"
  by (induction n) (auto simp: observe_def Let_def)

text \<open>
  The count that rolls over is that of the last second with a request, not of the second before: the first request after a
  silence of any length still reads as under attack.
\<close>

lemma stale_second_reads_as_attack:
  assumes "0 < ct_threshold c" "ct_threshold c < ct_count c" "ct_sec c < now"
  shows "under_attack (observe now c)"
  using assms by (simp add: under_attack_def observe_def Let_def)

end
