(* ===== verification/Op_Rules.thy ===== *)
theory Op_Rules
  imports Rate_Limit
begin

text \<open>
  The operator's request rules (src/internal/vayushield/oprules/oprules.go): the parser of the rule
  lines, the conditions, and the match with its counters and limits. A compiled condition is a closure in
  the source and a value here. A score is a rational or NaN; what strconv.ParseFloat
  reads is an argument. The texts of the issues are replaced by values that say what is wrong.
\<close>

section \<open>Rules\<close>

datatype op_action = Block | Challenge | Allow | Log | Limit

definition action_string :: "op_action \<Rightarrow> string" where
  "action_string a = (case a of
     Block \<Rightarrow> ''block'' | Challenge \<Rightarrow> ''challenge'' | Allow \<Rightarrow> ''allow'' | Log \<Rightarrow> ''log'' | Limit \<Rightarrow> ''limit'')"

definition max_rules :: nat where "max_rules = 100"
definition max_conditions :: nat where "max_conditions = 16"
definition limit_keys :: nat where "limit_keys = 4096"

text \<open>A float64 score: comparisons with NaN are false.\<close>

datatype score = NaN | Fin rat

fun score_ge :: "score \<Rightarrow> score \<Rightarrow> bool" where
  "score_ge (Fin x) (Fin y) \<longleftrightarrow> x \<ge> y"
| "score_ge _ _ \<longleftrightarrow> False"

fun score_less :: "score \<Rightarrow> score \<Rightarrow> bool" where
  "score_less (Fin x) (Fin y) \<longleftrightarrow> x < y"
| "score_less _ _ \<longleftrightarrow> False"

record facts =
  fc_path :: string
  fc_method :: string
  fc_country :: string
  fc_client :: string
  fc_score :: score
  fc_header :: "(string \<Rightarrow> string) option"
  fc_source :: string

datatype op_cond =
  PathPrefix string | PathContains string | PathIs string
| MethodIn "string list" | CountryIn "string list" | ClientIn "string list"
| ScoreGe score | ScoreLess score | HeaderSet string | HeaderIs string string

fun op_cond_holds :: "op_cond \<Rightarrow> facts \<Rightarrow> bool" where
  "op_cond_holds (PathPrefix v) f \<longleftrightarrow> has_prefix (fc_path f) v"
| "op_cond_holds (PathContains v) f \<longleftrightarrow> contains_sub (fc_path f) v"
| "op_cond_holds (PathIs v) f \<longleftrightarrow> fc_path f = v"
| "op_cond_holds (MethodIn vs) f \<longleftrightarrow> to_upper (fc_method f) \<in> set vs"
| "op_cond_holds (CountryIn vs) f \<longleftrightarrow> to_upper (fc_country f) \<in> set vs"
| "op_cond_holds (ClientIn vs) f \<longleftrightarrow> fc_client f \<in> set vs"
| "op_cond_holds (ScoreGe n) f \<longleftrightarrow> score_ge (fc_score f) n"
| "op_cond_holds (ScoreLess n) f \<longleftrightarrow> score_less (fc_score f) n"
| "op_cond_holds (HeaderSet name) f \<longleftrightarrow> (case fc_header f of None \<Rightarrow> False | Some h \<Rightarrow> h name \<noteq> [])"
| "op_cond_holds (HeaderIs name v) f \<longleftrightarrow> (case fc_header f of None \<Rightarrow> False | Some h \<Rightarrow> h name = v)"

record rule =
  ru_line :: nat
  ru_text :: string
  ru_action :: op_action
  ru_test :: bool
  ru_retry_after :: int
  ru_conds :: "op_cond list"
  ru_hits :: int
  ru_last_hit :: int
  ru_limiter :: limiter
  ru_refused :: int
  ru_unseen :: bool

definition judgeable :: "rule \<Rightarrow> bool" where
  "judgeable r \<longleftrightarrow> \<not> ru_unseen r"

section \<open>Paths\<close>

text \<open>path.Clean of a path that starts with a slash: empty and dot elements go, and a double dot takes the element before it.\<close>

fun clean_elements :: "string list \<Rightarrow> string list \<Rightarrow> string list" where
  "clean_elements acc [] = rev acc"
| "clean_elements acc (e # es) =
     (if e = [] \<or> e = ''.'' then clean_elements acc es
      else if e = ''..'' then clean_elements (tl acc) es
      else clean_elements (e # acc) es)"

definition path_clean_rooted :: "string \<Rightarrow> string" where
  "path_clean_rooted p = CHR ''/'' # join_str ''/'' (clean_elements [] (split_ch (CHR ''/'') p))"

definition clean_path :: "string \<Rightarrow> string" where
  "clean_path p = (if p = [] then p else path_clean_rooted (CHR ''/'' # p))"

section \<open>Matching\<close>

definition matches_as :: "rule \<Rightarrow> facts \<Rightarrow> bool" where
  "matches_as r f \<longleftrightarrow> list_all (\<lambda>c. op_cond_holds c f) (ru_conds r)"

definition rule_matches :: "rule \<Rightarrow> facts \<Rightarrow> bool" where
  "rule_matches r f =
     (let clean = clean_path (fc_path f) in
      if clean = fc_path f then matches_as r f
      else (let raw = matches_as r f in
            if raw \<and> ru_action r \<noteq> Allow then True
            else if \<not> raw \<and> ru_action r = Allow then False
            else matches_as r (f\<lparr>fc_path := clean\<rparr>)))"

text \<open>Set.Match; \<open>now\<close> is its argument in Unix seconds and \<open>clock\<close> what the limiter reads. The deciding rule is returned as it was.\<close>

fun match_rules :: "facts \<Rightarrow> int \<Rightarrow> time \<Rightarrow> rule list \<Rightarrow> rule option \<times> rule list" where
  "match_rules f now clock [] = (None, [])"
| "match_rules f now clock (r # rs) =
     (if \<not> rule_matches r f then (let (d, rs') = match_rules f now clock rs in (d, r # rs'))
      else (let r' = r\<lparr>ru_hits := ru_hits r + 1, ru_last_hit := now\<rparr> in
            if ru_action r = Limit then
              (if fc_source f = [] then (let (d, rs') = match_rules f now clock rs in (d, r' # rs'))
               else case limiter_allow clock (fc_source f) (ru_limiter r) of
                 (True, l) \<Rightarrow> (let (d, rs') = match_rules f now clock rs in (d, r'\<lparr>ru_limiter := l\<rparr> # rs'))
               | (False, l) \<Rightarrow>
                   (let r'' = r'\<lparr>ru_limiter := l, ru_refused := ru_refused r + 1\<rparr> in
                    if \<not> ru_test r then (Some r, r'' # rs)
                    else (let (d, rs') = match_rules f now clock rs in (d, r'' # rs'))))
            else if \<not> ru_test r \<and> ru_action r \<noteq> Log then (Some r, r' # rs)
            else (let (d, rs') = match_rules f now clock rs in (d, r' # rs'))))"

definition would :: "facts \<Rightarrow> rule list \<Rightarrow> rule option" where
  "would f rs = find (\<lambda>r. \<not> (ru_action r = Log \<or> ru_action r = Limit \<or> ru_unseen r) \<and> rule_matches r f) rs"

section \<open>Parsing\<close>

datatype op_issue =
  TestOfWhat | NoAllowance | BadAllowance string | BadPeriod string | BadStart string | NoCondition
| TooManyConditions nat | NothingAfter string | BadClient string | BadScore string | NoHeaderName string
| NotACondition string | TooManyRules

text \<open>strings.Fields, on the white space of ASCII.\<close>

definition is_space_c :: "char \<Rightarrow> bool" where
  "is_space_c c \<longleftrightarrow> c \<in> {CHR 0x09, CHR 0x0A, CHR 0x0B, CHR 0x0C, CHR 0x0D, CHR 0x20}"

function fields_c :: "string \<Rightarrow> string list" where
  "fields_c s =
     (let s = dropWhile is_space_c s in
      if s = [] then [] else takeWhile (\<lambda>c. \<not> is_space_c c) s # fields_c (dropWhile (\<lambda>c. \<not> is_space_c c) s))"
  by pat_completeness auto
termination
proof (relation "measure length", goal_cases)
  case (2 s x)
  then obtain c t where x: "x = c # t" by (meson neq_Nil_conv)
  have xs: "x = dropWhile is_space_c s" using 2 by simp
  then have "dropWhile is_space_c s \<noteq> []" using x by (metis list.distinct(1))
  then have "\<not> is_space_c (hd x)" unfolding xs by (rule hd_dropWhile)
  then have "\<not> is_space_c c" by (simp add: x)
  moreover have "length x \<le> length s" using 2 by (simp add: length_dropWhile_le)
  ultimately show ?case using length_dropWhile_le [of "\<lambda>c. \<not> is_space_c c" t] by (simp add: x)
qed simp

declare fields_c.simps [simp del]

text \<open>strings.Cut on one byte: what is before it, and what is after when it occurs.\<close>

definition cut_ch :: "char \<Rightarrow> string \<Rightarrow> string \<times> string option" where
  "cut_ch c s = (if c \<in> set s then (takeWhile (\<lambda>x. x \<noteq> c) s, Some (tl (dropWhile (\<lambda>x. x \<noteq> c) s))) else (s, None))"

definition upper_set :: "string \<Rightarrow> string list" where
  "upper_set xs = filter (\<lambda>v. v \<noteq> []) (map (\<lambda>v. to_upper (trim_space v)) (split_ch (CHR '','') xs))"

definition client_types :: "string list" where
  "client_types = [''human'', ''goodbot'', ''badbot'', ''aiagent'', ''headless'', ''unknown'']"

definition after_prefix :: "string \<Rightarrow> string \<Rightarrow> string option" where
  "after_prefix p w = (if has_prefix (to_lower w) p then Some (drop (length p) w) else None)"

definition score_const :: "(string \<Rightarrow> score option) \<Rightarrow> string \<Rightarrow> string \<Rightarrow> op_issue + score" where
  "score_const parse_float w v =
     (case parse_float v of
        None \<Rightarrow> Inl (BadScore w)
      | Some n \<Rightarrow> if score_less n (Fin 0) \<or> score_less (Fin 1) n then Inl (BadScore w) else Inr n)"

text \<open>The switch of parseCond: the first prefix that the word has, in any case, reads the rest.\<close>

definition set_cond :: "(string list \<Rightarrow> op_cond) \<Rightarrow> string \<Rightarrow> string \<Rightarrow> op_issue + op_cond" where
  "set_cond mk w v = (if upper_set v = [] then Inl (NothingAfter w) else Inr (mk (upper_set v)))"

definition text_cond :: "(string \<Rightarrow> op_cond) \<Rightarrow> string \<Rightarrow> string \<Rightarrow> op_issue + op_cond" where
  "text_cond mk w v = (if v = [] then Inl (NothingAfter w) else Inr (mk v))"

definition client_cond :: "string \<Rightarrow> op_issue + op_cond" where
  "client_cond v =
     (let cs = split_ch (CHR '','') (to_lower v) in
      case find (\<lambda>c. c \<notin> set client_types) cs of Some c \<Rightarrow> Inl (BadClient c) | None \<Rightarrow> Inr (ClientIn cs))"

definition header_cond :: "string \<Rightarrow> string \<Rightarrow> op_issue + op_cond" where
  "header_cond w v =
     (let (name, val) = cut_ch (CHR ''='') v in
      if name = [] then Inl (NoHeaderName w)
      else Inr (case val of None \<Rightarrow> HeaderSet name | Some x \<Rightarrow> HeaderIs name x))"

definition cond_parsers :: "(string \<Rightarrow> score option) \<Rightarrow> string \<Rightarrow> (string \<times> (string \<Rightarrow> op_issue + op_cond)) list" where
  "cond_parsers pf w =
     [(''path^='', text_cond PathPrefix w), (''path*='', text_cond PathContains w), (''path='', text_cond PathIs w),
      (''method='', set_cond MethodIn w), (''country='', set_cond CountryIn w), (''client='', client_cond),
      (''score>='', \<lambda>v. map_sum id ScoreGe (score_const pf w v)), (''score<'', \<lambda>v. map_sum id ScoreLess (score_const pf w v)),
      (''header:'', header_cond w)]"

fun first_parser :: "(string \<times> (string \<Rightarrow> op_issue + op_cond)) list \<Rightarrow> string \<Rightarrow> op_issue + op_cond" where
  "first_parser [] w = Inl (NotACondition w)"
| "first_parser ((p, parse) # ps) w = (case after_prefix p w of Some v \<Rightarrow> parse v | None \<Rightarrow> first_parser ps w)"

definition parse_op_cond :: "(string \<Rightarrow> score option) \<Rightarrow> string \<Rightarrow> op_issue + op_cond" where
  "parse_op_cond pf w = first_parser (cond_parsers pf w) w"

fun parse_conds :: "(string \<Rightarrow> score option) \<Rightarrow> string list \<Rightarrow> op_issue + op_cond list" where
  "parse_conds pf [] = Inr []"
| "parse_conds pf (w # ws) =
     (case parse_op_cond pf w of
        Inl e \<Rightarrow> Inl e
      | Inr c \<Rightarrow> (case parse_conds pf ws of Inl e \<Rightarrow> Inl e | Inr cs \<Rightarrow> Inr (c # cs)))"

definition unseen_word :: "string \<Rightarrow> bool" where
  "unseen_word w \<longleftrightarrow> has_prefix (to_lower w) ''score'' \<or> has_prefix (to_lower w) ''header:''"

text \<open>setLimit: the limiter and the seconds until a refused source has one request again.\<close>

definition set_limit :: "string \<Rightarrow> op_issue + limiter \<times> int" where
  "set_limit w =
     (case cut_ch (CHR ''/'') (to_lower w) of
        (n, per) \<Rightarrow>
          (case (per, atoi n) of
             (Some per, Some count) \<Rightarrow>
               if count < 1 \<or> count > 100000 then Inl (BadAllowance w)
               else (case (if per = ''min'' \<or> per = ''minute'' then Some (60 :: rat)
                           else if per = ''hour'' \<or> per = ''h'' then Some 3600 else None) of
                       None \<Rightarrow> Inl (BadPeriod w)
                     | Some period \<Rightarrow>
                         Inr (new_limiter (of_int count / period) (of_int count) limit_keys, \<lceil>period / of_int count\<rceil>))
           | _ \<Rightarrow> Inl (BadAllowance w)))"

definition no_limiter :: limiter where
  "no_limiter = \<lparr>lm_shards = [], lm_rate = 0, lm_burst = 0, lm_max = 0\<rparr>"

definition action_of :: "string \<Rightarrow> op_action option" where
  "action_of w = find (\<lambda>a. action_string a = to_lower w) [Block, Challenge, Allow, Log, Limit]"

definition parse_rule_line :: "(string \<Rightarrow> score option) \<Rightarrow> string \<Rightarrow> op_issue + rule" where
  "parse_rule_line pf line =
     (let words = fields_c line; test = equal_fold (hd words) ''test''; words = (if test then tl words else words) in
      if words = [] then Inl TestOfWhat
      else case action_of (hd words) of
        None \<Rightarrow> Inl (BadStart (hd words))
      | Some a \<Rightarrow>
          (case (if a = Limit
                 then (if length words < 2 then Inl NoAllowance
                       else map_sum id (\<lambda>(l, retry). (l, retry, drop 2 words)) (set_limit (words ! 1)))
                 else Inr (no_limiter, 0, drop 1 words)) of
             Inl e \<Rightarrow> Inl e
           | Inr (l, retry, ws) \<Rightarrow>
               if ws = [] then Inl NoCondition
               else if length ws > max_conditions then Inl (TooManyConditions (length ws))
               else (case parse_conds pf ws of
                       Inl e \<Rightarrow> Inl e
                     | Inr cs \<Rightarrow> Inr \<lparr>ru_line = 0, ru_text = [], ru_action = a, ru_test = test, ru_retry_after = retry,
                                      ru_conds = cs, ru_hits = 0, ru_last_hit = 0, ru_limiter = l, ru_refused = 0,
                                      ru_unseen = list_ex unseen_word ws\<rparr>)))"

fun parse_lines :: "(string \<Rightarrow> score option) \<Rightarrow> nat \<Rightarrow> string list \<Rightarrow> rule list \<Rightarrow> rule list \<times> (nat \<times> op_issue) list" where
  "parse_lines pf n [] rs = (rs, [])"
| "parse_lines pf n (raw # raws) rs =
     (let line = trim_space raw in
      if line = [] \<or> has_prefix line ''#'' then parse_lines pf (n + 1) raws rs
      else if length rs = max_rules then (rs, [(n, TooManyRules)])
      else case parse_rule_line pf line of
        Inl e \<Rightarrow> (let (rs', is) = parse_lines pf (n + 1) raws rs in (rs', (n, e) # is))
      | Inr r \<Rightarrow> parse_lines pf (n + 1) raws (rs @ [r\<lparr>ru_line := n, ru_text := line\<rparr>]))"

definition parse_rules :: "(string \<Rightarrow> score option) \<Rightarrow> string \<Rightarrow> rule list \<times> (nat \<times> op_issue) list" where
  "parse_rules pf text = parse_lines pf 1 (split_ch (CHR 0x0A) text) []"


section \<open>The readings of a path\<close>

definition plain_element :: "string \<Rightarrow> bool" where
  "plain_element e \<longleftrightarrow> e \<noteq> [] \<and> e \<noteq> ''.'' \<and> e \<noteq> ''..'' \<and> CHR ''/'' \<notin> set e"

lemma split_ch_not_Nil [simp]: "split_ch c s \<noteq> []"
  by (induction s) (auto split: list.split)

lemma split_ch_elements: "e \<in> set (split_ch c s) \<Longrightarrow> c \<notin> set e"
  by (induction s arbitrary: e) (auto split: list.splits if_splits)

lemma clean_elements_plain:
  "list_all plain_element acc \<Longrightarrow> \<forall>e \<in> set es. CHR ''/'' \<notin> set e \<Longrightarrow> list_all plain_element (clean_elements acc es)"
proof (induction acc es rule: clean_elements.induct)
  case (1 acc)
  then show ?case by (simp add: list_all_iff)
next
  case (2 acc e es)
  then show ?case by (cases acc) (auto simp: plain_element_def)
qed

lemma clean_elements_id: "list_all plain_element es \<Longrightarrow> clean_elements acc es = rev acc @ es"
  by (induction es arbitrary: acc) (auto simp: plain_element_def)

lemma split_join: "es \<noteq> [] \<Longrightarrow> \<forall>e \<in> set es. c \<notin> set e \<Longrightarrow> split_ch c (join_str [c] es) = es"
proof (induction es rule: induct_list012)
  case (2 w)
  then have "c \<notin> set w" by simp
  then show ?case by (induction w) auto
next
  case (3 w v ws)
  then have w: "c \<notin> set w" and IH: "split_ch c (join_str [c] (v # ws)) = v # ws" by auto
  have "split_ch c (w @ c # s) = w # split_ch c s" for s
    using w by (induction w) auto
  then show ?case by (simp add: IH del: split_ch.simps)
qed simp

lemma clean_rooted_idem: "path_clean_rooted (CHR ''/'' # path_clean_rooted p) = path_clean_rooted p"
proof -
  define es where "es = clean_elements [] (split_ch (CHR ''/'') p)"
  have plain: "list_all plain_element es"
    unfolding es_def by (rule clean_elements_plain) (auto dest: split_ch_elements)
  have "clean_elements [] (split_ch (CHR ''/'') (CHR ''/'' # CHR ''/'' # join_str ''/'' es)) = es"
  proof (cases "es = []")
    case False
    then have "split_ch (CHR ''/'') (join_str ''/'' es) = es" using plain by (intro split_join) (auto simp: list_all_iff plain_element_def)
    then show ?thesis using clean_elements_id [OF plain, of "[]"] by simp
  qed simp
  then show ?thesis by (simp add: path_clean_rooted_def flip: es_def)
qed

lemma clean_path_idem [simp]: "clean_path (clean_path p) = clean_path p"
  by (simp add: clean_path_def clean_rooted_idem)



section \<open>Test and log rules change nothing\<close>

abbreviation acting :: "rule \<Rightarrow> bool" where
  "acting r \<equiv> \<not> ru_test r \<and> ru_action r \<noteq> Log"

text \<open>
  Watching a rule changes nothing. Taking every test rule and every log rule out of a set leaves the
  decision on a request, and what is left of every acting rule (its counts and the allowances of its sources), as they were: such a
  rule can be added and watched against real traffic without touching what the others do.
\<close>

theorem watching_changes_nothing:
  "fst (match_rules f now clock (filter acting rs)) = fst (match_rules f now clock rs)
   \<and> snd (match_rules f now clock (filter acting rs)) = filter acting (snd (match_rules f now clock rs))"
proof (induction rs)
  case Nil
  then show ?case by simp
next
  case (Cons r rs)
  then show ?case
    by (auto simp: Let_def case_prod_beta split: prod.split bool.split)
qed

section \<open>What the parser accepts\<close>

lemma parse_conds_length: "parse_conds pf ws = Inr cs \<Longrightarrow> length cs = length ws"
  by (induction ws arbitrary: cs) (auto split: sum.splits)

lemma parse_rule_line_bounds:
  "parse_rule_line pf line = Inr r \<Longrightarrow> 1 \<le> length (ru_conds r) \<and> length (ru_conds r) \<le> max_conditions"
  by (auto simp: parse_rule_line_def Let_def Suc_le_eq dest!: parse_conds_length split: if_splits option.splits sum.splits)

definition small_rule :: "rule \<Rightarrow> bool" where
  "small_rule r \<longleftrightarrow> 1 \<le> length (ru_conds r) \<and> length (ru_conds r) \<le> max_conditions"

lemma small_rule_numbered [simp]: "small_rule (r\<lparr>ru_line := n, ru_text := t\<rparr>) \<longleftrightarrow> small_rule r"
  by (simp add: small_rule_def)

lemma parse_lines_bounds:
  "parse_lines pf n raws rs = (rs', iss) \<Longrightarrow> length rs \<le> max_rules \<Longrightarrow> list_all small_rule rs
   \<Longrightarrow> length rs' \<le> max_rules \<and> list_all small_rule rs' \<and> set rs \<subseteq> set rs'"
proof (induction pf n raws rs arbitrary: rs' iss rule: parse_lines.induct)
  case (2 pf n raw raws rs)
  then show ?case
    by (force simp: Let_def small_rule_def split: if_splits sum.splits prod.splits dest: parse_rule_line_bounds)
qed auto

text \<open>A line that is a rule to read: neither blank nor a note.\<close>

definition rule_line :: "string \<Rightarrow> bool" where
  "rule_line raw \<longleftrightarrow> trim_space raw \<noteq> [] \<and> \<not> has_prefix (trim_space raw) ''#''"

definition accounted :: "rule list \<Rightarrow> (nat \<times> op_issue) list \<Rightarrow> nat \<Rightarrow> string \<Rightarrow> bool" where
  "accounted rs iss n raw \<longleftrightarrow>
     (\<exists>r \<in> set rs. ru_line r = n \<and> ru_text r = trim_space raw)
     \<or> n \<in> fst ` set iss
     \<or> (\<exists>m < n. (m, TooManyRules) \<in> set iss \<and> length rs = max_rules)"

lemma parse_lines_account:
  "parse_lines pf n raws rs = (rs', iss) \<Longrightarrow> length rs \<le> max_rules \<Longrightarrow> list_all small_rule rs
   \<Longrightarrow> i < length raws \<Longrightarrow> rule_line (raws ! i) \<Longrightarrow> accounted rs' iss (n + i) (raws ! i)"
proof (induction pf n raws rs arbitrary: rs' iss i rule: parse_lines.induct)
  case (2 pf n raw raws rs)
  let ?line = "trim_space raw"
  consider (blank) "\<not> rule_line raw" | (full) "rule_line raw" "length rs = max_rules"
    | (bad) e where "rule_line raw" "length rs \<noteq> max_rules" "parse_rule_line pf ?line = Inl e"
    | (good) r where "rule_line raw" "length rs \<noteq> max_rules" "parse_rule_line pf ?line = Inr r"
    by (cases "parse_rule_line pf ?line") auto
  then show ?case
  proof cases
    case blank
    with "2.prems" obtain j where j: "i = Suc j" by (cases i) auto
    from blank "2.prems"(1) have "parse_lines pf (n + 1) raws rs = (rs', iss)"
      by (auto simp: rule_line_def Let_def)
    with blank "2.IH"(1) [OF refl _ this, of j] "2.prems" show ?thesis by (auto simp: rule_line_def j)
  next
    case full
    with "2.prems" show ?thesis by (cases i) (auto simp: rule_line_def Let_def accounted_def)
  next
    case bad
    from bad "2.prems"(1) obtain iss' where p: "parse_lines pf (n + 1) raws rs = (rs', iss')" and iss: "iss = (n, e) # iss'"
      by (auto simp: rule_line_def Let_def split: prod.splits)
    from bad "2.IH"(2) [OF refl _ _ bad(3) p] "2.prems" show ?thesis
      by (cases i) (auto simp: rule_line_def iss accounted_def)
  next
    case good
    let ?r = "r\<lparr>ru_line := n, ru_text := ?line\<rparr>"
    from good "2.prems"(1) have p: "parse_lines pf (n + 1) raws (rs @ [?r]) = (rs', iss)"
      by (auto simp: rule_line_def Let_def)
    have fits: "length (rs @ [?r]) \<le> max_rules" "list_all small_rule (rs @ [?r])"
      using good "2.prems" parse_rule_line_bounds [OF good(3)] by (auto simp: small_rule_def [of r])
    with parse_lines_bounds [OF p] have "?r \<in> set rs'" by auto
    then have "accounted rs' iss n raw" by (force simp: accounted_def)
    with good "2.IH"(3) [OF refl _ _ good(3) p fits] "2.prems" show ?thesis
      by (cases i) (auto simp: rule_line_def)
  qed
qed simp

text \<open>
  No typo takes the other rules with it, and no list of rules makes the request path slow. A parsed set
  has at most a hundred rules of one to sixteen conditions. Every line that is neither blank nor a note is a
  rule of the set, with its number and its text, or is named in the issues by its number, or comes
  after the line that was named as the one past the hundredth rule.
\<close>

theorem every_line_accounted:
  assumes "parse_rules pf txt = (rs, iss)"
  shows "length rs \<le> max_rules \<and> (\<forall>r \<in> set rs. 1 \<le> length (ru_conds r) \<and> length (ru_conds r) \<le> max_conditions)
    \<and> (\<forall>i < length (split_ch (CHR 0x0A) txt). rule_line (split_ch (CHR 0x0A) txt ! i)
         \<longrightarrow> accounted rs iss (Suc i) (split_ch (CHR 0x0A) txt ! i))"
proof -
  from assms have p: "parse_lines pf 1 (split_ch (CHR 0x0A) txt) [] = (rs, iss)" by (simp add: parse_rules_def)
  from parse_lines_bounds [OF p] parse_lines_account [OF p] show ?thesis
    by (auto simp: max_rules_def small_rule_def list_all_iff)
qed

theorem every_line_accounted_witness:
  "accounted (fst (parse_rules (\<lambda>_. None) ''#n\<newline>block path=/p\<newline>drop x'')) (snd (parse_rules (\<lambda>_. None) ''#n\<newline>block path=/p\<newline>drop x'')) 3 ''drop x''"
proof -
  let ?t = "''#n\<newline>block path=/p\<newline>drop x''"
  have "split_ch (CHR 0x0A) ?t = [''#n'', ''block path=/p'', ''drop x'']" by code_simp
  moreover have "rule_line ''drop x''" by code_simp
  ultimately show ?thesis
    using every_line_accounted [of "\<lambda>_. None" ?t "fst (parse_rules (\<lambda>_. None) ?t)" "snd (parse_rules (\<lambda>_. None) ?t)"]
    by (auto dest!: spec [of _ 2])
qed

section \<open>Limit rules\<close>

lemma rule_matches_cong:
  "ru_action r = ru_action r' \<Longrightarrow> ru_conds r = ru_conds r' \<Longrightarrow> rule_matches r f = rule_matches r' f"
  by (simp add: rule_matches_def matches_as_def)

text \<open>One request: when it is judged, and its facts.\<close>

fun judge :: "time \<times> facts \<Rightarrow> rule list \<Rightarrow> rule option \<times> rule list" where
  "judge (t, f) rs = match_rules f (t div second) t rs"

lemma limit_rule_run:
  assumes "ru_action r = Limit" "\<not> ru_test r" "\<forall>(t, f) \<in> set reqs. rule_matches r f \<and> fc_source f \<noteq> []"
  shows "map (\<lambda>d. d = None) (fst (run_ops judge reqs [r])) = fst (run_ops allow_step (map (map_prod id fc_source) reqs) (ru_limiter r))"
  using assms
proof (induction reqs arbitrary: r)
  case (Cons req reqs)
  obtain t f where req: "req = (t, f)" by (cases req)
  obtain ok l where a: "limiter_allow t (fc_source f) (ru_limiter r) = (ok, l)" by fastforce
  let ?r = "r\<lparr>ru_hits := ru_hits r + 1, ru_last_hit := t div second, ru_limiter := l, ru_refused := ru_refused r + of_bool (\<not> ok)\<rparr>"
  have j: "judge req [r] = (if ok then None else Some r, [?r])"
    using Cons.prems by (cases ok) (auto simp: req a Let_def)
  have "\<forall>(t, f) \<in> set reqs. rule_matches ?r f \<and> fc_source f \<noteq> []"
    using Cons.prems rule_matches_cong [of ?r r] by auto
  with Cons.IH [of ?r] Cons.prems show ?case by (simp add: j) (simp add: req a allow_step_def)
qed simp

lemma cut_ch_append: "c \<notin> set n \<Longrightarrow> cut_ch c (n @ c # s) = (n, Some s)"
  by (simp add: cut_ch_def takeWhile_append dropWhile_append)

lemma set_limit_per_minute:
  assumes w: "to_lower w = n @ ''/min''" "CHR ''/'' \<notin> set n" and l: "set_limit w = Inr (l, retry)"
  obtains count where "atoi n = Some count" "1 \<le> count" "count \<le> 100000"
    "l = new_limiter (of_int count / 60) (of_int count) limit_keys" "retry = \<lceil>60 / of_int count :: rat\<rceil>"
proof -
  have "cut_ch (CHR ''/'') (to_lower w) = (n, Some ''min'')"
    using cut_ch_append [OF w(2)] by (simp add: w(1))
  with l that show thesis by (auto simp: set_limit_def split: option.splits if_splits)
qed

text \<open>
  A limit rule holds each source to its allowance. For a rule with \<open>n/min\<close>, whatever the order in
  which up to sixteen sources send requests that the rule matches: between any two moments no
  source gets past it more than \<open>n\<close> times plus what refills in between, and the seconds of Retry-After are
  enough for one more request.
\<close>

theorem limit_rule_bounds_source:
  fixes reqs r l retry
  defines "outs \<equiv> map (\<lambda>d. d = None) (fst (run_ops judge reqs [r]))"
  assumes w: "to_lower w = n @ ''/min''" "CHR ''/'' \<notin> set n" "atoi n = Some count" "set_limit w = Inr (l, retry)"
    and r: "ru_action r = Limit" "\<not> ru_test r" "ru_limiter r = l" "ru_retry_after r = retry"
    and reqs: "\<forall>(t, f) \<in> set reqs. rule_matches r f \<and> fc_source f \<noteq> []"
    and few: "card ((\<lambda>(t, f). fc_source f) ` set reqs) \<le> 16"
    and order: "sorted (map fst reqs)" and ab: "a \<le> b"
  shows "of_nat (hits a b k (map (map_prod id fc_source) reqs) outs) \<le> of_int count + of_int count / 60 * dur_seconds (b - a)
    \<and> 1 \<le> of_int count / (60 :: rat) * of_int (ru_retry_after r)"
proof -
  let ?reqs = "map (map_prod id fc_source) reqs"
  from set_limit_per_minute [OF w(1,2,4)] w(3) have c: "1 \<le> count"
    and l: "l = new_limiter (of_int count / 60) (of_int count) limit_keys" and retry: "retry = \<lceil>60 / of_int count :: rat\<rceil>" by auto
  have "snd ` set ?reqs = (\<lambda>(t, f). fc_source f) ` set reqs" by (force simp: image_iff)
  with few have "card (snd ` set ?reqs) \<le> lm_max l"
    by (simp add: l new_limiter_def set_rate_def limiter_shards_def limit_keys_def)
  moreover have "sorted (map fst ?reqs)" using order by (simp add: comp_def)
  ultimately have "of_nat (hits a b k ?reqs outs) \<le> max 1 (of_int count) + max 0 (of_int count / 60) * dur_seconds (b - a)"
    using limiter_run_bounded [of ?reqs "of_int count / 60" "of_int count" limit_keys a b k] ab
    by (simp add: l outs_def limit_rule_run [OF r(1,2) reqs] r(3))
  moreover have "60 / of_int count \<le> (of_int retry :: rat)" unfolding retry by (rule le_of_int_ceiling)
  ultimately show ?thesis using c r(4) by (auto simp: max_def field_simps)
qed

theorem limit_rule_bounds_source_witness:
  "\<exists>l retry r reqs. set_limit ''2/min'' = Inr (l, retry) \<and> ru_limiter r = l \<and> map fst reqs = [0, 0, 0, second]
     \<and> of_nat (hits 0 second ''s'' (map (map_prod id fc_source) reqs) (map (\<lambda>d. d = None) (fst (run_ops judge reqs [r]))))
         \<le> of_int 2 + of_int 2 / 60 * dur_seconds (second - 0)
     \<and> 1 \<le> of_int 2 / (60 :: rat) * of_int (ru_retry_after r)"
proof -
  let ?l = "new_limiter (2 / 60) 2 limit_keys"
  define r where "r = \<lparr>ru_line = 1, ru_text = [], ru_action = Limit, ru_test = False, ru_retry_after = 30, ru_conds = [PathIs ''/p''],
     ru_hits = 0, ru_last_hit = 0, ru_limiter = ?l, ru_refused = 0, ru_unseen = False\<rparr>"
  define f where "f s = \<lparr>fc_path = ''/p'', fc_method = ''GET'', fc_country = [], fc_client = [], fc_score = Fin 0,
     fc_header = None, fc_source = s\<rparr>" for s
  let ?reqs = "[(0, f ''s''), (0, f ''t''), (0, f ''s''), (second, f ''s'')]"
  have atoi: "atoi ''2'' = Some 2" by code_simp
  have low: "to_lower ''2/min'' = ''2'' @ ''/min''" by code_simp
  have lim: "set_limit ''2/min'' = Inr (?l, 30)" by (simp add: set_limit_def low atoi cut_ch_def)
  have ms: "\<forall>(t, g) \<in> set ?reqs. rule_matches r g \<and> fc_source g \<noteq> []"
    by (simp add: f_def r_def rule_matches_def matches_as_def clean_path_def path_clean_rooted_def Let_def)
  have "card ((\<lambda>(t, g). fc_source g) ` set ?reqs) \<le> 16" by (simp add: f_def card_insert_if)
  from limit_rule_bounds_source [OF low _ atoi lim _ _ _ _ ms this, of 0 second "''s''"]
  have "of_nat (hits 0 second ''s'' (map (map_prod id fc_source) ?reqs) (map (\<lambda>d. d = None) (fst (run_ops judge ?reqs [r]))))
         \<le> of_int 2 + of_int 2 / 60 * dur_seconds (second - 0)
     \<and> 1 \<le> of_int 2 / (60 :: rat) * of_int (ru_retry_after r)"
    by (simp add: r_def dur_defs)
  moreover have "map fst ?reqs = [0, 0, 0, second]" "ru_limiter r = ?l" by (simp_all add: r_def)
  ultimately show ?thesis
    by (intro exI [of _ ?l] exI [of _ 30] exI [of _ r] exI [of _ ?reqs] conjI lim) blast+
qed

section \<open>A rule that can never match\<close>

text \<open>strconv.ParseFloat reads the word NaN, which passes the check of the range: the rule is accepted and matches nothing.\<close>

lemma nan_rule_is_dead:
  assumes "pf v = Some NaN"
  shows "parse_op_cond pf (''score>='' @ v) = Inr (ScoreGe NaN)" and "\<not> op_cond_holds (ScoreGe NaN) f"
proof -
  have "to_lower ''score>='' = ''score>=''" by code_simp
  then have "to_lower (''score>='' @ v) = ''score>='' @ to_lower v" unfolding to_lower_def map_append by simp
  with assms show "parse_op_cond pf (''score>='' @ v) = Inr (ScoreGe NaN)"
    by (simp add: parse_op_cond_def cond_parsers_def after_prefix_def score_const_def)
qed simp

end
