(* ===== verification/Go_Bytes.thy ===== *)
theory Go_Bytes
  imports Vayu_Prelude "HOL-Library.Word"
begin

unbundle bit_operations_syntax

text \<open>
  What the shield's challenges use of the standard library: package crypto/sha256 and crypto/hmac,
  encoding/hex, encoding/base64 (RawURLEncoding) and encoding/binary (BigEndian). A byte slice is a string.
  The decoder of base64 is Go's: it skips carriage returns and line feeds anywhere, and, not being Strict,
  does not look at the unused bits of the last digit.
\<close>

section \<open>SHA-256 and HMAC\<close>

definition byte32 :: "char \<Rightarrow> 32 word" where
  "byte32 c = word_of_nat (of_char c)"

definition nth_byte :: "nat \<Rightarrow> 32 word \<Rightarrow> char" where
  "nth_byte i w = char_of (unat (drop_bit (24 - 8 * i) w AND 255))"

fun words_of :: "string \<Rightarrow> 32 word list" where
  "words_of (a # b # c # d # s) =
     (push_bit 24 (byte32 a) OR push_bit 16 (byte32 b) OR push_bit 8 (byte32 c) OR byte32 d) # words_of s"
| "words_of _ = []"

definition bytes_of :: "32 word list \<Rightarrow> string" where
  "bytes_of ws = concat (map (\<lambda>w. map (\<lambda>i. nth_byte i w) [0..<4]) ws)"

text \<open>The round constants, from the cube roots of the first 64 primes, and the start, from the square roots of the first eight.\<close>

definition sha_k :: "32 word list" where
  "sha_k =
     [1116352408, 1899447441, 3049323471, 3921009573, 961987163, 1508970993,
      2453635748, 2870763221, 3624381080, 310598401, 607225278, 1426881987,
      1925078388, 2162078206, 2614888103, 3248222580, 3835390401, 4022224774,
      264347078, 604807628, 770255983, 1249150122, 1555081692, 1996064986,
      2554220882, 2821834349, 2952996808, 3210313671, 3336571891, 3584528711,
      113926993, 338241895, 666307205, 773529912, 1294757372, 1396182291,
      1695183700, 1986661051, 2177026350, 2456956037, 2730485921, 2820302411,
      3259730800, 3345764771, 3516065817, 3600352804, 4094571909, 275423344,
      430227734, 506948616, 659060556, 883997877, 958139571, 1322822218,
      1537002063, 1747873779, 1955562222, 2024104815, 2227730452, 2361852424,
      2428436474, 2756734187, 3204031479, 3329325298]"

definition sha_start :: "32 word list" where
  "sha_start =
     [1779033703, 3144134277, 1013904242, 2773480762, 1359893119, 2600822924,
      528734635, 1541459225]"

definition sha_pad :: "string \<Rightarrow> string" where
  "sha_pad s =
     (let n = length s in
      s @ CHR 0x80 # replicate ((119 - n mod 64) mod 64) (CHR 0x00) @ map (\<lambda>i. char_of (8 * n div 256 ^ (7 - i))) [0..<8])"

fun sha_expand :: "nat \<Rightarrow> 32 word list \<Rightarrow> 32 word list" where
  "sha_expand 0 ws = ws"
| "sha_expand (Suc n) ws =
     (let l = length ws; x = ws ! (l - 15); y = ws ! (l - 2);
          s0 = word_rotr 7 x XOR word_rotr 18 x XOR drop_bit 3 x;
          s1 = word_rotr 17 y XOR word_rotr 19 y XOR drop_bit 10 y
      in sha_expand n (ws @ [ws ! (l - 16) + s0 + ws ! (l - 7) + s1]))"

fun sha_round :: "32 word \<times> 32 word \<Rightarrow> 32 word list \<Rightarrow> 32 word list" where
  "sha_round (k, w) [a, b, c, d, e, f, g, h] =
     (let s1 = word_rotr 6 e XOR word_rotr 11 e XOR word_rotr 25 e;
          t1 = h + s1 + ((e AND f) XOR (NOT e AND g)) + k + w;
          s0 = word_rotr 2 a XOR word_rotr 13 a XOR word_rotr 22 a;
          t2 = s0 + ((a AND b) XOR (a AND c) XOR (b AND c))
      in [t1 + t2, a, b, c, d + t1, e, f, g])"
| "sha_round _ st = st"

definition sha_block :: "32 word list \<Rightarrow> 32 word list \<Rightarrow> 32 word list" where
  "sha_block st ws = map2 (+) st (fold sha_round (zip sha_k (sha_expand 48 ws)) st)"

fun sha_blocks :: "nat \<Rightarrow> 32 word list \<Rightarrow> 32 word list \<Rightarrow> 32 word list" where
  "sha_blocks 0 ws st = st"
| "sha_blocks (Suc n) ws st = sha_blocks n (drop 16 ws) (sha_block st (take 16 ws))"

definition sha256 :: "string \<Rightarrow> string" where
  "sha256 s = (let ws = words_of (sha_pad s) in bytes_of (sha_blocks (length ws div 16) ws sha_start))"

definition xor_byte :: "nat \<Rightarrow> char \<Rightarrow> char" where
  "xor_byte k c = char_of (of_char c XOR k)"

definition hmac_key :: "string \<Rightarrow> string" where
  "hmac_key k = (let k = (if length k > 64 then sha256 k else k) in k @ replicate (64 - length k) (CHR 0x00))"

definition hmac_sha256 :: "string \<Rightarrow> string \<Rightarrow> string" where
  "hmac_sha256 key msg =
     sha256 (map (xor_byte 92) (hmac_key key) @ sha256 (map (xor_byte 54) (hmac_key key) @ msg))"

lemma length_sha_round: "length (sha_round x st) = length st"
  by (cases "(x, st)" rule: sha_round.cases) (simp_all add: Let_def)

lemma length_sha_block: "length (sha_block st ws) = length st"
proof -
  have "length (fold sha_round xs st) = length st" for xs
    by (induction xs arbitrary: st) (simp_all add: length_sha_round)
  then show ?thesis by (simp add: sha_block_def)
qed

lemma length_sha256 [simp]: "length (sha256 s) = 32"
proof -
  have "length (sha_blocks n ws st) = length st" for n ws st
    by (induction n arbitrary: ws st) (simp_all add: length_sha_block)
  then show ?thesis by (simp add: sha256_def bytes_of_def Let_def length_concat comp_def sha_start_def sum_list_triv)
qed

lemma length_hmac [simp]: "length (hmac_sha256 k m) = 32"
  by (simp add: hmac_sha256_def)

section \<open>Hexadecimal\<close>

definition hex_digit :: "nat \<Rightarrow> char" where
  "hex_digit n = ''0123456789abcdef'' ! (n mod 16)"

definition hex_encode :: "string \<Rightarrow> string" where
  "hex_encode s = concat (map (\<lambda>c. [hex_digit (of_char c div 16), hex_digit (of_char c)]) s)"

lemma length_hex [simp]: "length (hex_encode s) = 2 * length s"
  by (induction s) (simp_all add: hex_encode_def)

lemma hex_digit_in: "hex_digit n \<in> set ''0123456789abcdef''"
  unfolding hex_digit_def by (rule nth_mem) simp

lemma hex_chars: "c \<in> set (hex_encode s) \<Longrightarrow> c \<in> set ''0123456789abcdef''"
  using hex_digit_in by (induction s) (auto simp: hex_encode_def)

section \<open>Base64, with the alphabet of URLs and no padding\<close>

definition url_alphabet :: string where
  "url_alphabet = ''ABCDEFGHIJKLMNOPQRSTUVWXYZabcdefghijklmnopqrstuvwxyz0123456789-_''"

definition url_digit :: "nat \<Rightarrow> char" where
  "url_digit n = url_alphabet ! (n mod 64)"

definition url_value :: "char \<Rightarrow> nat option" where
  "url_value c = map_of (zip url_alphabet [0..<64]) c"

fun raw_encode :: "string \<Rightarrow> string" where
  "raw_encode [] = []"
| "raw_encode [a] = (let n = of_char a * 65536 in [url_digit (n div 262144), url_digit (n div 4096)])"
| "raw_encode [a, b] =
     (let n = of_char a * 65536 + of_char b * 256
      in [url_digit (n div 262144), url_digit (n div 4096), url_digit (n div 64)])"
| "raw_encode (a # b # c # s) =
     (let n = of_char a * 65536 + of_char b * 256 + of_char c
      in [url_digit (n div 262144), url_digit (n div 4096), url_digit (n div 64), url_digit n] @ raw_encode s)"

fun quanta :: "nat list \<Rightarrow> string option" where
  "quanta [] = Some []"
| "quanta [p] = None"
| "quanta [p, q] = Some [char_of ((p * 262144 + q * 4096) div 65536)]"
| "quanta [p, q, r] =
     (let n = p * 262144 + q * 4096 + r * 64 in Some [char_of (n div 65536), char_of (n div 256)])"
| "quanta (p # q # r # t # ds) =
     (let n = p * 262144 + q * 4096 + r * 64 + t
      in map_option (\<lambda>s. [char_of (n div 65536), char_of (n div 256), char_of n] @ s) (quanta ds))"

definition raw_decode :: "string \<Rightarrow> string option" where
  "raw_decode s =
     (let ds = map url_value (filter (\<lambda>c. c \<noteq> CHR 0x0A \<and> c \<noteq> CHR 0x0D) s)
      in if None \<in> set ds then None else quanta (map the ds))"

lemma url_value_digit [simp]: "url_value (url_digit n) = Some (n mod 64)"
proof -
  have "list_all (\<lambda>k. url_value (url_alphabet ! k) = Some k) [0..<64]" by code_simp
  then have "url_value (url_alphabet ! (n mod 64)) = Some (n mod 64)" by (simp add: list_all_iff)
  then show ?thesis by (simp add: url_digit_def)
qed

lemma url_digit_char: "url_digit n \<in> set url_alphabet"
  unfolding url_digit_def by (rule nth_mem) (simp add: url_alphabet_def)

lemma encode_chars: "c \<in> set (raw_encode s) \<Longrightarrow> c \<in> set url_alphabet"
  by (induction s rule: raw_encode.induct) (auto simp: Let_def url_digit_char)

text \<open>What RawURLEncoding writes is decoded to the bytes it was given.\<close>

lemma four_digits:
  fixes n :: nat
  assumes "n < 16777216"
  shows "n div 262144 mod 64 * 262144 + n div 4096 mod 64 * 4096 + n div 64 mod 64 * 64 + n mod 64 = n"
proof -
  define x y z where "x = n div 64" and "y = x div 64" and "z = y div 64"
  have d: "n div 4096 = y" "n div 262144 = z" by (simp_all add: x_def y_def z_def flip: div_mult2_eq)
  have "z < 64" using assms by (simp add: less_mult_imp_div_less flip: d)
  moreover have "n = 64 * x + n mod 64" "x = 64 * y + x mod 64" "y = 64 * z + y mod 64"
    by (simp_all add: x_def y_def z_def)
  ultimately show ?thesis unfolding d x_def [symmetric] by simp
qed

lemma three_bytes:
  fixes x y z :: nat
  assumes "x < 256" "y < 256" "z < 256"
  shows "x * 65536 + y * 256 + z < 16777216" "(x * 65536 + y * 256 + z) div 65536 = x"
    "(x * 65536 + y * 256 + z) div 256 mod 256 = y" "(x * 65536 + y * 256 + z) mod 256 = z"
proof -
  show "x * 65536 + y * 256 + z < 16777216" using assms by linarith
  have e: "(x * 65536 + y * 256 + z) = z + 256 * (x * 256 + y)" by simp
  have d: "(x * 65536 + y * 256 + z) div 256 = x * 256 + y" and "(x * 65536 + y * 256 + z) mod 256 = z"
    using assms unfolding e by (simp_all only: div_mult_self2 mod_mult_self2, simp_all)
  then show "(x * 65536 + y * 256 + z) div 256 mod 256 = y" "(x * 65536 + y * 256 + z) mod 256 = z" using assms by simp_all
  have "(x * 65536 + y * 256 + z) div 65536 = (x * 65536 + y * 256 + z) div 256 div 256" by (simp flip: div_mult2_eq)
  also have "\<dots> = x" unfolding d using assms by simp
  finally show "(x * 65536 + y * 256 + z) div 65536 = x" .
qed

lemma three_chars:
  fixes a b c :: char
  defines "n \<equiv> of_char a * 65536 + of_char b * 256 + of_char c :: nat"
  shows "n < 16777216" "char_of (n div 65536) = a" "char_of (n div 256) = b" "char_of n = c"
proof -
  note t = three_bytes [OF nat_of_char_less_256 [of a] nat_of_char_less_256 [of b] nat_of_char_less_256 [of c], folded n_def]
  show "n < 16777216" "char_of (n div 65536) = a" using t by simp_all
  have "char_of (n div 256 mod 256) = b" "char_of (n mod 256) = c" unfolding t by simp_all
  then show "char_of (n div 256) = b" "char_of n = c" by simp_all
qed

lemma quanta_encode: "quanta (map (the \<circ> url_value) (raw_encode s)) = Some s"
proof (induction s rule: raw_encode.induct)
  case (2 a)
  define n :: nat where "n = of_char a * 65536"
  have n: "n = 64 * (64 * (of_char a * 16))" by (simp add: n_def)
  have "n div 64 mod 64 = 0" "n mod 64 = 0" unfolding n nonzero_mult_div_cancel_left [OF zero_neq_numeral [symmetric]] by simp_all
  then show ?case using three_chars [of a "char_of (0 :: nat)" "char_of (0 :: nat)"] four_digits [of n]
    by (simp add: Let_def flip: n_def)
next
  case (3 a b)
  define n :: nat where "n = of_char a * 65536 + of_char b * 256"
  have n: "n = 64 * (4 * (of_char a * 256 + of_char b))" by (simp add: n_def)
  have "n mod 64 = 0" unfolding n by simp
  then show ?case using three_chars [of a b "char_of (0 :: nat)"] four_digits [of n]
    by (simp add: Let_def flip: n_def)
next
  case (4 a b c s)
  then show ?case using three_chars [of a b c] four_digits [of "of_char a * 65536 + of_char b * 256 + of_char c"]
    by (simp add: Let_def)
qed simp

lemma alphabet_plain: "c \<in> set url_alphabet \<Longrightarrow> in_range_c 45 122 c \<and> url_value c \<noteq> None"
proof -
  have "list_all (\<lambda>c. in_range_c 45 122 c \<and> url_value c \<noteq> None) url_alphabet" by code_simp
  then show "c \<in> set url_alphabet \<Longrightarrow> in_range_c 45 122 c \<and> url_value c \<noteq> None" by (simp add: list_all_iff)
qed

lemma decode_encode [simp]: "raw_decode (raw_encode s) = Some s"
proof -
  have "filter (\<lambda>c. c \<noteq> CHR 0x0A \<and> c \<noteq> CHR 0x0D) (raw_encode s) = raw_encode s"
    using alphabet_plain encode_chars by (fastforce simp: filter_id_conv in_range_c_def)
  moreover have "None \<notin> set (map url_value (raw_encode s))" using alphabet_plain encode_chars by force
  ultimately show ?thesis using quanta_encode [of s] by (simp add: raw_decode_def)
qed

text \<open>Line feeds change nothing.\<close>

lemma decode_line_feeds: "raw_decode (replicate n (CHR 0x0A) @ s) = raw_decode s"
  by (simp add: raw_decode_def)

section \<open>Big-endian numbers\<close>

definition put_uint64 :: "nat \<Rightarrow> string" where
  "put_uint64 n = map (\<lambda>i. char_of (n div 256 ^ (7 - i))) [0..<8]"

definition uint64_of :: "string \<Rightarrow> nat" where
  "uint64_of s = foldl (\<lambda>n c. n * 256 + of_char c) 0 s"

lemma length_put_uint64 [simp]: "length (put_uint64 n) = 8"
  by (simp add: put_uint64_def)

lemma uint64_digits: "foldl (\<lambda>n c. n * 256 + of_char c) 0 (map (\<lambda>i. char_of (n div 256 ^ (k - 1 - i))) [0..<k]) = n mod (256 :: nat) ^ k"
proof (induction k arbitrary: n)
  case (Suc k)
  have "n div 256 ^ (k - i) = n div 256 div 256 ^ (k - 1 - i)" if "i < k" for i
    using that by (simp add: div_mult2_eq [symmetric] flip: power_Suc) (metis Suc_diff_Suc diff_Suc_1 diff_commute)
  then have "map (\<lambda>i. char_of (n div 256 ^ (k - i))) [0..<k] = map (\<lambda>i. char_of (n div 256 div 256 ^ (k - 1 - i)) :: char) [0..<k]"
    by simp
  with Suc.IH [of "n div 256"] have "foldl (\<lambda>n c. n * 256 + of_char c) 0 (map (\<lambda>i. char_of (n div 256 ^ (k - i))) [0..<k]) = n div 256 mod 256 ^ k"
    by (simp only:)
  then show ?case by (simp add: mod_mult2_eq)
qed simp

lemma uint64_roundtrip: "n < 2 ^ 64 \<Longrightarrow> uint64_of (put_uint64 n) = n"
  using uint64_digits [of n 8] by (simp add: uint64_of_def put_uint64_def del: upt.simps)

section \<open>Text with nothing to trim\<close>

lemma prefix_len_none: "s = [] \<or> list_all (\<lambda>r. r = [] \<or> hd r \<noteq> hd s) rs \<Longrightarrow> prefix_len rs s = 0"
proof (induction rs)
  case (Cons r rs)
  have "\<not> (r \<noteq> [] \<and> has_prefix s r)"
    using Cons.prems by (cases r; cases s) auto
  with Cons show ?case by auto
qed simp

lemma trim_space_plain:
  assumes "\<forall>c \<in> set s. in_range_c 33 126 c"
  shows "trim_space s = s"
proof -
  let ?far = "list_all (\<lambda>r. r = [] \<or> \<not> in_range_c 33 126 (hd r))"
  have "?far space_runes" "?far (map rev space_runes)" by code_simp+
  then have far: "?far rs" if "rs = space_runes \<or> rs = map rev space_runes" for rs
    using that by blast
  have "prefix_len rs t = 0" if "rs = space_runes \<or> rs = map rev space_runes" "set t = set s" for rs t
    using far [OF that(1)] assms that(2) hd_in_set [of t] by (intro prefix_len_none) (fastforce simp: list_all_iff)
  then have "trim_front rs t = t" if "rs = space_runes \<or> rs = map rev space_runes" "set t = set s" for rs t
    using that by (simp add: trim_front.simps)
  then show ?thesis by (simp add: trim_space_def)
qed

end
