(* ===== verification/Challenge.thy ===== *)
theory Challenge
  imports Go_Bytes
begin

text \<open>
  The shield's challenges (src/internal/vayushield/challenge/challenge.go): signed proofs of work and the
  session tokens bound to a client. Random bytes are an argument, None when they cannot be read; the
  clock is an argument. A signer is its key.
\<close>

section \<open>Signer\<close>

type_synonym signer = string

definition new_signer :: "string \<Rightarrow> signer" where
  "new_signer secret = hmac_sha256 secret ''vayushield/challenge/v1''"

definition mac :: "signer \<Rightarrow> string \<Rightarrow> string" where
  "mac key msg = hmac_sha256 key msg"

text \<open>Time.Unix: whole seconds since 1970, where times here count from the year 1.\<close>

definition unix_epoch :: time where
  "unix_epoch = 62135596800 * second"

definition unix :: "time \<Rightarrow> int" where
  "unix t = (t - unix_epoch) div second"

lemma unix_mono: "t \<le> u \<Longrightarrow> unix t \<le> unix u"
  by (simp add: unix_def zdiv_mono1 dur_defs)

section \<open>Proof of work\<close>

record pow =
  pw_salt :: string
  pw_difficulty :: int
  pw_expires :: int
  pw_sig :: string

definition default_difficulty :: int where "default_difficulty = 4"
definition hard_difficulty :: int where "hard_difficulty = 5"
definition max_difficulty :: int where "max_difficulty = 8"

definition signing_bytes :: "pow \<Rightarrow> string" where
  "signing_bytes p = pw_salt p @ ''|'' @ itoa (pw_difficulty p) @ ''|'' @ itoa (pw_expires p)"

definition issue_pow :: "signer \<Rightarrow> string option \<Rightarrow> time \<Rightarrow> int \<Rightarrow> dur \<Rightarrow> pow option" where
  "issue_pow key rnd now difficulty ttl =
     (let d = (if difficulty \<le> 0 then default_difficulty else difficulty);
          d = (if d > max_difficulty then max_difficulty else d)
      in case rnd of
           None \<Rightarrow> None
         | Some salt \<Rightarrow>
             (let p = \<lparr>pw_salt = hex_encode salt, pw_difficulty = d, pw_expires = unix (now + ttl), pw_sig = []\<rparr>
              in Some (p\<lparr>pw_sig := raw_encode (mac key (signing_bytes p))\<rparr>)))"

datatype pow_error = ErrExpired | ErrBadSignature | ErrNotSolved

definition solution_valid :: "string \<Rightarrow> string \<Rightarrow> int \<Rightarrow> bool" where
  "solution_valid salt nonce difficulty \<longleftrightarrow>
     (if difficulty \<le> 0 then True
      else (let h = hex_encode (sha256 (salt @ '':'' @ nonce)) in
            if difficulty > int (length h) then False
            else list_all (\<lambda>c. c = CHR ''0'') (take (nat difficulty) h)))"

definition verify_pow :: "signer \<Rightarrow> time \<Rightarrow> pow \<Rightarrow> string \<Rightarrow> pow_error option" where
  "verify_pow key now p nonce =
     (if raw_decode (pw_sig p) \<noteq> Some (mac key (signing_bytes p)) then Some ErrBadSignature
      else if unix now > pw_expires p then Some ErrExpired
      else if \<not> solution_valid (pw_salt p) nonce (pw_difficulty p) then Some ErrNotSolved
      else None)"

text \<open>The loop of Solve, with the tries that are left.\<close>

fun solve_loop :: "string \<Rightarrow> int \<Rightarrow> nat \<Rightarrow> nat \<Rightarrow> string \<times> bool" where
  "solve_loop salt difficulty i 0 = ([], False)"
| "solve_loop salt difficulty i (Suc left) =
     (let n = itoa (int i) in
      if solution_valid salt n difficulty then (n, True) else solve_loop salt difficulty (i + 1) left)"

definition solve :: "string \<Rightarrow> int \<Rightarrow> int \<Rightarrow> string \<times> bool" where
  "solve salt difficulty max_tries = solve_loop salt difficulty 0 (nat max_tries)"

section \<open>Session tokens\<close>

definition token_version :: char where "token_version = CHR 0x01"

definition bound_message :: "string \<Rightarrow> string \<Rightarrow> string" where
  "bound_message payload bind = payload @ CHR 0x00 # bind"

definition mac_bound :: "signer \<Rightarrow> string \<Rightarrow> string \<Rightarrow> string" where
  "mac_bound key payload bind = hmac_sha256 key (bound_message payload bind)"

text \<open>uint64 of an int64, and back.\<close>

definition uint64_int :: "int \<Rightarrow> nat" where
  "uint64_int i = nat (i mod 2 ^ 64)"

definition session_payload :: "string \<Rightarrow> int \<Rightarrow> string" where
  "session_payload rnd exp = token_version # put_uint64 (uint64_int exp) @ rnd"

definition issue_session :: "signer \<Rightarrow> string option \<Rightarrow> time \<Rightarrow> dur \<Rightarrow> string \<Rightarrow> string option" where
  "issue_session key rnd now ttl bind =
     (case rnd of
        None \<Rightarrow> None
      | Some r \<Rightarrow>
          (let payload = session_payload r (unix (now + ttl))
           in Some (raw_encode (payload @ take 16 (mac_bound key payload bind)))))"

definition verify_session :: "signer \<Rightarrow> time \<Rightarrow> string \<Rightarrow> string \<Rightarrow> bool" where
  "verify_session key now tok bind =
     (case raw_decode (trim_space tok) of
        None \<Rightarrow> False
      | Some raw \<Rightarrow>
          if length raw \<noteq> 1 + 8 + 8 + 16 \<or> raw ! 0 \<noteq> token_version then False
          else (let payload = take 17 raw in
                if take 16 (mac_bound key payload bind) \<noteq> drop 17 raw then False
                else unix now \<le> wrap64 (int (uint64_of (take 8 (drop 1 payload))))))"

section \<open>Sessions\<close>

lemma int64_roundtrip: "in_int64 i \<Longrightarrow> wrap64 (int (uint64_int i)) = i"
  by (auto simp: in_int64_def wrap64_def uint64_int_def mod_simps)

lemma trim_encoded: "trim_space (raw_encode s) = raw_encode s"
  using alphabet_plain encode_chars by (intro trim_space_plain) (fastforce simp: in_range_c_def)



section \<open>Challenges\<close>

lemma issue_pow_spec:
  assumes "issue_pow key (Some salt) now difficulty ttl = Some p"
  shows "pw_salt p = hex_encode salt" "pw_expires p = unix (now + ttl)" "1 \<le> pw_difficulty p" "pw_difficulty p \<le> 8"
    "raw_decode (pw_sig p) = Some (mac key (signing_bytes p))"
  using assms by (auto simp: issue_pow_def Let_def signing_bytes_def default_difficulty_def max_difficulty_def split: if_splits)

lemma issued_salt_plain: "CHR ''|'' \<notin> set (hex_encode s)"
  using hex_chars [of "CHR ''|''" s] by auto

lemma itoa_no_bar: "CHR ''|'' \<notin> set (itoa i)"
  by (rule itoa_digits) (simp_all add: in_range_c_def)

text \<open>The signed text of a challenge with a plain salt says what it is, even against a salt with bars in it.\<close>

lemma signing_bytes_inj:
  assumes plain: "CHR ''|'' \<notin> set (pw_salt p)" and eq: "signing_bytes q = signing_bytes p"
  shows "pw_salt q = pw_salt p \<and> pw_difficulty q = pw_difficulty p \<and> pw_expires q = pw_expires p"
proof -
  let ?bars = "\<lambda>s. length (filter (\<lambda>c. c = CHR ''|'') s)"
  have none: "?bars s = 0" if "CHR ''|'' \<notin> set s" for s using that by (induction s) auto
  have "?bars (signing_bytes q) = ?bars (pw_salt q) + 2" "?bars (signing_bytes p) = 2"
    using none [OF itoa_no_bar] none [OF plain] by (simp_all add: signing_bytes_def)
  with eq have "?bars (pw_salt q) = 0" by simp
  then have plain': "CHR ''|'' \<notin> set (pw_salt q)" by (auto simp: filter_empty_conv)
  from eq have "pw_salt q @ CHR ''|'' # itoa (pw_difficulty q) @ CHR ''|'' # itoa (pw_expires q)
      = pw_salt p @ CHR ''|'' # itoa (pw_difficulty p) @ CHR ''|'' # itoa (pw_expires p)"
    by (simp add: signing_bytes_def)
  then show ?thesis
    unfolding split_at_inj [OF plain' plain] split_at_inj [OF itoa_no_bar itoa_no_bar] using itoa_inj by blast
qed

text \<open>
  C30. A challenge cannot be made easier. Take a challenge that was issued, and whatever a client sends back with its
  signature, spelled in any way that decodes to the same bytes. Unless two different texts have the same MAC
  under the secret key, the answer is exactly this: a bad signature when the salt, the difficulty or the expiry is not the
  one issued; otherwise expired after the expiry; otherwise accepted exactly when the nonce solves the
  salt at the difficulty that was issued, which is from one to eight.
\<close>

theorem challenge_binds_terms:
  assumes p: "issue_pow key (Some salt) now difficulty ttl = Some p"
    and sig: "raw_decode (pw_sig q) = raw_decode (pw_sig p)"
    and collision_free: "mac key (signing_bytes q) = mac key (signing_bytes p) \<longrightarrow> signing_bytes q = signing_bytes p"
  shows "verify_pow key t q nonce =
      (if (pw_salt q, pw_difficulty q, pw_expires q) \<noteq> (pw_salt p, pw_difficulty p, pw_expires p) then Some ErrBadSignature
       else if unix t > unix (now + ttl) then Some ErrExpired
       else if \<not> solution_valid (hex_encode salt) nonce (pw_difficulty p) then Some ErrNotSolved
       else None)
    \<and> 1 \<le> pw_difficulty p \<and> pw_difficulty p \<le> 8"
proof -
  note spec = issue_pow_spec [OF p]
  have "CHR ''|'' \<notin> set (pw_salt p)" by (simp add: spec(1) issued_salt_plain)
  then have "signing_bytes q = signing_bytes p \<longleftrightarrow> (pw_salt q, pw_difficulty q, pw_expires q) = (pw_salt p, pw_difficulty p, pw_expires p)"
    using signing_bytes_inj [of p q] by (auto simp: signing_bytes_def)
  with collision_free show ?thesis using spec sig by (auto simp: verify_pow_def)
qed

theorem challenge_binds_terms_witness:
  "\<exists>p. issue_pow ''k'' (Some ''salt'') 0 20 minute = Some p \<and> pw_difficulty p \<le> 8
     \<and> verify_pow ''k'' hour (p\<lparr>pw_sig := CHR 0x0A # pw_sig p\<rparr>) ''7'' = Some ErrExpired"
proof -
  obtain p where p: "issue_pow ''k'' (Some ''salt'') 0 20 minute = Some p" by (simp add: issue_pow_def Let_def)
  let ?q = "p\<lparr>pw_sig := CHR 0x0A # pw_sig p\<rparr>"
  have "raw_decode (pw_sig ?q) = raw_decode (pw_sig p)" using decode_line_feeds [of 1 "pw_sig p"] by simp
  moreover have "signing_bytes ?q = signing_bytes p" by (simp add: signing_bytes_def)
  ultimately show ?thesis using challenge_binds_terms [OF p, of ?q hour "''7''"] p by (simp add: unix_def unix_epoch_def dur_defs)
qed

text \<open>The reference solver returns the least nonce that solves, and finds one whenever the tries reach it.\<close>

lemma solve_loop_least:
  "solve_loop salt d i k = (case find (\<lambda>j. solution_valid salt (itoa (int j)) d) [i..<i + k] of
     None \<Rightarrow> ([], False) | Some j \<Rightarrow> (itoa (int j), True))"
proof (induction k arbitrary: i)
  case (Suc k)
  have "[i..<i + Suc k] = i # [Suc i..<Suc i + k]" by (simp add: upt_rec)
  with Suc show ?case by (simp add: Let_def)
qed simp

lemma solve_finds_least:
  assumes "solution_valid salt (itoa (int j)) d" "\<forall>i < j. \<not> solution_valid salt (itoa (int i)) d" "int j < n"
  shows "solve salt d n = (itoa (int j), True)"
proof -
  have "[0..<nat n] = [0..<j] @ j # [Suc j..<nat n]"
    using assms(3) by (metis le_eq_less_or_eq less_nat_zero_code nat_less_iff of_nat_0_le_iff upt_add_eq_append upt_conv_Cons zless_nat_conj le0 le_add_diff_inverse zless_nat_eq_int_zless)
  then have "find (\<lambda>j. solution_valid salt (itoa (int j)) d) [0..<nat n] = Some j"
    using assms(1,2) by (auto simp: find_Some_iff nth_append intro!: exI [of _ j])
  then show ?thesis by (simp add: solve_def solve_loop_least)
qed

end
