(* ===== verification/Redeem.thy ===== *)
theory Redeem
  imports Challenge Machine
begin

unbundle bit_operations_syntax

text \<open>
  One-shot redemption of solved proofs (src/internal/vayushield/challenge/redeem.go): the sharded record of the
  proofs that have been spent, with its eviction. A range loop visits a map in the order of its list.
\<close>

section \<open>The record of spent proofs\<close>

definition redeem_shards :: nat where "redeem_shards = 16"
definition redeem_shard_cap :: nat where "redeem_shard_cap = 8192"

type_synonym redeem_shard = "(string, int) gomap"
type_synonym redeemer = "redeem_shard list"

definition new_redeemer :: redeemer where
  "new_redeemer = replicate redeem_shards []"

text \<open>The loop of FNV-1a on 64 bits, from a start.\<close>

definition fnv64 :: "64 word \<Rightarrow> string \<Rightarrow> 64 word" where
  "fnv64 start s = fold (\<lambda>c h. (h XOR word_of_nat (of_char c)) * 1099511628211) s start"

definition redeem_shard_for :: "string \<Rightarrow> nat" where
  "redeem_shard_for i = unat (fnv64 1469598103934665603 i) mod redeem_shards"

fun shed_soonest :: "int \<Rightarrow> (string \<times> int) list \<Rightarrow> redeem_shard \<Rightarrow> redeem_shard" where
  "shed_soonest edge [] m = m"
| "shed_soonest edge ((k, e) # xs) m =
     (if length m < redeem_shard_cap div 2 then m
      else shed_soonest edge xs (if e \<le> edge then map_del k m else m))"

definition redeem_evict :: "int \<Rightarrow> redeem_shard \<Rightarrow> redeem_shard" where
  "redeem_evict now m =
     (let m = filter (\<lambda>(k, e). \<not> e \<le> now) m in
      if length m < redeem_shard_cap then m
      else (let lo = fold min (map snd (tl m)) (snd (hd m));
                hi = fold max (map snd (tl m)) (snd (hd m));
                edge = lo + go_quot (hi - lo) 2
            in shed_soonest edge m m))"

definition claim_shard :: "int \<Rightarrow> string \<Rightarrow> int \<Rightarrow> redeem_shard \<Rightarrow> bool \<times> redeem_shard" where
  "claim_shard now i expires m =
     (if (case map_get m i of None \<Rightarrow> False | Some e \<Rightarrow> e > now) then (False, m)
      else (let m = (if length m \<ge> redeem_shard_cap then redeem_evict now m else m)
            in (True, map_put i expires m)))"

definition claim :: "time \<Rightarrow> string \<Rightarrow> int \<Rightarrow> redeemer \<Rightarrow> bool \<times> redeemer" where
  "claim now i expires r =
     (if i = [] then (True, r)
      else if expires \<le> unix now then (False, r)
      else (let k = redeem_shard_for i; (ok, m) = claim_shard (unix now) i expires (r ! k)
            in (ok, r[k := m])))"

definition redeem_len :: "redeemer \<Rightarrow> nat" where
  "redeem_len r = sum_list (map length r)"

definition proof_id :: "pow \<Rightarrow> string" where
  "proof_id p = pw_sig p"

section \<open>The record stays small\<close>

lemma redeem_shard_less: "redeem_shard_for i < redeem_shards"
  by (simp add: redeem_shard_for_def redeem_shards_def)

lemma fold_min_in: "fold min xs a \<in> insert (a :: int) (set xs)"
proof (induction xs arbitrary: a)
  case (Cons x xs)
  from Cons.IH [of "min x a"] show ?case by (cases "x \<le> a") (auto simp: min_def)
qed simp

lemma fold_min_le_max: "fold min xs (a :: int) \<le> fold max xs b" if "a \<le> b"
  using that by (induction xs arbitrary: a b) (auto simp: min_def max_def)

lemma shed_soonest_props:
  "gomap_ok m \<Longrightarrow> gomap_ok (shed_soonest edge xs m) \<and> length (shed_soonest edge xs m) \<le> length m"
proof (induction edge xs m rule: shed_soonest.induct)
  case (2 edge k e xs m)
  then show ?case using length_map_del_le [of k m] by (auto intro: order_trans)
qed simp

lemma shed_soonest_sheds:
  assumes "gomap_ok m" "length m = n" "0 < n" "x \<in> set xs" "snd x \<le> edge" "set xs \<subseteq> set m"
  shows "length (shed_soonest edge xs m) < n \<or> length m < redeem_shard_cap div 2"
  using assms
proof (induction xs)
  case (Cons y xs)
  obtain k e where y: "y = (k, e)" by (cases y)
  show ?case
  proof (cases "e \<le> edge \<and> \<not> length m < redeem_shard_cap div 2")
    case True
    have "length (map_del k m) < length m" using Cons.prems(6) y by (intro length_del_less [of k e]) auto
    then show ?thesis using True shed_soonest_props [of "map_del k m" edge xs] Cons.prems by (simp add: y)
  next
    case False
    then show ?thesis using Cons by (auto simp: y)
  qed
qed simp

lemma redeem_evict_room:
  assumes "gomap_ok m" "length m \<le> redeem_shard_cap"
  shows "gomap_ok (redeem_evict now m)" "length (redeem_evict now m) < redeem_shard_cap"
proof -
  define l where "l = filter (\<lambda>(k, e). \<not> e \<le> now) m"
  define lo hi where "lo = fold min (map snd (tl l)) (snd (hd l))" and "hi = fold max (map snd (tl l)) (snd (hd l))"
  have ok: "gomap_ok l" and le: "length l \<le> redeem_shard_cap"
    using assms by (auto simp: l_def intro: order_trans [OF length_filter_le])
  have ev: "redeem_evict now m = (if length l < redeem_shard_cap then l else shed_soonest (lo + go_quot (hi - lo) 2) l l)"
    by (simp add: redeem_evict_def Let_def lo_def hi_def flip: l_def)
  show "gomap_ok (redeem_evict now m)" using shed_soonest_props [OF ok] ok by (simp add: ev)
  show "length (redeem_evict now m) < redeem_shard_cap"
  proof (cases "length l < redeem_shard_cap")
    case False
    then have n: "length l = redeem_shard_cap" "l \<noteq> []" using le by (auto simp: redeem_shard_cap_def)
    then obtain x xs where l: "l = x # xs" by (cases l) auto
    have "lo \<in> snd ` set l" using fold_min_in [of "map snd xs" "snd x"] by (auto simp: lo_def l)
    moreover have "lo \<le> lo + go_quot (hi - lo) 2"
      using fold_min_le_max [of "snd x" "snd x" "map snd xs"] by (simp add: lo_def hi_def l go_quot_nonneg)
    ultimately obtain y where "y \<in> set l" "snd y \<le> lo + go_quot (hi - lo) 2" by auto
    from shed_soonest_sheds [OF ok refl _ this subset_refl] n show ?thesis
      by (auto simp: ev redeem_shard_cap_def)
  qed (simp add: ev)
qed

fun claim_step :: "time \<times> string \<times> int \<Rightarrow> redeemer \<Rightarrow> bool \<times> redeemer" where
  "claim_step (t, i, e) r = claim t i e r"

definition redeemer_ok :: "redeemer \<Rightarrow> bool" where
  "redeemer_ok r \<longleftrightarrow> length r = redeem_shards \<and> list_all (\<lambda>m. gomap_ok m \<and> length m \<le> redeem_shard_cap) r"

lemma claim_shard_ok:
  assumes "gomap_ok m" "length m \<le> redeem_shard_cap"
  shows "gomap_ok (snd (claim_shard now i e m)) \<and> length (snd (claim_shard now i e m)) \<le> redeem_shard_cap"
proof -
  define l where "l = (if length m \<ge> redeem_shard_cap then redeem_evict now m else m)"
  have "gomap_ok l" "length l < redeem_shard_cap"
    using assms redeem_evict_room [OF assms] by (auto simp: l_def)
  moreover from this have "length (map_put i e l) \<le> redeem_shard_cap" using length_map_put_le [of i e l] by simp
  ultimately show ?thesis using assms by (auto simp: claim_shard_def Let_def l_def)
qed

lemma redeemer_okD: "redeemer_ok r \<Longrightarrow> k < redeem_shards \<Longrightarrow> gomap_ok (r ! k) \<and> length (r ! k) \<le> redeem_shard_cap"
  by (auto simp: redeemer_ok_def list_all_length)

lemma claim_ok: "redeemer_ok r \<Longrightarrow> redeemer_ok (snd (claim_step x r))"
proof (cases x)
  case (fields t i e)
  assume ok: "redeemer_ok r"
  let ?k = "redeem_shard_for i"
  note sh = claim_shard_ok [of "r ! ?k" "unix t" i e] redeemer_okD [OF ok redeem_shard_less [of i]]
  have "list_all (\<lambda>m. gomap_ok m \<and> length m \<le> redeem_shard_cap) (r[?k := snd (claim_shard (unix t) i e (r ! ?k))])"
    using ok sh set_update_subset_insert [of r ?k] by (fastforce simp: redeemer_ok_def list_all_iff)
  then show ?thesis using ok by (auto simp: fields claim_def Let_def case_prod_beta redeemer_ok_def)
qed

lemma redeem_len_le: "redeemer_ok r \<Longrightarrow> redeem_len r \<le> 131072"
proof -
  assume "redeemer_ok r"
  then have "list_all (\<lambda>m. gomap_ok m \<and> length m \<le> redeem_shard_cap) r" by (simp add: redeemer_ok_def)
  then have "sum_list (map length r) \<le> length r * redeem_shard_cap" by (induction r) auto
  then show ?thesis using \<open>redeemer_ok r\<close> by (simp add: redeemer_ok_def redeem_len_def redeem_shards_def redeem_shard_cap_def)
qed

interpretation spent: capped claim_step "\<lambda>_ _. True" redeemer_ok redeem_len 131072
  by unfold_locales (auto intro: claim_ok redeem_len_le)

lemma new_redeemer_ok: "redeemer_ok new_redeemer"
  by (simp add: redeemer_ok_def new_redeemer_def list_all_iff)

section \<open>Each proof is spent once\<close>

text \<open>The shards hold the proofs of \<open>seen\<close> with their expiries, and no more than the proofs of \<open>D\<close>.\<close>

definition records :: "(string \<Rightarrow> int) \<Rightarrow> string set \<Rightarrow> string set \<Rightarrow> redeemer \<Rightarrow> bool" where
  "records ex D seen r \<longleftrightarrow> redeemer_ok r \<and> (\<forall>k < redeem_shards. fst ` set (r ! k) \<subseteq> D)
     \<and> (\<forall>i. i \<noteq> [] \<longrightarrow> map_get (r ! redeem_shard_for i) i = (if i \<in> seen then Some (ex i) else None))"

lemma room_for_new:
  assumes "gomap_ok m" "fst ` set m \<subseteq> D" "finite D" "card D \<le> redeem_shard_cap" "i \<in> D" "map_get m i = None"
  shows "length m < redeem_shard_cap"
proof -
  have "fst ` set m \<subset> D" using assms by (auto simp: map_of_eq_None_iff)
  then have "card (fst ` set m) < card D" using assms(3) by (simp add: psubset_card_mono)
  moreover have "card (fst ` set m) = length m" using assms(1) by (metis distinct_card length_map list.set_map)
  ultimately show ?thesis using assms(4) by simp
qed

lemma records_claim:
  assumes rec: "records ex D seen r" and D: "finite D" "card D \<le> redeem_shard_cap" and i: "i \<in> D" "i \<noteq> []"
  shows "fst (claim t i (ex i) r) \<longleftrightarrow> unix t < ex i \<and> i \<notin> seen"
    and "records ex D (if unix t < ex i then insert i seen else seen) (snd (claim t i (ex i) r))"
proof -
  let ?k = "redeem_shard_for i"
  note k = redeem_shard_less [of i]
  have ok: "redeemer_ok r" and keys: "fst ` set (r ! ?k) \<subseteq> D" and get: "map_get (r ! ?k) i = (if i \<in> seen then Some (ex i) else None)"
    using rec i k by (auto simp: records_def)
  note ok' = redeemer_okD [OF ok k]
  have sh: "claim_shard (unix t) i (ex i) (r ! ?k) = (if i \<in> seen then (False, r ! ?k) else (True, map_put i (ex i) (r ! ?k)))"
    if "unix t < ex i"
  proof (cases "i \<in> seen")
    case False
    then have "length (r ! ?k) < redeem_shard_cap"
      using room_for_new [OF _ keys D i(1)] ok' get by simp
    then show ?thesis using False get by (simp add: claim_shard_def)
  qed (use that get in \<open>simp add: claim_shard_def\<close>)
  then show "fst (claim t i (ex i) r) \<longleftrightarrow> unix t < ex i \<and> i \<notin> seen"
    using i by (auto simp: claim_def Let_def)
  have "redeemer_ok (snd (claim t i (ex i) r))" using claim_ok [OF ok, of "(t, i, ex i)"] by simp
  moreover have "length r = redeem_shards" using ok by (simp add: redeemer_ok_def)
  moreover have keys': "fst ` set (map_put i (ex i) (r ! ?k)) \<subseteq> D"
    using set_map_put [of i "ex i" "r ! ?k"] keys i by fastforce
  moreover have "insert i seen = seen" if "i \<in> seen" using that by auto
  ultimately show "records ex D (if unix t < ex i then insert i seen else seen) (snd (claim t i (ex i) r))"
    using rec sh i k keys'
    by (auto simp: records_def claim_def Let_def nth_list_update gomap_simps)
qed

lemma records_run:
  assumes "records ex D seen r" "finite D" "card D \<le> redeem_shard_cap"
    and "\<forall>(t, i, e) \<in> set cs. i \<in> D \<and> i \<noteq> [] \<and> e = ex i" "n < length cs" "cs ! n = (t, i, e)"
  shows "fst (run_ops claim_step cs r) ! n \<longleftrightarrow>
    unix t < ex i \<and> i \<notin> seen \<union> {j. \<exists>t' e'. (t', j, e') \<in> set (take n cs) \<and> unix t' < ex j}"
  using assms
proof (induction cs arbitrary: seen r n)
  case (Cons c cs)
  obtain t0 i0 where c: "c = (t0, i0, ex i0)" and i0: "i0 \<in> D" "i0 \<noteq> []" using Cons.prems(4) by (cases c) auto
  note step = records_claim [OF Cons.prems(1-3) i0, of t0]
  show ?case
  proof (cases n)
    case 0
    then show ?thesis using step(1) Cons.prems(6) by (simp add: c)
  next
    case (Suc m)
    have "fst (run_ops claim_step cs (snd (claim t0 i0 (ex i0) r))) ! m \<longleftrightarrow> unix t < ex i
        \<and> i \<notin> (if unix t0 < ex i0 then insert i0 seen else seen) \<union> {j. \<exists>t' e'. (t', j, e') \<in> set (take m cs) \<and> unix t' < ex j}"
      by (rule Cons.IH [OF step(2)]) (use Cons.prems Suc in auto)
    then show ?thesis by (auto simp: c Suc)
  qed
qed simp

lemma records_new: "records ex D {} new_redeemer"
  by (auto simp: records_def new_redeemer_ok) (auto simp: new_redeemer_def redeem_shard_less)

text \<open>
  A solved proof is redeemed once. Whatever claims follow one another, as long as a shard has room for all the
  proofs and each proof has its one expiry: a claim succeeds exactly when the proof is
  not expired and has not been claimed before. And whatever is claimed, with room or without, the records
  stay within sixteen shards of 8192.
\<close>

theorem proof_spent_once:
  assumes few: "card ((\<lambda>(t, i, e). i) ` set cs) \<le> redeem_shard_cap" and order: "sorted (map fst cs)"
    and ids: "\<forall>(t, i, e) \<in> set cs. i \<noteq> [] \<and> e = ex i"
    and n: "n < length cs" "cs ! n = (t, i, e)"
  shows "(fst (run_ops claim_step cs new_redeemer) ! n \<longleftrightarrow> unix t < e \<and> i \<notin> (\<lambda>(t, i, e). i) ` set (take n cs))
    \<and> redeem_len (snd (run_ops claim_step ds new_redeemer)) \<le> 131072"
proof -
  let ?D = "(\<lambda>(t, i, e). i) ` set cs"
  have e: "e = ex i" using ids nth_mem [OF n(1)] n(2) by auto
  have same: "i \<in> {j. \<exists>t' e'. (t', j, e') \<in> set (take n cs) \<and> unix t' < ex j} \<longleftrightarrow> i \<in> (\<lambda>(t, i, e). i) ` set (take n cs)" if "unix t < ex i"
  proof -
    have "unix t' < ex i" if "(t', i, e') \<in> set (take n cs)" for t' e'
    proof -
      obtain m where m: "m < n" "cs ! m = (t', i, e')" using \<open>(t', i, e') \<in> set (take n cs)\<close> n(1) by (auto simp: in_set_conv_nth)
      then have "t' \<le> t" using sorted_nth_mono [OF order, of m n] n by simp
      then show ?thesis using \<open>unix t < ex i\<close> by (simp add: unix_def unix_epoch_def zdiv_mono1 order_le_less_trans dur_defs)
    qed
    then show ?thesis by (force simp: image_iff)
  qed
  have D: "\<forall>(t, i, e) \<in> set cs. i \<in> ?D \<and> i \<noteq> [] \<and> e = ex i" using ids by (force simp: image_iff)
  have "fst (run_ops claim_step cs new_redeemer) ! n \<longleftrightarrow> unix t < ex i \<and> i \<notin> (\<lambda>(t, i, e). i) ` set (take n cs)"
    unfolding records_run [OF records_new finite_imageI [OF finite_set] few D n] Un_empty_left using same by blast
  then show ?thesis using spent.run_within [OF new_redeemer_ok, of ds] by (simp add: e)
qed

theorem proof_spent_once_witness:
  "\<not> fst (run_ops claim_step [(0, ''a'', 60), (0, ''b'', 60), (second, ''a'', 60)] new_redeemer) ! 2"
proof -
  let ?cs = "[(0, ''a'', 60), (0, ''b'', 60), (second, ''a'', 60)]"
  have "card ((\<lambda>(t, i, e). i) ` set ?cs) \<le> redeem_shard_cap" by (simp add: redeem_shard_cap_def card_insert_if)
  from proof_spent_once [OF this, of "\<lambda>_. 60" 2 second "''a''" 60 "[]"] show ?thesis by (simp add: dur_defs)
qed

text \<open>
  A claim goes by the spelling of the signature, and Go's decoder skips line feeds: one solved proof is accepted under any
  number of spellings, and each is claimed as a proof of its own.
\<close>

lemma respelled_proof_verifies:
  "verify_pow key now (p\<lparr>pw_sig := replicate n (CHR 0x0A) @ pw_sig p\<rparr>) nonce = verify_pow key now p nonce"
  by (simp add: verify_pow_def decode_line_feeds signing_bytes_def)

lemma respelled_proof_claims:
  assumes "pw_sig p \<noteq> []" "unix now < pw_expires p"
  defines "q \<equiv> \<lambda>n. p\<lparr>pw_sig := replicate n (CHR 0x0A) @ pw_sig p\<rparr>"
  shows "list_all id (fst (run_ops claim_step (map (\<lambda>n. (now, proof_id (q n), pw_expires p)) [0..<redeem_shard_cap]) new_redeemer))"
proof -
  let ?cs = "map (\<lambda>n. (now, proof_id (q n), pw_expires p)) [0..<redeem_shard_cap]"
  have inj: "inj (\<lambda>n. proof_id (q n))" by (auto simp: inj_def proof_id_def q_def dest: arg_cong [where f = length])
  have ne: "proof_id (q n) \<noteq> []" for n using assms(1) by (simp add: proof_id_def q_def)
  have few: "card ((\<lambda>(t, i, e). i) ` set ?cs) \<le> redeem_shard_cap"
    using card_image_le [of "set ?cs" "\<lambda>(t, i, e). i"] card_length [of ?cs] by simp
  have "fst (run_ops claim_step ?cs new_redeemer) ! n" if n: "n < redeem_shard_cap" for n
  proof -
    have "proof_id (q n) \<notin> (\<lambda>(t, i, e). i) ` set (take n ?cs)"
      using inj n by (auto simp: take_map take_upt dest!: injD)
    then have "fst (run_ops claim_step ?cs new_redeemer) ! n \<longleftrightarrow> unix now < pw_expires p"
      using records_run [of "\<lambda>_. pw_expires p" "(\<lambda>(t, i, e). i) ` set ?cs" "{}" new_redeemer ?cs n now "proof_id (q n)" "pw_expires p"]
        few ne n by (auto simp: records_new image_iff take_map)
    then show ?thesis using assms(2) by simp
  qed
  then show ?thesis by (simp add: list_all_length)
qed

text \<open>At its last second VerifyPoW takes a proof and Claim refuses it.\<close>

lemma last_second_refused: "verify_pow key now p nonce = None \<Longrightarrow> unix now = pw_expires p \<Longrightarrow> proof_id p \<noteq> [] \<Longrightarrow> \<not> fst (claim now (proof_id p) (pw_expires p) r)"
  by (simp add: claim_def)

end
