(* ===== verification/Brain.thy ===== *)
theory Brain
  imports Redeem Complex_Main
begin

text \<open>
  The shield's reputation engine (src/internal/vayushield/brain/brain.go): who is under suspicion, the drift back to
  neutral, the escalating sentences and the pardon. Scores are exact rationals; the factor of the drift,
  math.Exp2 of the time in half-lives, is an argument. A range loop visits a map in the order of its list.
\<close>

section \<open>Reputation\<close>

definition brain_shards :: nat where "brain_shards = 256"
definition per_shard_cap :: nat where "per_shard_cap = 1024"
definition neutral :: rat where "neutral = 1 / 2"
definition jail_below :: rat where "jail_below = 15 / 100"
definition release_score :: rat where "release_score = 35 / 100"
definition half_life :: dur where "half_life = hour"
definition base_jail :: dur where "base_jail = 5 * minute"
definition max_jail :: dur where "max_jail = 6 * hour"
definition max_offenses :: nat where "max_offenses = 12"

definition signal_block :: rat where "signal_block = - 25 / 100"
definition signal_rate_burst :: rat where "signal_rate_burst = - 10 / 100"
definition signal_proof :: rat where "signal_proof = 40 / 100"
definition signal_human :: rat where "signal_human = 2 / 100"

record rep =
  rp_score :: rat
  rp_updated :: time
  rp_jail :: time
  rp_offenses :: nat

type_synonym rep_shard = "(string, rep) gomap"

record brain =
  bn_shards :: "rep_shard list"
  bn_jails :: int
  bn_redeems :: int

definition new_brain :: brain where
  "new_brain = \<lparr>bn_shards = replicate brain_shards [], bn_jails = 0, bn_redeems = 0\<rparr>"

definition brain_shard :: "string \<Rightarrow> nat" where
  "brain_shard key = unat (fnv64 14695981039346656037 key) mod brain_shards"

definition decay_rep :: "(dur \<Rightarrow> rat) \<Rightarrow> time \<Rightarrow> rep \<Rightarrow> rep" where
  "decay_rep f now r =
     (let dt = time_sub now (rp_updated r) in
      if dt \<le> 0 then r else r\<lparr>rp_score := neutral + (rp_score r - neutral) * f dt, rp_updated := now\<rparr>)"

text \<open>The two loops that make room: each stops when an eighth has gone.\<close>

fun evict_stale :: "time \<Rightarrow> (string \<times> rep) list \<Rightarrow> nat \<Rightarrow> rep_shard \<Rightarrow> nat \<times> rep_shard" where
  "evict_stale now [] n m = (n, m)"
| "evict_stale now ((k, r) # xs) n m =
     (if n \<ge> per_shard_cap div 8 then (n, m)
      else if time_sub now (rp_updated r) > half_life then evict_stale now xs (n + 1) (map_del k m)
      else evict_stale now xs n m)"

fun evict_any :: "(string \<times> rep) list \<Rightarrow> nat \<Rightarrow> rep_shard \<Rightarrow> rep_shard" where
  "evict_any [] n m = m"
| "evict_any ((k, r) # xs) n m = (if n \<ge> per_shard_cap div 8 then m else evict_any xs (n + 1) (map_del k m))"

definition irrelevant :: "time \<Rightarrow> rep \<Rightarrow> bool" where
  "irrelevant now r \<longleftrightarrow> \<not> now < rp_jail r \<and> \<bar>rp_score r - neutral\<bar> < 12 / 100"

definition brain_evict :: "time \<Rightarrow> rep_shard \<Rightarrow> rep_shard" where
  "brain_evict now m =
     (let m = filter (\<lambda>(k, r). \<not> irrelevant now r) m in
      if length m < per_shard_cap then m
      else (let (n, m) = evict_stale now m 0 m in evict_any m n m))"

definition sentence_of :: "nat \<Rightarrow> dur" where
  "sentence_of offenses = (let ttl = dur_shl base_jail (offenses - 1) in if ttl > max_jail then max_jail else ttl)"

text \<open>What Observe does to the record of its key: the record, whether it was pardoned and whether it was jailed.\<close>

definition observe_rep :: "(dur \<Rightarrow> rat) \<Rightarrow> time \<Rightarrow> rat \<Rightarrow> rep \<Rightarrow> rep \<times> bool \<times> bool" where
  "observe_rep f now delta r =
     (let r = decay_rep f now r; s = rp_score r + delta; s = (if s > 1 then 1 else s); s = (if s < 0 then 0 else s);
          r = r\<lparr>rp_score := s\<rparr>;
          pardon = (delta > 0 \<and> now < rp_jail r \<and> s \<ge> release_score);
          r = (if pardon then r\<lparr>rp_jail := zero_time\<rparr> else r);
          jail = (delta < 0 \<and> s < jail_below \<and> \<not> now < rp_jail r)
      in if jail then
           (let off = (if rp_offenses r < max_offenses then rp_offenses r + 1 else rp_offenses r)
            in (r\<lparr>rp_offenses := off, rp_jail := now + sentence_of off, rp_score := release_score\<rparr>, pardon, True))
         else (r, pardon, False))"

definition brain_observe :: "(dur \<Rightarrow> rat) \<Rightarrow> time \<Rightarrow> string \<Rightarrow> rat \<Rightarrow> brain \<Rightarrow> brain" where
  "brain_observe f now key delta b =
     (if key = [] \<or> delta = 0 then b
      else (let i = brain_shard key; m = bn_shards b ! i in
            if map_get m key = None \<and> delta > 0 then b
            else (let (m, r) = (case map_get m key of
                                  Some r \<Rightarrow> (m, r)
                                | None \<Rightarrow> (if length m \<ge> per_shard_cap then brain_evict now m else m,
                                           \<lparr>rp_score = neutral, rp_updated = now, rp_jail = zero_time, rp_offenses = 0\<rparr>));
                      (r, pardon, jail) = observe_rep f now delta r
                  in \<lparr>bn_shards = (bn_shards b)[i := map_put key r m],
                      bn_jails = bn_jails b + of_bool jail, bn_redeems = bn_redeems b + of_bool pardon\<rparr>)))"

definition jailed :: "time \<Rightarrow> string \<Rightarrow> brain \<Rightarrow> bool" where
  "jailed now key b =
     (if key = [] then False
      else case map_get (bn_shards b ! brain_shard key) key of None \<Rightarrow> False | Some r \<Rightarrow> now < rp_jail r)"

definition standing :: "(dur \<Rightarrow> rat) \<Rightarrow> time \<Rightarrow> string \<Rightarrow> brain \<Rightarrow> rat \<times> brain" where
  "standing f now key b =
     (if key = [] then (neutral, b)
      else let i = brain_shard key; m = bn_shards b ! i in
        case map_get m key of
          None \<Rightarrow> (neutral, b)
        | Some r \<Rightarrow> (let r = decay_rep f now r in (rp_score r, b\<lparr>bn_shards := (bn_shards b)[i := map_put key r m]\<rparr>)))"

definition release_all :: "brain \<Rightarrow> nat \<times> brain" where
  "release_all b = (sum_list (map length (bn_shards b)), b\<lparr>bn_shards := map (\<lambda>_. []) (bn_shards b)\<rparr>)"

definition brain_stats :: "time \<Rightarrow> brain \<Rightarrow> nat \<times> nat \<times> int \<times> int" where
  "brain_stats now b =
     (sum_list (map length (bn_shards b)), sum_list (map (\<lambda>m. length (filter (\<lambda>(k, r). now < rp_jail r) m)) (bn_shards b)),
      bn_jails b, bn_redeems b)"

section \<open>Only suspects, and not for long\<close>

datatype brain_op = BObserve time string rat | BStanding time string | BRelease

fun brain_step :: "(dur \<Rightarrow> rat) \<Rightarrow> brain_op \<Rightarrow> brain \<Rightarrow> unit \<times> brain" where
  "brain_step f (BObserve t k d) b = ((), brain_observe f t k d b)"
| "brain_step f (BStanding t k) b = ((), snd (standing f t k b))"
| "brain_step f BRelease b = ((), snd (release_all b))"

text \<open>A record is sound for what was observed of its key: something bad, and a sentence of at most six hours from it.\<close>

definition jail_ok_for :: "(time \<times> string \<times> rat) set \<Rightarrow> string \<Rightarrow> time \<Rightarrow> bool" where
  "jail_ok_for obs k j \<longleftrightarrow> j = zero_time \<or> (\<exists>t d. (t, k, d) \<in> obs \<and> d < 0 \<and> j \<le> t + max_jail)"

definition rep_ok :: "(time \<times> string \<times> rat) set \<Rightarrow> string \<Rightarrow> rep \<Rightarrow> bool" where
  "rep_ok obs k r \<longleftrightarrow> rp_offenses r \<le> max_offenses \<and> (\<exists>t d. (t, k, d) \<in> obs \<and> d < 0) \<and> jail_ok_for obs k (rp_jail r)"

definition shard_ok :: "(time \<times> string \<times> rat) set \<Rightarrow> rep_shard \<Rightarrow> bool" where
  "shard_ok obs m \<longleftrightarrow> gomap_ok m \<and> length m \<le> per_shard_cap \<and> (\<forall>k r. (k, r) \<in> set m \<longrightarrow> rep_ok obs k r)"

definition brain_ok :: "(time \<times> string \<times> rat) set \<Rightarrow> brain \<Rightarrow> bool" where
  "brain_ok obs b \<longleftrightarrow> length (bn_shards b) = brain_shards \<and> (\<forall>m \<in> set (bn_shards b). shard_ok obs m)"

lemma brain_shard_less: "brain_shard k < brain_shards"
  by (simp add: brain_shard_def brain_shards_def)

lemma rep_ok_mono: "rep_ok obs k r \<Longrightarrow> obs \<subseteq> obs' \<Longrightarrow> rep_ok obs' k r"
  unfolding rep_ok_def jail_ok_for_def by blast

lemma shard_ok_mono: "shard_ok obs m \<Longrightarrow> obs \<subseteq> obs' \<Longrightarrow> shard_ok obs' m"
  unfolding shard_ok_def using rep_ok_mono by blast

lemma del_props: "gomap_ok m \<Longrightarrow> gomap_ok (map_del k m) \<and> set (map_del k m) \<subseteq> set m \<and> length (map_del k m) \<le> length m"
  using set_map_del [of k m] length_map_del_le [of k m] by auto

lemma evict_stale_props:
  "gomap_ok m \<Longrightarrow> gomap_ok (snd (evict_stale now xs n m)) \<and> set (snd (evict_stale now xs n m)) \<subseteq> set m
     \<and> length (snd (evict_stale now xs n m)) \<le> length m"
proof (induction now xs n m rule: evict_stale.induct)
  case (2 now k r xs n m)
  then show ?case using del_props [of m k] by (auto intro: order_trans)
qed simp

lemma evict_stale_less:
  "gomap_ok m \<Longrightarrow> set xs \<subseteq> set m \<Longrightarrow> evict_stale now xs n m = (n, m) \<or> length (snd (evict_stale now xs n m)) < length m"
proof (induction now xs n m rule: evict_stale.induct)
  case (2 now k r xs n m)
  show ?case
  proof (cases "n \<ge> per_shard_cap div 8 \<or> \<not> time_sub now (rp_updated r) > half_life")
    case False
    have "length (map_del k m) < length m" using 2(4) by (intro length_del_less [of k r]) auto
    then show ?thesis using False evict_stale_props [of "map_del k m" now xs "n + 1"] del_props [of m k] 2(3) by auto
  qed (use 2 in auto)
qed simp

lemma evict_any_props:
  "gomap_ok m \<Longrightarrow> gomap_ok (evict_any xs n m) \<and> set (evict_any xs n m) \<subseteq> set m \<and> length (evict_any xs n m) \<le> length m"
proof (induction xs n m rule: evict_any.induct)
  case (2 k r xs n m)
  then show ?case using del_props [of m k] by (auto intro: order_trans)
qed simp

lemma evict_any_less: "gomap_ok m \<Longrightarrow> m \<noteq> [] \<Longrightarrow> n < per_shard_cap div 8 \<Longrightarrow> length (evict_any m n m) < length m"
proof (cases m)
  case (Cons x xs)
  assume a: "gomap_ok m" "n < per_shard_cap div 8"
  obtain k r where x: "x = (k, r)" by (cases x)
  have "length (map_del k m) < length m" by (rule length_del_less [of k r]) (simp add: Cons x)
  moreover have "evict_any m n m = evict_any xs (n + 1) (map_del k m)" using a(2) Cons x by (metis evict_any.simps(2) linorder_not_le)
  ultimately show ?thesis using evict_any_props [of "map_del k m" xs "n + 1"] del_props [OF a(1), of k] by auto
qed simp

lemma brain_evict_room:
  assumes "gomap_ok m" "length m \<le> per_shard_cap"
  shows "gomap_ok (brain_evict now m) \<and> set (brain_evict now m) \<subseteq> set m \<and> length (brain_evict now m) < per_shard_cap"
proof -
  define l where "l = filter (\<lambda>(k, r). \<not> irrelevant now r) m"
  have l: "gomap_ok l" "set l \<subseteq> set m" "length l \<le> per_shard_cap"
    using assms by (auto simp: l_def intro: order_trans [OF length_filter_le])
  obtain n l' where st: "evict_stale now l 0 l = (n, l')" by fastforce
  have l': "gomap_ok l'" "set l' \<subseteq> set l" "length l' \<le> length l" "(n, l') = (0, l) \<or> length l' < length l"
    using evict_stale_props [OF l(1), of now l 0] evict_stale_less [OF l(1), of l now 0] st by auto
  have ev: "brain_evict now m = (if length l < per_shard_cap then l else evict_any l' n l')"
    by (simp add: brain_evict_def Let_def st flip: l_def)
  have "length (evict_any l' n l') < per_shard_cap" if "length l = per_shard_cap"
    using l'(4)
  proof
    assume "(n, l') = (0, l)"
    moreover have "l \<noteq> []" using that by (auto simp: per_shard_cap_def)
    ultimately show ?thesis using evict_any_less [OF l(1), of 0] that by (simp add: per_shard_cap_def)
  qed (use evict_any_props [OF l'(1), of l' n] l(3) in auto)
  then show ?thesis using l l' evict_any_props [OF l'(1), of l' n] by (auto simp: ev)
qed

lemma sentence_bounds: "o' \<le> max_offenses \<Longrightarrow> 0 < sentence_of o' \<and> sentence_of o' \<le> max_jail"
proof -
  assume "o' \<le> max_offenses"
  then have "o' \<in> set [0..<13]" by (simp add: max_offenses_def)
  moreover have "list_all (\<lambda>o'. 0 < sentence_of o' \<and> sentence_of o' \<le> max_jail) [0..<13]" by code_simp
  ultimately show ?thesis by (auto simp: list_all_iff)
qed

lemma decay_rep_keeps [simp]: "rp_jail (decay_rep f now r) = rp_jail r" "rp_offenses (decay_rep f now r) = rp_offenses r"
  by (simp_all add: decay_rep_def Let_def)

lemma observe_rep_cases:
  "rp_jail (fst (observe_rep f now d r)) \<in> {rp_jail r, zero_time}
     \<and> rp_offenses (fst (observe_rep f now d r)) = rp_offenses r
   \<or> d < 0 \<and> (\<exists>n \<le> max (rp_offenses r) max_offenses. rp_jail (fst (observe_rep f now d r)) = now + sentence_of n
     \<and> rp_offenses (fst (observe_rep f now d r)) = n \<and> n \<le> max (rp_offenses r) max_offenses)"
  by (auto simp: observe_rep_def Let_def)

lemma observe_rep_ok:
  assumes "rep_ok obs k r \<or> d < 0 \<and> rp_jail r = zero_time \<and> rp_offenses r = 0"
  shows "rep_ok (insert (now, k, d) obs) k (fst (observe_rep f now d r))"
proof -
  let ?r = "fst (observe_rep f now d r)" and ?obs = "insert (now, k, d) obs"
  have off: "rp_offenses r \<le> max_offenses" and bad: "\<exists>t d. (t, k, d) \<in> ?obs \<and> d < 0"
    and jail: "jail_ok_for ?obs k (rp_jail r)" "jail_ok_for ?obs k zero_time"
    using assms by (auto simp: rep_ok_def jail_ok_for_def)
  have "rp_offenses ?r \<le> max_offenses \<and> jail_ok_for ?obs k (rp_jail ?r)"
    using observe_rep_cases [of f now d r]
  proof (elim disjE conjE exE)
    fix n
    assume d: "d < 0" and n: "rp_jail ?r = now + sentence_of n" "rp_offenses ?r = n" "n \<le> max (rp_offenses r) max_offenses"
    with off have "n \<le> max_offenses" by simp
    moreover from this have "jail_ok_for ?obs k (now + sentence_of n)"
      using sentence_bounds [of n] d unfolding jail_ok_for_def by (intro disjI2 exI [of _ now] exI [of _ d]) simp
    ultimately show ?thesis using n by simp
  qed (use off jail in auto)
  with bad show ?thesis by (simp add: rep_ok_def)
qed

lemma brain_okD: "brain_ok obs b \<Longrightarrow> i < brain_shards \<Longrightarrow> shard_ok obs (bn_shards b ! i)"
  by (simp add: brain_ok_def)

lemma brain_ok_mono: "brain_ok obs b \<Longrightarrow> obs \<subseteq> obs' \<Longrightarrow> brain_ok obs' b"
  unfolding brain_ok_def using shard_ok_mono by blast

lemma brain_ok_update:
  "brain_ok obs b \<Longrightarrow> shard_ok obs m \<Longrightarrow> bn_shards b' = (bn_shards b)[i := m] \<Longrightarrow> brain_ok obs b'"
  using set_update_subset_insert [of "bn_shards b" i m] unfolding brain_ok_def by auto

lemma put_in_shard:
  assumes "shard_ok obs m" "length m < per_shard_cap \<or> map_get m k \<noteq> None" "rep_ok obs k r"
  shows "shard_ok obs (map_put k r m)"
proof -
  have "length (map_put k r m) \<le> per_shard_cap"
    using assms(1,2) length_map_put [of k r m] length_map_put_le [of k r m] by (auto simp: shard_ok_def)
  then show ?thesis using assms(1,3) unfolding shard_ok_def by (metis gomap_ok_put in_map_putD prod.inject)
qed

lemma evicted_shard: "shard_ok obs m \<Longrightarrow> shard_ok obs (brain_evict now m) \<and> length (brain_evict now m) < per_shard_cap"
  using brain_evict_room [of m now] unfolding shard_ok_def by auto

lemma observe_ok:
  assumes ok: "brain_ok obs b"
  shows "brain_ok (insert (now, k, d) obs) (brain_observe f now k d b)"
proof -
  let ?obs = "insert (now, k, d) obs" and ?i = "brain_shard k"
  let ?m = "bn_shards b ! ?i" and ?new = "\<lparr>rp_score = neutral, rp_updated = now, rp_jail = zero_time, rp_offenses = 0\<rparr>"
  have ok': "brain_ok ?obs b" by (rule brain_ok_mono [OF ok]) auto
  note m = brain_okD [OF ok brain_shard_less [of k]] and m' = brain_okD [OF ok' brain_shard_less [of k]]
  show ?thesis
  proof (cases "k = [] \<or> d = 0 \<or> map_get ?m k = None \<and> d > 0")
    case True
    then show ?thesis using ok' by (auto simp: brain_observe_def Let_def)
  next
    case False
    define l where "l = (if map_get ?m k = None \<and> length ?m \<ge> per_shard_cap then brain_evict now ?m else ?m)"
    define r where "r = (case map_get ?m k of Some r \<Rightarrow> r | None \<Rightarrow> ?new)"
    have "rep_ok obs k r \<or> d < 0 \<and> rp_jail r = zero_time \<and> rp_offenses r = 0"
      using False m map_get_Some_in_set [of ?m k] by (auto simp: r_def shard_ok_def split: option.splits)
    note r = observe_rep_ok [OF this, of now f]
    have "shard_ok ?obs l" "length l < per_shard_cap \<or> map_get l k \<noteq> None"
      using m' evicted_shard [OF m', of now] by (auto simp: l_def)
    note put = put_in_shard [OF this r]
    have "bn_shards (brain_observe f now k d b) = (bn_shards b)[?i := map_put k (fst (observe_rep f now d r)) l]"
      using False by (auto simp: brain_observe_def Let_def r_def l_def case_prod_beta split: option.splits)
    then show ?thesis by (rule brain_ok_update [OF ok' put])
  qed
qed

lemma standing_ok:
  assumes ok: "brain_ok obs b"
  shows "brain_ok obs (snd (standing f now k b))"
proof (cases "k \<noteq> [] \<and> map_get (bn_shards b ! brain_shard k) k \<noteq> None")
  case True
  then obtain r where r: "k \<noteq> []" "map_get (bn_shards b ! brain_shard k) k = Some r" by auto
  note m = brain_okD [OF ok brain_shard_less [of k]]
  have "rep_ok obs k (decay_rep f now r)" using m map_get_Some_in_set [OF r(2)] by (auto simp: shard_ok_def rep_ok_def)
  with put_in_shard [OF m] r show ?thesis by (intro brain_ok_update [OF ok]) (auto simp: standing_def Let_def)
qed (use ok in \<open>auto simp: standing_def Let_def\<close>)

definition observed :: "brain_op list \<Rightarrow> (time \<times> string \<times> rat) set" where
  "observed ops = {(t, k, d). BObserve t k d \<in> set ops}"

lemma brain_run_ok: "brain_ok obs b \<Longrightarrow> brain_ok (obs \<union> observed ops) (snd (run_ops (brain_step f) ops b))"
proof (induction ops arbitrary: obs b)
  case Nil
  have "observed [] = {}" by (auto simp: observed_def)
  with Nil show ?case by simp
next
  case (Cons x ops)
  show ?case
  proof (cases x)
    case (BObserve t k d)
    have "insert (t, k, d) obs \<union> observed ops = obs \<union> observed (x # ops)" by (auto simp: observed_def BObserve)
    with Cons.IH [OF observe_ok [OF Cons.prems, of t k d f]] show ?thesis by (simp add: BObserve)
  next
    case (BStanding t k)
    have "observed (x # ops) = observed ops" by (auto simp: observed_def BStanding)
    with Cons.IH [OF standing_ok [OF Cons.prems, of f t k]] show ?thesis by (simp add: BStanding)
  next
    case BRelease
    have "observed (x # ops) = observed ops" by (auto simp: observed_def BRelease)
    moreover have "brain_ok obs (snd (release_all b))" using Cons.prems by (auto simp: brain_ok_def release_all_def shard_ok_def)
    ultimately show ?thesis using Cons.IH by (simp add: BRelease)
  qed
qed

text \<open>
  C33. Only those who misbehaved are tracked, and no one is punished for ever. After any observations, readings of a standing and
  amnesties: a source that is in the table, or in jail, has had a negative signal of its own; a source in jail had it less than six hours
  before, whatever its record; and no shard holds more than its 1024 sources.
\<close>

theorem only_suspects_punished:
  assumes b: "b = snd (run_ops (brain_step f) ops new_brain)" and now: "zero_time \<le> now"
  shows "(jailed now k b \<longrightarrow> (\<exists>t d. BObserve t k d \<in> set ops \<and> d < 0 \<and> now < t + max_jail))
    \<and> (map_get (bn_shards b ! brain_shard k) k \<noteq> None \<longrightarrow> (\<exists>t d. BObserve t k d \<in> set ops \<and> d < 0))
    \<and> (\<forall>m \<in> set (bn_shards b). length m \<le> per_shard_cap)"
proof -
  have "brain_ok {} new_brain" by (auto simp: brain_ok_def new_brain_def shard_ok_def)
  from brain_run_ok [OF this, of ops f] have ok: "brain_ok (observed ops) b" by (simp add: b)
  have rep: "rep_ok (observed ops) k r" if "map_get (bn_shards b ! brain_shard k) k = Some r" for r
    using brain_okD [OF ok brain_shard_less [of k]] map_get_Some_in_set [OF that] by (auto simp: shard_ok_def)
  have "\<exists>t d. BObserve t k d \<in> set ops \<and> d < 0 \<and> now < t + max_jail" if "jailed now k b"
    using that rep now by (fastforce simp: jailed_def rep_ok_def jail_ok_for_def observed_def split: if_splits option.splits)
  moreover have "\<exists>t d. BObserve t k d \<in> set ops \<and> d < 0" if "map_get (bn_shards b ! brain_shard k) k \<noteq> None"
    using that rep by (auto simp: rep_ok_def observed_def)
  ultimately show ?thesis using ok by (auto simp: brain_ok_def shard_ok_def)
qed

lemma observe_get:
  assumes "length (bn_shards b) = brain_shards" "k \<noteq> []" "d < 0"
  shows "map_get (bn_shards (brain_observe f t k d b) ! brain_shard k) k
    = Some (fst (observe_rep f t d (case map_get (bn_shards b ! brain_shard k) k of
        Some r \<Rightarrow> r | None \<Rightarrow> \<lparr>rp_score = neutral, rp_updated = t, rp_jail = zero_time, rp_offenses = 0\<rparr>)))"
  using assms brain_shard_less [of k]
  by (auto simp: brain_observe_def Let_def case_prod_beta gomap_simps split: option.splits)

lemma observe_shards [simp]: "length (bn_shards (brain_observe f t k d b)) = length (bn_shards b)"
  by (auto simp: brain_observe_def Let_def case_prod_beta split: option.split)

theorem only_suspects_punished_witness:
  "\<exists>t d. BObserve t ''a'' d \<in> set [BObserve 0 ''a'' signal_block, BObserve 0 ''a'' signal_block] \<and> d < 0 \<and> minute < t + max_jail"
proof -
  let ?ops = "[BObserve 0 ''a'' signal_block, BObserve 0 ''a'' signal_block]"
  have "sentence_of 1 = 5 * minute" by code_simp
  then have "jailed minute ''a'' (snd (run_ops (brain_step (\<lambda>_. 1)) ?ops new_brain))"
    by (simp add: jailed_def observe_get new_brain_def signal_block_def observe_rep_def decay_rep_def neutral_def release_score_def
        jail_below_def max_offenses_def Let_def time_sub_def zero_time_def brain_shard_less dur_defs)
  moreover have "zero_time \<le> minute" by (simp add: zero_time_def dur_defs)
  ultimately show ?thesis using only_suspects_punished [of _ "\<lambda>_. 1" ?ops minute "''a''"] by blast
qed

text \<open>
  A sentence leaves the score at the standing of a release, so that any positive signal, not only a solved
  challenge, lifts it at once.
\<close>

lemma any_positive_signal_pardons:
  assumes r: "rp_score r = release_score" "t < rp_jail r" and t: "rp_updated r \<le> t" and d: "0 < d" and f: "\<And>x. 0 \<le> f x \<and> f x \<le> 1"
  shows "rp_jail (fst (observe_rep f t d r)) = zero_time"
proof -
  have "(release_score - neutral) * f x \<ge> release_score - neutral" for x
    using mult_left_mono_neg [of "f x" 1 "release_score - neutral"] f [of x] by (simp add: release_score_def neutral_def)
  then have "release_score \<le> rp_score (decay_rep f t r)" using r(1) by (simp add: decay_rep_def Let_def algebra_simps)
  with d r(2) show ?thesis by (auto simp: observe_rep_def Let_def release_score_def)
qed

end
