(* ===== verification/Calibrate.thy ===== *)
theory Calibrate
  imports Challenge Machine Complex_Main
begin

text \<open>
  The feedback controller of the challenge thresholds (src/internal/vayushield/calibrate/calibrate.go). The bias and
  the rates are exact rationals. The calls follow one another, so that the compare-and-swap of rotate
  succeeds; the set of solvers is a list without repetitions.
\<close>

section \<open>The calibrator\<close>

definition calib_window :: int where "calib_window = 600"
definition min_sample :: int where "min_sample = 20"
definition calib_step :: rat where "calib_step = 5 / 100"
definition drift :: rat where "drift = 1 / 100"
definition max_bias :: rat where "max_bias = 20 / 100"
definition loosen_at :: rat where "loosen_at = 90 / 100"
definition restore_at :: rat where "restore_at = 50 / 100"
definition min_distinct :: nat where "min_distinct = 8"
definition distinct_cap :: nat where "distinct_cap = 512"

record calibrator =
  cb_served :: int
  cb_passed :: int
  cb_qualified :: int
  cb_epoch :: int
  cb_bias :: rat
  cb_solvers :: "string list"

definition new_calibrator :: calibrator where
  "new_calibrator = \<lparr>cb_served = 0, cb_passed = 0, cb_qualified = 0, cb_epoch = 0, cb_bias = 0, cb_solvers = []\<rparr>"

definition folded_bias :: "calibrator \<Rightarrow> rat" where
  "folded_bias c =
     (let bias = (if cb_served c < min_sample then cb_bias c - drift
                  else if of_int (cb_qualified c) / of_int (cb_served c) \<ge> loosen_at \<and> length (cb_solvers c) \<ge> min_distinct
                  then cb_bias c + calib_step
                  else if of_int (cb_passed c) / of_int (cb_served c) \<le> restore_at then cb_bias c - calib_step
                  else cb_bias c);
          bias = (if bias < 0 then 0 else bias)
      in if bias > max_bias then max_bias else bias)"

definition rotate_calib :: "time \<Rightarrow> calibrator \<Rightarrow> calibrator" where
  "rotate_calib now c =
     (let e = go_quot (unix now) calib_window in
      if cb_epoch c = e then c
      else \<lparr>cb_served = 0, cb_passed = 0, cb_qualified = 0, cb_epoch = e, cb_bias = folded_bias c, cb_solvers = []\<rparr>)"

definition calib_served :: "time \<Rightarrow> calibrator \<Rightarrow> calibrator" where
  "calib_served now c = (let c = rotate_calib now c in c\<lparr>cb_served := cb_served c + 1\<rparr>)"

definition calib_passed :: "time \<Rightarrow> bool \<Rightarrow> string \<Rightarrow> calibrator \<Rightarrow> calibrator" where
  "calib_passed now qualified key c =
     (let c = rotate_calib now c; c = c\<lparr>cb_passed := cb_passed c + 1\<rparr> in
      if \<not> qualified then c
      else (let c = c\<lparr>cb_qualified := cb_qualified c + 1\<rparr> in
            if key = [] then c
            else if length (cb_solvers c) < distinct_cap then c\<lparr>cb_solvers := List.insert key (cb_solvers c)\<rparr>
            else c))"

definition calib_bias :: "time \<Rightarrow> calibrator \<Rightarrow> rat \<times> calibrator" where
  "calib_bias now c = (let c = rotate_calib now c in (cb_bias c, c))"

definition calib_snapshot :: "calibrator \<Rightarrow> int \<times> int \<times> rat" where
  "calib_snapshot c = (cb_served c, cb_passed c, cb_bias c)"

section \<open>Loosening\<close>

datatype calib_op = CServed time | CPassed time bool string | CBias time

fun calib_run_step :: "calib_op \<Rightarrow> calibrator \<Rightarrow> rat \<times> calibrator" where
  "calib_run_step (CServed t) c = (0, calib_served t c)"
| "calib_run_step (CPassed t q k) c = (0, calib_passed t q k c)"
| "calib_run_step (CBias t) c = calib_bias t c"

definition qualified_keys :: "calib_op list \<Rightarrow> string set" where
  "qualified_keys ops = {k. k \<noteq> [] \<and> (\<exists>t. CPassed t True k \<in> set ops)}"

text \<open>The solvers are among \<open>K\<close>; a bias that is not zero needs enough of them.\<close>

definition calib_ok :: "string set \<Rightarrow> calibrator \<Rightarrow> bool" where
  "calib_ok K c \<longleftrightarrow> 0 \<le> cb_bias c \<and> cb_bias c \<le> max_bias \<and> distinct (cb_solvers c) \<and> set (cb_solvers c) \<subseteq> K
     \<and> length (cb_solvers c) \<le> distinct_cap \<and> (card K < min_distinct \<longrightarrow> cb_bias c = 0)"

lemma folded_bias_range: "0 \<le> folded_bias c \<and> folded_bias c \<le> max_bias"
  by (simp add: folded_bias_def Let_def max_bias_def)

lemma few_solvers:
  assumes "finite K" "calib_ok K c" "card K < min_distinct"
  shows "\<not> length (cb_solvers c) \<ge> min_distinct"
proof -
  have "length (cb_solvers c) = card (set (cb_solvers c))" using assms(2) by (simp add: calib_ok_def distinct_card)
  also have "\<dots> \<le> card K" using assms(1,2) by (intro card_mono) (auto simp: calib_ok_def)
  finally show ?thesis using assms(3) by simp
qed

lemma rotate_ok:
  assumes "finite K" "calib_ok K c"
  shows "calib_ok K (rotate_calib t c)"
proof -
  have "folded_bias c = 0" if "card K < min_distinct"
    using few_solvers [OF assms that] assms(2) that by (auto simp: folded_bias_def Let_def calib_ok_def drift_def calib_step_def max_bias_def)
  then show ?thesis using assms(2) folded_bias_range [of c] by (auto simp: rotate_calib_def Let_def calib_ok_def)
qed

lemma calib_step_ok:
  assumes "finite K" "calib_ok K c" "qualified_keys [x] \<subseteq> K"
  shows "calib_ok K (snd (calib_run_step x c))"
proof (cases x)
  case (CServed t)
  then show ?thesis using rotate_ok [OF assms(1,2), of t] by (simp add: calib_served_def Let_def calib_ok_def)
next
  case (CPassed t q k)
  then show ?thesis using rotate_ok [OF assms(1,2), of t] assms(3)
    by (auto simp: calib_passed_def Let_def calib_ok_def qualified_keys_def List.insert_def distinct_cap_def)
next
  case (CBias t)
  then show ?thesis using rotate_ok [OF assms(1,2), of t] by (simp add: calib_bias_def Let_def)
qed

lemma calib_run_ok:
  "finite K \<Longrightarrow> calib_ok K c \<Longrightarrow> qualified_keys ops \<subseteq> K \<Longrightarrow> calib_ok K (snd (run_ops calib_run_step ops c))"
proof (induction ops arbitrary: c)
  case (Cons x ops)
  have "qualified_keys [x] \<subseteq> K" "qualified_keys ops \<subseteq> K" using Cons.prems(3) by (auto simp: qualified_keys_def)
  with Cons show ?case by (auto intro: calib_step_ok)
qed simp

lemma finite_qualified: "finite (qualified_keys ops)"
proof (rule finite_subset)
  show "qualified_keys ops \<subseteq> (\<lambda>x. case x of CPassed t q k \<Rightarrow> k | _ \<Rightarrow> []) ` set ops"
    by (force simp: qualified_keys_def)
qed simp

text \<open>
  A small farm of solvers never moves the thresholds. Whatever challenges are served and solved, in
  whatever windows, the bias stays between zero and a fifth. With fewer than eight different qualified
  solvers it stays zero. And a window that closes raises it by at most a twentieth, and only when at least twenty challenges
  were served, nine of ten were solved by qualified solvers, and eight different ones solved.
\<close>

theorem small_farm_never_loosens:
  fixes ops c t
  defines "c \<equiv> snd (run_ops calib_run_step ops new_calibrator)"
  shows "0 \<le> cb_bias c \<and> cb_bias c \<le> max_bias
    \<and> (card (qualified_keys ops) < min_distinct \<longrightarrow> cb_bias c = 0)
    \<and> (cb_bias c < cb_bias (rotate_calib t c) \<longrightarrow> cb_bias (rotate_calib t c) \<le> cb_bias c + 1 / 20
         \<and> 20 \<le> cb_served c \<and> 9 * cb_served c \<le> 10 * cb_qualified c \<and> 8 \<le> card (set (cb_solvers c)))"
proof -
  have "calib_ok (qualified_keys ops) new_calibrator" by (simp add: calib_ok_def new_calibrator_def max_bias_def)
  from calib_run_ok [OF finite_qualified this subset_refl] have ok: "calib_ok (qualified_keys ops) c" by (simp add: c_def)
  have "cb_bias (rotate_calib t c) \<le> cb_bias c + 1 / 20 \<and> 20 \<le> cb_served c \<and> 9 * cb_served c \<le> 10 * cb_qualified c
      \<and> 8 \<le> card (set (cb_solvers c))" if up: "cb_bias c < cb_bias (rotate_calib t c)"
  proof -
    from up have b: "cb_bias c < folded_bias c" "cb_bias (rotate_calib t c) = folded_bias c"
      by (auto simp: rotate_calib_def Let_def split: if_splits)
    with ok have big: "cb_served c \<ge> min_sample" and rate: "of_int (cb_qualified c) / of_int (cb_served c) \<ge> loosen_at"
      and many: "length (cb_solvers c) \<ge> min_distinct"
      by (auto simp: folded_bias_def Let_def calib_ok_def drift_def calib_step_def max_bias_def split: if_splits)
    have "(9 * of_int (cb_served c) :: rat) \<le> 10 * of_int (cb_qualified c)"
      using rate big by (simp add: loosen_at_def min_sample_def field_simps)
    then have "9 * cb_served c \<le> 10 * cb_qualified c" by (simp flip: of_int_le_iff [where 'a = rat])
    moreover have "folded_bias c \<le> cb_bias c + 1 / 20"
      using ok by (auto simp: folded_bias_def Let_def calib_ok_def drift_def calib_step_def)
    moreover have "card (set (cb_solvers c)) = length (cb_solvers c)" using ok by (simp add: calib_ok_def distinct_card)
    ultimately show ?thesis using big many b(2) by (simp add: min_sample_def min_distinct_def)
  qed
  then show ?thesis using ok by (auto simp: calib_ok_def)
qed

theorem small_farm_never_loosens_witness:
  "cb_bias (snd (run_ops calib_run_step [CServed 0, CPassed second True ''a'', CPassed minute True ''b'', CBias hour] new_calibrator)) = 0"
proof -
  let ?ops = "[CServed 0, CPassed second True ''a'', CPassed minute True ''b'', CBias hour]"
  have "qualified_keys ?ops = {''a'', ''b''}" by (auto simp: qualified_keys_def)
  then have "card (qualified_keys ?ops) < min_distinct" by (simp add: min_distinct_def)
  then show ?thesis using small_farm_never_loosens [of ?ops] by blast
qed

end
