(* ===== verification/Sig_Cache.thy ===== *)
theory Sig_Cache
  imports Redeem
begin

text \<open>
  The cache in front of the signature database (src/internal/vayushield/sigcache/sigcache.go): what the last lookup of a
  fingerprint found, for a short time. A stored signature is a value of a type variable. A range
  loop visits a map in the order of its list.
\<close>

section \<open>The cache\<close>

definition cache_shards :: nat where "cache_shards = 256"
definition cache_shard_cap :: nat where "cache_shard_cap = 1024"

record 'v cache_entry =
  ce_sig :: "'v option"
  ce_expires :: time

type_synonym 'v cache_map = "(string, 'v cache_entry) gomap"

record 'v sig_cache =
  sc_shards :: "'v cache_map list"
  sc_ttl :: dur
  sc_hits :: int
  sc_misses :: int

definition new_cache :: "dur \<Rightarrow> 'v sig_cache" where
  "new_cache ttl = \<lparr>sc_shards = replicate cache_shards [], sc_ttl = ttl, sc_hits = 0, sc_misses = 0\<rparr>"

definition cache_shard :: "string \<Rightarrow> nat" where
  "cache_shard key = unat (fnv64 14695981039346656037 key) mod cache_shards"

text \<open>Get: None on a miss; on a hit what was found.\<close>

definition cache_get :: "time \<Rightarrow> string \<Rightarrow> 'v sig_cache \<Rightarrow> 'v option option \<times> 'v sig_cache" where
  "cache_get now fph c =
     (if sc_ttl c \<le> 0 \<or> fph = [] then (None, c)
      else (let i = cache_shard fph; m = sc_shards c ! i in
            case map_get m fph of
              None \<Rightarrow> (None, c\<lparr>sc_misses := sc_misses c + 1\<rparr>)
            | Some e \<Rightarrow>
                if now > ce_expires e
                then (None, c\<lparr>sc_shards := (sc_shards c)[i := map_del fph m], sc_misses := sc_misses c + 1\<rparr>)
                else (Some (ce_sig e), c\<lparr>sc_hits := sc_hits c + 1\<rparr>)))"

fun drop_first :: "nat \<Rightarrow> (string \<times> 'v cache_entry) list \<Rightarrow> 'v cache_map \<Rightarrow> 'v cache_map" where
  "drop_first n [] m = m"
| "drop_first n ((k, e) # xs) m =
     (let m = map_del k m in if n + 1 \<ge> cache_shard_cap div 8 + 1 then m else drop_first (n + 1) xs m)"

definition cache_evict :: "time \<Rightarrow> 'v cache_map \<Rightarrow> 'v cache_map" where
  "cache_evict now m =
     (let m = filter (\<lambda>(k, e). \<not> now > ce_expires e) m in
      if length m < cache_shard_cap then m else drop_first 0 m m)"

definition cache_put :: "time \<Rightarrow> string \<Rightarrow> 'v option \<Rightarrow> bool \<Rightarrow> 'v sig_cache \<Rightarrow> 'v sig_cache" where
  "cache_put now fph sig found c =
     (if sc_ttl c \<le> 0 \<or> fph = [] then c
      else (let i = cache_shard fph; m = sc_shards c ! i;
                e = \<lparr>ce_sig = (if found then sig else None), ce_expires = now + sc_ttl c\<rparr>;
                m = (if map_get m fph = None \<and> length m \<ge> cache_shard_cap then cache_evict now m else m)
            in c\<lparr>sc_shards := (sc_shards c)[i := map_put fph e m]\<rparr>))"

definition cache_forget :: "string \<Rightarrow> 'v sig_cache \<Rightarrow> 'v sig_cache" where
  "cache_forget fph c =
     (if fph = [] then c
      else (let i = cache_shard fph in c\<lparr>sc_shards := (sc_shards c)[i := map_del fph (sc_shards c ! i)]\<rparr>))"

definition cache_clear :: "'v sig_cache \<Rightarrow> 'v sig_cache" where
  "cache_clear c = c\<lparr>sc_shards := map (\<lambda>_. []) (sc_shards c)\<rparr>"

definition cache_len :: "'v sig_cache \<Rightarrow> nat" where
  "cache_len c = sum_list (map length (sc_shards c))"

section \<open>What a hit means\<close>

datatype 'v cache_op = CGet time string | CPut time string "'v option" bool | CForget string | CClear

fun cache_step :: "'v cache_op \<Rightarrow> 'v sig_cache \<Rightarrow> 'v option option \<times> 'v sig_cache" where
  "cache_step (CGet t k) c = cache_get t k c"
| "cache_step (CPut t k v found) c = (None, cache_put t k v found c)"
| "cache_step (CForget k) c = (None, cache_forget k c)"
| "cache_step CClear c = (None, cache_clear c)"

text \<open>The last lookup of a fingerprint since it was forgotten: what it found and when it was put.\<close>

fun jot :: "string \<Rightarrow> 'v cache_op \<Rightarrow> ('v option \<times> time) option \<Rightarrow> ('v option \<times> time) option" where
  "jot k (CGet t k') l = l"
| "jot k (CPut t k' v found) l = (if k' = k then Some (if found then v else None, t) else l)"
| "jot k (CForget k') l = (if k' = k then None else l)"
| "jot k CClear l = None"

definition last_lookup :: "string \<Rightarrow> 'v cache_op list \<Rightarrow> ('v option \<times> time) option" where
  "last_lookup k ops = fold (jot k) ops None"

definition entry_ok :: "dur \<Rightarrow> ('v option \<times> time) option \<Rightarrow> 'v cache_entry \<Rightarrow> bool" where
  "entry_ok ttl l e \<longleftrightarrow> (\<exists>t. l = Some (ce_sig e, t) \<and> ce_expires e = t + ttl)"

definition cache_ok :: "dur \<Rightarrow> (string \<Rightarrow> ('v option \<times> time) option) \<Rightarrow> 'v sig_cache \<Rightarrow> bool" where
  "cache_ok ttl L c \<longleftrightarrow> sc_ttl c = ttl \<and> length (sc_shards c) = cache_shards
     \<and> (\<forall>m \<in> set (sc_shards c). gomap_ok m \<and> length m \<le> cache_shard_cap)
     \<and> (\<forall>k e. k \<noteq> [] \<longrightarrow> map_get (sc_shards c ! cache_shard k) k = Some e \<longrightarrow> entry_ok ttl (L k) e)"

lemma cache_shard_less: "cache_shard k < cache_shards"
  by (simp add: cache_shard_def cache_shards_def)

lemma drop_first_props: "gomap_ok m \<Longrightarrow> gomap_ok (drop_first n xs m) \<and> set (drop_first n xs m) \<subseteq> set m \<and> length (drop_first n xs m) \<le> length m"
proof (induction n xs m rule: drop_first.induct)
  case (2 n k e xs m)
  then show ?case using set_map_del [of k m] length_map_del_le [of k m] by (auto simp: Let_def intro: order_trans)
qed simp

lemma drop_first_less:
  assumes "gomap_ok m" "m \<noteq> []"
  shows "length (drop_first n m m) < length m"
proof -
  obtain k e xs where m: "m = (k, e) # xs" using assms(2) by (metis list.exhaust surj_pair)
  have "length (map_del k m) < length m" by (rule length_del_less [of k e]) (simp add: m)
  moreover have "gomap_ok (map_del k m)" using assms(1) by blast
  moreover have "drop_first n m m \<in> {map_del k m, drop_first (n + 1) xs (map_del k m)}"
    unfolding m by (simp only: drop_first.simps Let_def) simp
  ultimately show ?thesis using drop_first_props [of "map_del k m" "n + 1" xs] by auto
qed

lemma cache_evict_room:
  assumes "gomap_ok m" "length m \<le> cache_shard_cap"
  shows "gomap_ok (cache_evict now m)" "set (cache_evict now m) \<subseteq> set m" "length (cache_evict now m) < cache_shard_cap"
proof -
  define l where "l = filter (\<lambda>(k, e). \<not> now > ce_expires e) m"
  have l: "gomap_ok l" "set l \<subseteq> set m" "length l \<le> cache_shard_cap"
    using assms by (auto simp: l_def intro: order_trans [OF length_filter_le])
  have ev: "cache_evict now m = (if length l < cache_shard_cap then l else drop_first 0 l l)"
    by (simp add: cache_evict_def Let_def flip: l_def)
  have "length (drop_first 0 l l) < cache_shard_cap" if "\<not> length l < cache_shard_cap"
    using that drop_first_less [OF l(1), of 0] l(3) by (cases "l = []") (auto simp: cache_shard_cap_def)
  then show "gomap_ok (cache_evict now m)" "set (cache_evict now m) \<subseteq> set m" "length (cache_evict now m) < cache_shard_cap"
    using l drop_first_props [OF l(1), of 0 l] by (auto simp: ev)
qed

lemma cache_okI:
  assumes ok: "cache_ok ttl L c" and c': "sc_shards c' = (sc_shards c)[cache_shard k := m]" "sc_ttl c' = sc_ttl c"
    and m: "gomap_ok m" "length m \<le> cache_shard_cap"
    and L: "\<And>j. j \<noteq> k \<Longrightarrow> L' j = L j"
    and old: "\<And>j e. j \<noteq> k \<Longrightarrow> map_get m j = Some e \<Longrightarrow> map_get (sc_shards c ! cache_shard k) j = Some e"
    and new: "\<And>e. map_get m k = Some e \<Longrightarrow> entry_ok ttl (L' k) e"
  shows "cache_ok ttl L' c'"
proof -
  have len: "length (sc_shards c) = cache_shards" using ok by (simp add: cache_ok_def)
  have "entry_ok ttl (L' j) e" if "j \<noteq> []" "map_get (sc_shards c' ! cache_shard j) j = Some e" for j e
  proof (cases "j = k")
    case True
    then show ?thesis using that new cache_shard_less [of k] by (simp add: c' len)
  next
    case False
    then have "map_get (sc_shards c ! cache_shard j) j = Some e"
      using that old [OF False] cache_shard_less [of k] by (cases "cache_shard j = cache_shard k") (auto simp: c' len)
    then show ?thesis using ok L [OF False] \<open>j \<noteq> []\<close> by (auto simp: cache_ok_def)
  qed
  then show ?thesis using ok c' m set_update_subset_insert [of "sc_shards c" "cache_shard k" m] by (auto simp: cache_ok_def)
qed

lemma cache_okD: "cache_ok ttl L c \<Longrightarrow> gomap_ok (sc_shards c ! cache_shard k) \<and> length (sc_shards c ! cache_shard k) \<le> cache_shard_cap"
  using cache_shard_less [of k] by (auto simp: cache_ok_def)

lemma cache_put_ok:
  assumes ok: "cache_ok ttl L c" and k: "k \<noteq> []" "0 < ttl"
  shows "cache_ok ttl (\<lambda>j. jot j (CPut t k v found) (L j)) (cache_put t k v found c)"
proof -
  let ?m = "sc_shards c ! cache_shard k"
  define e where "e = \<lparr>ce_sig = (if found then v else None), ce_expires = t + sc_ttl c\<rparr>"
  define l where "l = (if map_get ?m k = None \<and> length ?m \<ge> cache_shard_cap then cache_evict t ?m else ?m)"
  note m = cache_okD [OF ok, of k]
  have ttl: "sc_ttl c = ttl" using ok by (simp add: cache_ok_def)
  have l: "gomap_ok l" "set l \<subseteq> set ?m" "length l < cache_shard_cap \<or> map_get l k \<noteq> None \<and> length l \<le> cache_shard_cap"
    using m cache_evict_room [of ?m t] by (auto simp: l_def)
  have len: "length (map_put k e l) \<le> cache_shard_cap"
    using l(1,3) length_map_put [of k e l] length_map_put_le [of k e l] by auto
  have kept: "map_get ?m j = Some e'" if "map_get l j = Some e'" for j e'
    using map_get_iff_in_set [of ?m j e'] m l(2) map_get_Some_in_set [OF that] by blast
  have sh: "sc_shards (cache_put t k v found c) = (sc_shards c)[cache_shard k := map_put k e l]"
    and ttl': "sc_ttl (cache_put t k v found c) = sc_ttl c"
    using k ttl by (auto simp: cache_put_def Let_def e_def l_def)
  show ?thesis
  proof (rule cache_okI [OF ok sh ttl' gomap_ok_put [OF l(1)] len])
    show "entry_ok ttl (jot k (CPut t k v found) (L k)) e'" if "map_get (map_put k e l) k = Some e'" for e'
      using that by (auto simp: gomap_simps entry_ok_def e_def ttl)
  next
    show "map_get ?m j = Some e'" if "j \<noteq> k" "map_get (map_put k e l) j = Some e'" for j e'
      using that kept by (simp add: gomap_simps)
  qed simp
qed

lemma cache_same: "cache_ok ttl L c \<Longrightarrow> (\<And>j. j \<noteq> [] \<Longrightarrow> L' j = L j) \<Longrightarrow> sc_shards c' = sc_shards c \<Longrightarrow> sc_ttl c' = sc_ttl c \<Longrightarrow> cache_ok ttl L' c'"
  by (simp add: cache_ok_def)

lemma cache_del_ok:
  assumes ok: "cache_ok ttl L c" and L: "\<And>j. j \<noteq> k \<Longrightarrow> L' j = L j"
    and c': "sc_shards c' = (sc_shards c)[cache_shard k := map_del k (sc_shards c ! cache_shard k)]" "sc_ttl c' = sc_ttl c"
  shows "cache_ok ttl L' c'"
  using cache_okD [OF ok, of k] length_map_del_le [of k "sc_shards c ! cache_shard k"] L
  by (intro cache_okI [OF ok c']) (auto simp: gomap_simps)

lemma cache_step_ok:
  assumes ok: "cache_ok ttl L c" and ttl: "0 < ttl"
  shows "cache_ok ttl (\<lambda>j. jot j x (L j)) (snd (cache_step x c))"
proof (cases x)
  case (CGet t k)
  let ?m = "sc_shards c ! cache_shard k"
  show ?thesis
  proof (cases "sc_ttl c \<le> 0 \<or> k = [] \<or> (case map_get ?m k of None \<Rightarrow> True | Some e \<Rightarrow> \<not> t > ce_expires e)")
    case True
    then show ?thesis by (intro cache_same [OF ok]) (auto simp: CGet cache_get_def Let_def split: option.splits)
  next
    case False
    then show ?thesis by (intro cache_del_ok [OF ok, of k]) (auto simp: CGet cache_get_def Let_def split: option.splits)
  qed
next
  case (CPut t k v found)
  show ?thesis
  proof (cases "k = []")
    case True
    then show ?thesis by (intro cache_same [OF ok]) (auto simp: CPut cache_put_def)
  next
    case False
    then show ?thesis using cache_put_ok [OF ok False ttl, of t v found] by (simp add: CPut)
  qed
next
  case (CForget k)
  show ?thesis
  proof (cases "k = []")
    case True
    then show ?thesis by (intro cache_same [OF ok]) (auto simp: CForget cache_forget_def)
  next
    case False
    then show ?thesis by (intro cache_del_ok [OF ok, of k]) (auto simp: CForget cache_forget_def Let_def)
  qed
next
  case CClear
  have "sc_shards (cache_clear c) ! cache_shard k = []" for k
    using ok cache_shard_less [of k] by (auto simp: cache_clear_def cache_ok_def)
  then show ?thesis using ok by (auto simp: CClear cache_ok_def) (auto simp: cache_clear_def)
qed

lemma cache_run_ok:
  "cache_ok ttl L c \<Longrightarrow> 0 < ttl \<Longrightarrow> cache_ok ttl (\<lambda>j. fold (jot j) ops (L j)) (snd (run_ops cache_step ops c))"
proof (induction ops arbitrary: L c)
  case (Cons x ops)
  show ?case using Cons.IH [OF cache_step_ok [OF Cons.prems, of x] Cons.prems(2)] by simp
qed simp

lemma new_cache_ok: "cache_ok ttl (\<lambda>_. None) (new_cache ttl)"
  using cache_shard_less by (auto simp: cache_ok_def new_cache_def)

text \<open>
  C39. The cache answers as the database did, and not for long. After any puts, gets and invalidations: when Get answers, its answer is what the
  last lookup of that fingerprint found, that lookup was not followed by Forget or Clear, and it is no older
  than the time to live, whatever was evicted; so a pardon takes effect at once. No shard holds more than 1024 entries.
\<close>

theorem cache_hit_is_last_lookup:
  assumes ttl: "0 < ttl"
  shows "(fst (cache_get t k (snd (run_ops cache_step ops (new_cache ttl)))) = Some v
      \<longrightarrow> (\<exists>t'. last_lookup k ops = Some (v, t') \<and> t \<le> t' + ttl))
    \<and> (\<forall>m \<in> set (sc_shards (snd (run_ops cache_step ops (new_cache ttl)))). length m \<le> cache_shard_cap)"
proof -
  let ?c = "snd (run_ops cache_step ops (new_cache ttl))"
  have ok: "cache_ok ttl (\<lambda>j. last_lookup j ops) ?c"
    using cache_run_ok [OF new_cache_ok ttl, of ops] by (simp add: last_lookup_def)
  have "\<exists>t'. last_lookup k ops = Some (v, t') \<and> t \<le> t' + ttl" if "fst (cache_get t k ?c) = Some v"
  proof -
    from that obtain e where e: "k \<noteq> []" "map_get (sc_shards ?c ! cache_shard k) k = Some e" "\<not> t > ce_expires e" "v = ce_sig e"
      by (auto simp: cache_get_def Let_def split: if_splits option.splits)
    with ok have "entry_ok ttl (last_lookup k ops) e" by (auto simp: cache_ok_def)
    with e show ?thesis by (auto simp: entry_ok_def)
  qed
  with ok show ?thesis by (auto simp: cache_ok_def)
qed

text \<open>What was put and not touched since is found, while it lives.\<close>

lemma put_then_get:
  assumes ok: "cache_ok ttl L c" and k: "k \<noteq> []" "0 < ttl" "t' \<le> t + ttl"
  shows "fst (cache_get t' k (cache_put t k v found c)) = Some (if found then v else None)"
  using assms cache_shard_less [of k]
  by (auto simp: cache_get_def cache_put_def Let_def cache_ok_def gomap_simps)

theorem cache_hit_is_last_lookup_witness:
  "\<exists>t'. last_lookup ''f'' [CForget ''f'', CPut 0 ''f'' (Some True) True] = Some (Some True, t') \<and> second \<le> t' + minute"
proof -
  let ?ops = "[CForget ''f'', CPut 0 ''f'' (Some True) True]"
  have "0 < minute" by (simp add: dur_defs)
  from cache_step_ok [OF new_cache_ok this, of "CForget ''f''"]
  have "cache_ok minute (\<lambda>j. jot j (CForget ''f'') None) (cache_forget ''f'' (new_cache minute :: bool sig_cache))" by simp
  from put_then_get [OF this, of "''f''" second 0 "Some True" True]
  have "fst (cache_get second ''f'' (snd (run_ops cache_step ?ops (new_cache minute)))) = Some (Some True)"
    by (simp add: dur_defs)
  then show ?thesis using cache_hit_is_last_lookup [of minute second "''f''" ?ops "Some True"] by (simp add: dur_defs)
qed

end
