(* ===== verification/Clearance.thy ===== *)
theory Clearance
  imports Redeem Brain Calibrate Sig_Cache
begin

text \<open>
  From a solved challenge to a clearance (Manager.VerifyPoW of src/internal/vayushield/vayushield.go): the check of
  the proof, its one redemption, the session token, and what the solve teaches the calibrator and the signature cache. What the request
  gives (the client's address as the binding, its enforcement key, its fingerprint, whether surge is on) and the readings of the clock are
  the fields of a call; the two writes to the database are returned.
\<close>

section \<open>VerifyPoW\<close>

record solve_call =
  vc_pow :: pow
  vc_nonce :: string
  vc_bind :: string
  vc_key :: string
  vc_fph :: string
  vc_surge :: bool
  vc_rnd :: "string option"
  vc_checked :: time
  vc_claimed :: time
  vc_issued :: time
  vc_stood :: time
  vc_passed :: time

datatype solve_write = ChallengeSolved | FalsePositive string

record 'v shield_manager =
  mg_signer :: "signer option"
  mg_ttl :: dur
  mg_bots :: bool
  mg_redeemer :: redeemer
  mg_brain :: brain
  mg_calib :: calibrator
  mg_cache :: "'v sig_cache"

definition learn_solve :: "(dur \<Rightarrow> rat) \<Rightarrow> solve_call \<Rightarrow> 'v shield_manager \<Rightarrow> 'v shield_manager" where
  "learn_solve f v m =
     (if vc_surge v then m
      else (let (s, b) = standing f (vc_stood v) (vc_key v) (mg_brain m)
            in m\<lparr>mg_brain := b, mg_calib := calib_passed (vc_passed v) (s \<ge> neutral) (vc_key v) (mg_calib m)\<rparr>))"

definition mgr_verify_pow :: "(dur \<Rightarrow> rat) \<Rightarrow> solve_call \<Rightarrow> 'v shield_manager \<Rightarrow> (string option \<times> solve_write list) \<times> 'v shield_manager" where
  "mgr_verify_pow f v m =
     (case mg_signer m of
        None \<Rightarrow> ((None, []), m)
      | Some key \<Rightarrow>
          if verify_pow key (vc_checked v) (vc_pow v) (vc_nonce v) \<noteq> None then ((None, []), m)
          else (let (ok, r) = claim (vc_claimed v) (proof_id (vc_pow v)) (pw_expires (vc_pow v)) (mg_redeemer m); m = m\<lparr>mg_redeemer := r\<rparr> in
                if \<not> ok then ((None, []), m)
                else case issue_session key (vc_rnd v) (vc_issued v) (mg_ttl m) (vc_bind v) of
                  None \<Rightarrow> ((None, []), m)
                | Some tok \<Rightarrow>
                    (let m = learn_solve f v m in
                     if mg_bots m \<and> vc_fph v \<noteq> []
                     then ((Some tok, [ChallengeSolved, FalsePositive (vc_fph v)]), m\<lparr>mg_cache := cache_forget (vc_fph v) (mg_cache m)\<rparr>)
                     else ((Some tok, [ChallengeSolved]), m))))"

section \<open>One clearance for one proof\<close>

definition claim_of :: "solve_call \<Rightarrow> time \<times> string \<times> int" where
  "claim_of v = (vc_claimed v, proof_id (vc_pow v), pw_expires (vc_pow v))"

definition passes :: "signer \<Rightarrow> solve_call \<Rightarrow> bool" where
  "passes key v \<longleftrightarrow> verify_pow key (vc_checked v) (vc_pow v) (vc_nonce v) = None"

lemma mgr_verify_keeps:
  "mg_signer (snd (mgr_verify_pow f v m)) = mg_signer m" "mg_ttl (snd (mgr_verify_pow f v m)) = mg_ttl m"
  by (auto simp: mgr_verify_pow_def learn_solve_def Let_def case_prod_beta split: option.split)

lemma mgr_verify_redeemer:
  "mg_signer m = Some key \<Longrightarrow>
   mg_redeemer (snd (mgr_verify_pow f v m)) = (if passes key v then snd (claim_step (claim_of v) (mg_redeemer m)) else mg_redeemer m)"
  by (auto simp: mgr_verify_pow_def passes_def claim_of_def learn_solve_def Let_def case_prod_beta split: option.split)

lemma mgr_verify_token:
  assumes "mg_signer m = Some key" "fst (fst (mgr_verify_pow f v m)) = Some tok"
  shows "passes key v" "fst (claim_step (claim_of v) (mg_redeemer m))"
    "issue_session key (vc_rnd v) (vc_issued v) (mg_ttl m) (vc_bind v) = Some tok"
  using assms by (auto simp: mgr_verify_pow_def passes_def claim_of_def Let_def case_prod_beta split: if_splits option.splits)

lemma mgr_verify_gives:
  assumes "mg_signer m = Some key" "passes key v" "fst (claim_step (claim_of v) (mg_redeemer m))"
    "issue_session key (vc_rnd v) (vc_issued v) (mg_ttl m) (vc_bind v) = Some tok"
  shows "fst (fst (mgr_verify_pow f v m)) = Some tok"
  using assms by (simp add: mgr_verify_pow_def passes_def claim_of_def Let_def case_prod_beta)

lemma mgr_run:
  assumes "mg_signer m = Some key"
  shows "mg_signer (snd (run_ops (mgr_verify_pow f) vs m)) = Some key
    \<and> mg_redeemer (snd (run_ops (mgr_verify_pow f) vs m)) = snd (run_ops claim_step (map claim_of (filter (passes key) vs)) (mg_redeemer m))"
  using assms
proof (induction vs arbitrary: m)
  case (Cons v vs)
  have "mg_signer (snd (mgr_verify_pow f v m)) = Some key" using Cons.prems by (simp add: mgr_verify_keeps)
  from Cons.IH [OF this] show ?case by (simp add: mgr_verify_redeemer [OF Cons.prems])
qed simp

lemma tokens_differ:
  assumes m: "mg_signer m = Some key" "mg_redeemer m = new_redeemer"
    and few: "card ((\<lambda>v. pw_sig (vc_pow v)) ` set vs) \<le> redeem_shard_cap" and order: "sorted (map vc_claimed vs)"
    and ids: "\<forall>v \<in> set vs. pw_sig (vc_pow v) \<noteq> [] \<and> pw_expires (vc_pow v) = ex (pw_sig (vc_pow v))"
    and ij: "i < j" "j < length vs"
    and tok: "fst (fst (run_ops (mgr_verify_pow f) vs m) ! i) = Some t" "fst (fst (run_ops (mgr_verify_pow f) vs m) ! j) = Some t'"
  shows "pw_sig (vc_pow (vs ! i)) \<noteq> pw_sig (vc_pow (vs ! j)) \<and> passes key (vs ! i) \<and> passes key (vs ! j)"
proof -
  let ?m = "\<lambda>n. snd (run_ops (mgr_verify_pow f) (take n vs) m)"
  let ?claims = "\<lambda>n. map claim_of (filter (passes key) (take n vs))"
  have at: "fst (fst (mgr_verify_pow f (vs ! i) (?m i))) = Some t" "fst (fst (mgr_verify_pow f (vs ! j) (?m j))) = Some t'"
    using tok ij by (simp_all add: run_nth)
  have sig: "mg_signer (?m n) = Some key" "mg_redeemer (?m n) = snd (run_ops claim_step (?claims n) new_redeemer)" for n
    using mgr_run [OF m(1), of f "take n vs"] m(2) by auto
  note p = mgr_verify_token [OF sig(1) at(1)] mgr_verify_token [OF sig(1) at(2)]
  let ?cs = "?claims j @ [claim_of (vs ! j)]" and ?n = "length (?claims j)"
  have sub: "set ?cs \<subseteq> claim_of ` set vs" using ij set_take_subset [of j vs] by auto
  have "(\<lambda>(t, i, e). i) ` set ?cs \<subseteq> (\<lambda>v. pw_sig (vc_pow v)) ` set vs"
    using image_mono [OF sub, of "\<lambda>(t, i, e). i"] by (simp add: image_image claim_of_def proof_id_def)
  then have few': "card ((\<lambda>(t, i, e). i) ` set ?cs) \<le> redeem_shard_cap"
    by (intro order_trans [OF card_mono few]) simp_all
  have ids': "\<forall>(t, i, e) \<in> set ?cs. i \<in> (\<lambda>(t, i, e). i) ` set ?cs \<and> i \<noteq> [] \<and> e = ex i"
  proof
    fix c
    assume c: "c \<in> set ?cs"
    then obtain v where "v \<in> set vs" "c = claim_of v" using sub by blast
    then show "case c of (t, i, e) \<Rightarrow> i \<in> (\<lambda>(t, i, e). i) ` set ?cs \<and> i \<noteq> [] \<and> e = ex i"
      using ids c by (cases c) (auto simp: claim_of_def proof_id_def intro: rev_image_eqI)
  qed
  have out: "fst (run_ops claim_step ?cs new_redeemer) ! ?n"
    using p(5) by (simp add: run_nth sig(2) nth_append)
  have nth: "?cs ! ?n = (vc_claimed (vs ! j), pw_sig (vc_pow (vs ! j)), pw_expires (vc_pow (vs ! j)))"
    by (simp add: nth_append claim_of_def proof_id_def)
  have first: "vc_claimed (vs ! i) \<le> vc_claimed (vs ! j)" using sorted_nth_mono [OF order, of i j] ij by simp
  have "claim_of (vs ! i) \<in> set (take ?n ?cs)" using ij p(1) by (auto simp: in_set_conv_nth intro!: imageI exI [of _ i])
  moreover from records_run [OF records_new _ few' ids' _ nth] out
  have late: "unix (vc_claimed (vs ! j)) < ex (pw_sig (vc_pow (vs ! j)))"
    and unseen: "pw_sig (vc_pow (vs ! j)) \<notin> {k. \<exists>t' e'. (t', k, e') \<in> set (take ?n ?cs) \<and> unix t' < ex k}" by auto
  moreover have "unix (vc_claimed (vs ! i)) \<le> unix (vc_claimed (vs ! j))"
    using first by (simp add: unix_def unix_epoch_def zdiv_mono1 dur_defs)
  ultimately have "pw_sig (vc_pow (vs ! i)) \<noteq> pw_sig (vc_pow (vs ! j))"
    unfolding claim_of_def proof_id_def by (metis (mono_tags, lifting) mem_Collect_eq order_le_less_trans)
  then show ?thesis using p by blast
qed

text \<open>
  C7. One solved proof opens one door. Whatever solved challenges are sent, one after another, to a manager that starts with no record, by whatever clients: a call that is
  answered with a token had a proof that verifies, and no later call with the same signature, as it is spelled, is
  answered with a token, whoever sends it, as long as a shard has room for the proofs.
\<close>

theorem one_clearance_per_signature:
  assumes m: "mg_signer m = Some key" "mg_redeemer m = new_redeemer"
    and few: "card ((\<lambda>v. pw_sig (vc_pow v)) ` set vs) \<le> redeem_shard_cap" and order: "sorted (map vc_claimed vs)"
    and ids: "\<forall>v \<in> set vs. pw_sig (vc_pow v) \<noteq> [] \<and> pw_expires (vc_pow v) = ex (pw_sig (vc_pow v))"
    and ij: "i < j" "j < length vs" and same: "pw_sig (vc_pow (vs ! i)) = pw_sig (vc_pow (vs ! j))"
    and tok: "fst (fst (run_ops (mgr_verify_pow f) vs m) ! i) = Some t"
  shows "fst (fst (run_ops (mgr_verify_pow f) vs m) ! j) = None \<and> verify_pow key (vc_checked (vs ! i)) (vc_pow (vs ! i)) (vc_nonce (vs ! i)) = None"
proof -
  have "fst (fst (run_ops (mgr_verify_pow f) vs m) ! j) = None"
    using tokens_differ [OF m few order ids ij tok] same by (cases "fst (fst (run_ops (mgr_verify_pow f) vs m) ! j)") auto
  moreover have "mg_signer (snd (run_ops (mgr_verify_pow f) (take i vs) m)) = Some key" using mgr_run [OF m(1)] by blast
  from mgr_verify_token(1) [OF this, of f "vs ! i" t] tok ij have "passes key (vs ! i)" by (simp add: run_nth)
  ultimately show ?thesis by (simp add: passes_def)
qed

theorem one_clearance_per_signature_witness:
  "\<exists>(m :: bool shield_manager) v. fst (fst (run_ops (mgr_verify_pow (\<lambda>_. 1)) [v, v\<lparr>vc_bind := ''10.0.0.2''\<rparr>] m) ! 0) \<noteq> None
     \<and> fst (fst (run_ops (mgr_verify_pow (\<lambda>_. 1)) [v, v\<lparr>vc_bind := ''10.0.0.2''\<rparr>] m) ! 1) = None"
proof -
  define q where "q = \<lparr>pw_salt = ''s'', pw_difficulty = 0, pw_expires = 60, pw_sig = []\<rparr>"
  define p where "p = q\<lparr>pw_sig := raw_encode (mac ''k'' (signing_bytes q))\<rparr>"
  define v where "v = \<lparr>vc_pow = p, vc_nonce = ''n'', vc_bind = ''10.0.0.1'', vc_key = ''c'', vc_fph = [], vc_surge = True,
    vc_rnd = Some ''12345678'', vc_checked = 0, vc_claimed = 0, vc_issued = 0, vc_stood = 0, vc_passed = 0\<rparr>"
  define m :: "bool shield_manager" where "m = \<lparr>mg_signer = Some ''k'', mg_ttl = hour, mg_bots = False, mg_redeemer = new_redeemer,
    mg_brain = new_brain, mg_calib = new_calibrator, mg_cache = new_cache minute\<rparr>"
  let ?vs = "[v, v\<lparr>vc_bind := ''10.0.0.2''\<rparr>]"
  have "signing_bytes p = signing_bytes q" by (simp add: p_def signing_bytes_def)
  then have ver: "verify_pow ''k'' 0 p ''n'' = None" by (simp add: verify_pow_def p_def) (simp add: q_def solution_valid_def unix_def unix_epoch_def second_def)
  have "raw_decode (pw_sig p) \<noteq> Some []" by (simp add: p_def mac_def) (metis length_hmac list.size(3) zero_neq_numeral)
  then have sig: "pw_sig p \<noteq> []" by (auto simp: raw_decode_def)
  have exp: "pw_expires p = 60" by (simp add: p_def q_def)
  have "fst (claim 0 (proof_id p) 60 new_redeemer)"
    using records_claim(1) [OF records_new, where D = "{pw_sig p}" and i = "pw_sig p" and t = 0 and ex = "\<lambda>_. 60"] sig
    by (simp add: proof_id_def unix_def unix_epoch_def second_def redeem_shard_cap_def)
  then have "fst (fst (mgr_verify_pow (\<lambda>_. 1) v m)) \<noteq> None"
    by (simp add: mgr_verify_pow_def m_def v_def ver exp Let_def case_prod_beta issue_session_def)
  then obtain t where t: "fst (fst (run_ops (mgr_verify_pow (\<lambda>_. 1)) ?vs m) ! 0) = Some t" by auto
  have "fst (fst (run_ops (mgr_verify_pow (\<lambda>_. 1)) ?vs m) ! 1) = None"
    using one_clearance_per_signature [where m = m and key = "''k''" and vs = ?vs and ex = "\<lambda>_. 60" and i = 0 and j = 1, OF _ _ _ _ _ _ _ _ t] sig exp
    by (simp add: m_def v_def redeem_shard_cap_def)
  with t show ?thesis by (metis option.distinct(1))
qed

text \<open>The signature is compared as it is spelled: with a line feed before it the same solved proof opens a second door.\<close>

lemma respelled_proof_opens_again:
  assumes m: "mg_signer m = Some key" "mg_redeemer m = new_redeemer" and v: "fst (fst (mgr_verify_pow f v m)) = Some tok" "pw_sig (vc_pow v) \<noteq> []"
  defines "v' \<equiv> v\<lparr>vc_pow := (vc_pow v)\<lparr>pw_sig := CHR 0x0A # pw_sig (vc_pow v)\<rparr>\<rparr>"
  shows "fst (fst (mgr_verify_pow f v' (snd (mgr_verify_pow f v m)))) = Some tok"
proof -
  let ?s = "pw_sig (vc_pow v)" and ?e = "pw_expires (vc_pow v)"
  let ?D = "{?s, CHR 0x0A # ?s}"
  note p = mgr_verify_token [OF m(1) v(1)]
  have D: "finite ?D" "card ?D \<le> redeem_shard_cap" by (simp_all add: redeem_shard_cap_def card_insert_if)
  have live: "unix (vc_claimed v) < ?e"
    using p(2) v(2) by (auto simp: claim_of_def claim_def proof_id_def split: if_splits)
  have "records (\<lambda>_. ?e) ?D {?s} (mg_redeemer (snd (mgr_verify_pow f v m)))"
    using records_claim(2) [OF records_new D, where i = ?s and t = "vc_claimed v" and ex = "\<lambda>_. ?e"] v(2) live p(1) m
    by (simp add: mgr_verify_redeemer claim_of_def proof_id_def)
  from records_claim(1) [OF this D, where i = "CHR 0x0A # ?s" and t = "vc_claimed v"] live
  have "fst (claim (vc_claimed v) (CHR 0x0A # ?s) ?e (mg_redeemer (snd (mgr_verify_pow f v m))))" by simp
  moreover have "passes key v'" using p(1) respelled_proof_verifies [where n = 1 and key = key and now = "vc_checked v" and p = "vc_pow v" and nonce = "vc_nonce v"] by (simp add: passes_def v'_def)
  ultimately show ?thesis using p(3) m(1)
    by (intro mgr_verify_gives) (simp_all add: mgr_verify_keeps claim_of_def proof_id_def v'_def)
qed

end
