(* ===== verification/Sovereign.thy ===== *)
theory Sovereign
  imports Vayu_Prelude
begin

text \<open>
  The admission lane of the shield (src/internal/vayushield/sovereign/sovereign.go): public requests reserve slots by the weight of
  their route, priority requests pass. The lane is lock-free: admission is a reservation, a look at the
  cap and, when refused, the return of the slots, and those of different requests interleave.
\<close>

section \<open>The gate\<close>

record gate =
  gt_max :: int
  gt_inflight :: int
  gt_limit :: int
  gt_shed :: int
  gt_admitted :: int

text \<open>\<open>procs\<close> is runtime.GOMAXPROCS.\<close>

definition default_max :: "int \<Rightarrow> int" where
  "default_max procs = (let n = (if procs < 1 then 1 else procs) in if n * 16 > 32 then n * 16 else 32)"

definition new_gate :: "int \<Rightarrow> gate" where
  "new_gate procs = \<lparr>gt_max = default_max procs, gt_inflight = 0, gt_limit = 0, gt_shed = 0, gt_admitted = 0\<rparr>"

definition set_gate_limit :: "int \<Rightarrow> gate \<Rightarrow> gate" where
  "set_gate_limit n g = g\<lparr>gt_limit := (if n \<le> 0 then 0 else n)\<rparr>"

definition gate_cap :: "gate \<Rightarrow> int" where
  "gate_cap g = (if gt_limit g > 0 then gt_limit g else gt_max g)"

definition min_concurrent_per_route :: int where "min_concurrent_per_route = 4"

definition clamp_cost :: "int \<Rightarrow> gate \<Rightarrow> int" where
  "clamp_cost cost g =
     (if cost < 1 then 1
      else (let max_cost = go_quot (gate_cap g) min_concurrent_per_route;
                max_cost = (if max_cost < 1 then 1 else max_cost)
            in if cost > max_cost then max_cost else cost))"

text \<open>AdmitCost without interleaving: whether it is admitted, and the slots that its release gives back.\<close>

definition admit_cost :: "bool \<Rightarrow> int \<Rightarrow> gate \<Rightarrow> (bool \<times> int) \<times> gate" where
  "admit_cost priority cost g =
     (if priority then ((True, 0), g)
      else (let c = clamp_cost cost g in
            if gt_inflight g + c > gate_cap g then ((False, 0), g\<lparr>gt_shed := gt_shed g + 1\<rparr>)
            else ((True, c), g\<lparr>gt_inflight := gt_inflight g + c, gt_admitted := gt_admitted g + 1\<rparr>)))"

definition gate_release :: "int \<Rightarrow> gate \<Rightarrow> gate" where
  "gate_release c g = g\<lparr>gt_inflight := gt_inflight g - c\<rparr>"

section \<open>Interleaved admissions\<close>

text \<open>A request on its way: its slots, the count that its reservation returned, and how far it is.\<close>

datatype phase = Reserved | Refused | Inside

record slot =
  sl_cost :: int
  sl_seen :: int
  sl_phase :: phase

type_synonym lane = "gate \<times> slot list"

text \<open>The requests are listed in the order of their reservations; no cap is ever set above \<open>P\<close>.\<close>

inductive lane_step :: "int \<Rightarrow> lane \<Rightarrow> lane \<Rightarrow> bool" for P where
  Reserve: "c = clamp_cost cost g \<Longrightarrow>
    lane_step P (g, as) (g\<lparr>gt_inflight := gt_inflight g + c\<rparr>, as @ [\<lparr>sl_cost = c, sl_seen = gt_inflight g + c, sl_phase = Reserved\<rparr>])"
| Admit: "sl_phase a = Reserved \<Longrightarrow> \<not> sl_seen a > gate_cap g \<Longrightarrow>
    lane_step P (g, xs @ a # ys) (g\<lparr>gt_admitted := gt_admitted g + 1\<rparr>, xs @ a\<lparr>sl_phase := Inside\<rparr> # ys)"
| Refuse: "sl_phase a = Reserved \<Longrightarrow> sl_seen a > gate_cap g \<Longrightarrow>
    lane_step P (g, xs @ a # ys) (g, xs @ a\<lparr>sl_phase := Refused\<rparr> # ys)"
| Undo: "sl_phase a = Refused \<Longrightarrow>
    lane_step P (g, xs @ a # ys) (g\<lparr>gt_inflight := gt_inflight g - sl_cost a, gt_shed := gt_shed g + 1\<rparr>, xs @ ys)"
| Release: "sl_phase a = Inside \<Longrightarrow> lane_step P (g, xs @ a # ys) (gate_release (sl_cost a) g, xs @ ys)"
| Tune: "gate_cap (set_gate_limit n g) \<le> P \<Longrightarrow> lane_step P (g, as) (set_gate_limit n g, as)"

inductive lane_reach :: "int \<Rightarrow> int \<Rightarrow> lane \<Rightarrow> bool" for P procs where
  Start: "default_max procs \<le> P \<Longrightarrow> lane_reach P procs (new_gate procs, [])"
| Step: "lane_reach P procs s \<Longrightarrow> lane_step P s s' \<Longrightarrow> lane_reach P procs s'"

fun seen_ok :: "int \<Rightarrow> slot list \<Rightarrow> bool" where
  "seen_ok b [] \<longleftrightarrow> True"
| "seen_ok b (a # as) \<longleftrightarrow> 1 \<le> sl_cost a \<and> b + sl_cost a \<le> sl_seen a \<and> seen_ok (b + sl_cost a) as"

abbreviation total_cost :: "slot list \<Rightarrow> int" where
  "total_cost as \<equiv> sum_list (map sl_cost as)"

definition inside_cost :: "slot list \<Rightarrow> int" where
  "inside_cost as = total_cost (filter (\<lambda>a. sl_phase a = Inside) as)"

definition lane_ok :: "int \<Rightarrow> lane \<Rightarrow> bool" where
  "lane_ok P = (\<lambda>(g, as). gt_inflight g = total_cost as \<and> seen_ok 0 as \<and> 1 \<le> gate_cap g \<and> 1 \<le> gt_max g \<and> gate_cap g \<le> P
     \<and> (\<forall>a \<in> set as. sl_phase a = Inside \<longrightarrow> sl_seen a \<le> P))"

lemma seen_ok_mono: "seen_ok b as \<Longrightarrow> b' \<le> b \<Longrightarrow> seen_ok b' as"
proof (induction as arbitrary: b b')
  case (Cons a as)
  then show ?case using Cons.IH [of "b + sl_cost a" "b' + sl_cost a"] by simp
qed simp

lemma seen_ok_append: "seen_ok b (xs @ ys) \<longleftrightarrow> seen_ok b xs \<and> seen_ok (b + total_cost xs) ys"
  by (induction xs arbitrary: b) (auto simp: add.assoc)

lemma seen_ok_remove: "seen_ok b (xs @ a # ys) \<Longrightarrow> seen_ok b (xs @ ys)"
  by (auto simp: seen_ok_append intro: seen_ok_mono)

lemma inside_within:
  "seen_ok b as \<Longrightarrow> \<forall>a \<in> set as. sl_phase a = Inside \<longrightarrow> sl_seen a \<le> P \<Longrightarrow> inside_cost as = 0 \<or> b + inside_cost as \<le> P"
proof (induction as arbitrary: b)
  case (Cons a as)
  have IH: "inside_cost as = 0 \<or> b + sl_cost a + inside_cost as \<le> P" using Cons by auto
  have "inside_cost (a # as) = of_bool (sl_phase a = Inside) * sl_cost a + inside_cost as" by (simp add: inside_cost_def)
  with IH Cons.prems show ?case by (cases "sl_phase a = Inside") auto
qed (simp add: inside_cost_def)

lemma clamp_cost_bounds: "1 \<le> gate_cap g \<Longrightarrow> 1 \<le> clamp_cost cost g \<and> clamp_cost cost g \<le> gate_cap g"
  by (auto simp: clamp_cost_def Let_def go_quot_nonneg min_concurrent_per_route_def)

lemma gate_cap_counts [simp]:
  "gate_cap (g\<lparr>gt_inflight := i\<rparr>) = gate_cap g" "gate_cap (g\<lparr>gt_admitted := i\<rparr>) = gate_cap g" "gate_cap (g\<lparr>gt_shed := i\<rparr>) = gate_cap g"
  by (simp_all add: gate_cap_def)

lemma lane_step_ok: "lane_step P s s' \<Longrightarrow> lane_ok P s \<Longrightarrow> lane_ok P s'"
proof (induction rule: lane_step.induct)
  case (Reserve c cost g as)
  then show ?case using clamp_cost_bounds [of g cost] by (auto simp: lane_ok_def seen_ok_append)
next
  case (Admit a g xs ys)
  then show ?case by (auto simp: lane_ok_def seen_ok_append)
next
  case (Refuse a g xs ys)
  then show ?case by (auto simp: lane_ok_def seen_ok_append)
next
  case (Undo a g xs ys)
  then show ?case using seen_ok_remove [of 0 xs a ys] by (auto simp: lane_ok_def)
next
  case (Release a g xs ys)
  then show ?case using seen_ok_remove [of 0 xs a ys] by (auto simp: lane_ok_def gate_release_def)
next
  case (Tune n g as)
  then show ?case by (auto simp: lane_ok_def set_gate_limit_def gate_cap_def)
qed

lemma lane_reach_ok: "lane_reach P procs s \<Longrightarrow> lane_ok P s"
proof (induction rule: lane_reach.induct)
  case Start
  moreover have "1 \<le> default_max procs" by (simp add: default_max_def Let_def)
  ultimately show ?case by (simp add: lane_ok_def new_gate_def gate_cap_def)
qed (rule lane_step_ok)



end
