(* ===== verification/Policy.thy ===== *)
theory Policy
  imports Vayu_Prelude
begin

text \<open>
  The operator's own rules (src/internal/vayushield/policy/policy.go): trusted and refused networks, countries, entries
  that end, and the weights of routes. An address of net/netip is its width, its value and its zone; what ParseAddr, ParsePrefix and
  time.ParseInLocation read is an argument, and the theorems hold whatever they read.
\<close>

section \<open>Addresses and prefixes\<close>

record addr =
  ad_width :: nat
  ad_val :: nat
  ad_zone :: string

record prefix =
  px_width :: nat
  px_val :: nat
  px_bits :: nat

definition is_4in6 :: "nat \<Rightarrow> nat \<Rightarrow> bool" where
  "is_4in6 w v \<longleftrightarrow> w = 128 \<and> v div 2 ^ 32 = 65535"

definition unmap :: "addr \<Rightarrow> addr" where
  "unmap a = (if is_4in6 (ad_width a) (ad_val a) then \<lparr>ad_width = 32, ad_val = ad_val a mod 2 ^ 32, ad_zone = []\<rparr> else a)"

definition masked :: "prefix \<Rightarrow> prefix" where
  "masked p = (let k = px_width p - px_bits p in p\<lparr>px_val := px_val p div 2 ^ k * 2 ^ k\<rparr>)"

definition px_contains :: "prefix \<Rightarrow> addr \<Rightarrow> bool" where
  "px_contains p a \<longleftrightarrow> ad_zone a = [] \<and> px_width p = ad_width a
     \<and> (let k = px_width p - px_bits p in ad_val a div 2 ^ k = px_val p div 2 ^ k)"

definition px_overlaps :: "prefix \<Rightarrow> prefix \<Rightarrow> bool" where
  "px_overlaps p q \<longleftrightarrow> p = q \<or> px_width p = px_width q
     \<and> (let k = px_width p - min (px_bits p) (px_bits q) in px_val p div 2 ^ k = px_val q div 2 ^ k)"

record libs =
  lb_addr :: "string \<Rightarrow> addr option"
  lb_prefix :: "string \<Rightarrow> prefix option"
  lb_time :: "string \<Rightarrow> string \<Rightarrow> time option"

section \<open>The rules\<close>

datatype verdict = VerdictNone | VerdictAllow | VerdictDeny | VerdictChallenge

record route =
  rt_name :: string
  rt_host :: string
  rt_prefix :: string
  rt_methods :: "string list"
  rt_cost :: int

record config =
  cf_allow :: "string list"
  cf_deny :: "string list"
  cf_allow_countries :: "string list"
  cf_deny_countries :: "string list"
  cf_challenge_countries :: "string list"
  cf_refuse_unknown :: bool
  cf_routes :: "route list"
  cf_onion :: bool
  cf_now :: time

record rules =
  rl_allow :: "prefix list"
  rl_deny :: "prefix list"
  rl_allow_countries :: "string list"
  rl_deny_countries :: "string list"
  rl_challenge_countries :: "string list"
  rl_refuse_unknown :: bool
  rl_routes :: "route list"
  rl_expired :: "string list"
  rl_next :: time
  rl_onion :: bool

section \<open>Entries that end\<close>

text \<open>The leftmost place of the separator, in any case: what is before it and what is after.\<close>

fun split_until :: "string \<Rightarrow> (string \<times> string) option" where
  "split_until [] = None"
| "split_until (c # s) =
     (if has_prefix (to_lower (c # s)) '' until '' then Some ([], drop 7 (c # s))
      else map_option (\<lambda>(a, b). (c # a, b)) (split_until s))"

definition until_layouts :: "string list" where
  "until_layouts = [''2006-01-02T15:04'', ''2006-01-02 15:04'', ''2006-01-02'']"

definition parse_end :: "libs \<Rightarrow> string \<Rightarrow> time" where
  "parse_end lib when =
     (case find (\<lambda>l. lb_time lib l when \<noteq> None) until_layouts of
        None \<Rightarrow> zero_time | Some l \<Rightarrow> the (lb_time lib l when))"

definition bad_end :: "string \<Rightarrow> string" where
  "bad_end s = s @ '' (an end is a date, 2026-11-01, or a UTC time, 2026-11-01T18:00)''"

definition live_entry :: "libs \<Rightarrow> string \<Rightarrow> time \<Rightarrow> time \<Rightarrow> (string \<times> bool \<times> string) \<times> time" where
  "live_entry lib s now nxt =
     (case split_until s of
        None \<Rightarrow> ((s, True, []), nxt)
      | Some (a, b) \<Rightarrow>
          (let entry = trim_space a; e = parse_end lib (trim_space b) in
           if e = zero_time then ((entry, False, bad_end s), nxt)
           else if \<not> now < e then ((entry, False, []), nxt)
           else ((entry, True, []), if nxt = zero_time \<or> e < nxt then e else nxt)))"

section \<open>Compile\<close>

text \<open>What the closures of Compile write: the entries it could not read, the ended entries, the next end.\<close>

record compiling =
  co_bad :: "string list"
  co_expired :: "string list"
  co_next :: time

definition skipped :: "string \<Rightarrow> bool" where
  "skipped s \<longleftrightarrow> s = [] \<or> has_prefix s ''#''"

fun keep_entries :: "libs \<Rightarrow> time \<Rightarrow> string \<Rightarrow> string list \<Rightarrow> compiling \<Rightarrow> string list \<times> compiling" where
  "keep_entries lib now what [] c = ([], c)"
| "keep_entries lib now what (s # ss) c =
     (let s = trim_space s in
      if skipped s then keep_entries lib now what ss c
      else (let ((entry, ok, why), nxt) = live_entry lib s now (co_next c); c = c\<lparr>co_next := nxt\<rparr> in
            if why \<noteq> [] then keep_entries lib now what ss (c\<lparr>co_bad := co_bad c @ [what @ '': '' @ why]\<rparr>)
            else if \<not> ok then keep_entries lib now what ss (c\<lparr>co_expired := co_expired c @ [what @ '': '' @ s]\<rparr>)
            else (let (out, c) = keep_entries lib now what ss c in (entry # out, c))))"

definition unwrap :: "prefix \<Rightarrow> prefix" where
  "unwrap p =
     (if is_4in6 (px_width p) (px_val p)
      then \<lparr>px_width = 32, px_val = px_val p mod 2 ^ 32, px_bits = px_bits p - 96\<rparr> else p)"

definition parse_net :: "libs \<Rightarrow> string \<Rightarrow> prefix option" where
  "parse_net lib s =
     (if CHR ''/'' \<notin> set s
      then map_option (\<lambda>a. let a = unmap a in \<lparr>px_width = ad_width a, px_val = ad_val a, px_bits = ad_width a\<rparr>) (lb_addr lib s)
      else map_option (\<lambda>p. unwrap (masked p)) (lb_prefix lib s))"

fun parse_nets :: "libs \<Rightarrow> string \<Rightarrow> string list \<Rightarrow> compiling \<Rightarrow> prefix list \<times> compiling" where
  "parse_nets lib what [] c = ([], c)"
| "parse_nets lib what (s # ss) c =
     (let s = trim_space s in
      if skipped s then parse_nets lib what ss c
      else case parse_net lib s of
        None \<Rightarrow> parse_nets lib what ss (c\<lparr>co_bad := co_bad c @ [what @ '': '' @ s]\<rparr>)
      | Some p \<Rightarrow> (let (out, c) = parse_nets lib what ss c in (p # out, c)))"

definition country_set :: "string list \<Rightarrow> string list" where
  "country_set ss = remdups (filter (\<lambda>s. s \<noteq> []) (map (\<lambda>s. to_upper (trim_space s)) ss))"

definition compile_route :: "route \<Rightarrow> route" where
  "compile_route rt = rt\<lparr>rt_host := to_lower (trim_space (rt_host rt)), rt_prefix := trim_space (rt_prefix rt),
     rt_methods := map (\<lambda>m. to_upper (trim_space m)) (rt_methods rt)\<rparr>"

definition compile :: "libs \<Rightarrow> time \<Rightarrow> config \<Rightarrow> rules \<times> string list" where
  "compile lib clock cf =
     (let now = (if cf_now cf = zero_time then clock else cf_now cf);
          c = \<lparr>co_bad = [], co_expired = [], co_next = zero_time\<rparr>;
          (al, c) = keep_entries lib now ''allow'' (cf_allow cf) c; (allow, c) = parse_nets lib ''allow'' al c;
          (dl, c) = keep_entries lib now ''deny'' (cf_deny cf) c; (deny, c) = parse_nets lib ''deny'' dl c;
          (ac, c) = keep_entries lib now ''allow country'' (cf_allow_countries cf) c;
          (dc, c) = keep_entries lib now ''deny country'' (cf_deny_countries cf) c;
          (cc, c) = keep_entries lib now ''challenge country'' (cf_challenge_countries cf) c;
          onion = cf_onion cf;
          bad = map (\<lambda>rt. ''route '' @ rt_name rt @ '': negative cost'') (filter (\<lambda>rt. rt_cost rt < 0) (cf_routes cf))
      in (\<lparr>rl_allow = (if onion then [] else allow), rl_deny = (if onion then [] else deny),
           rl_allow_countries = (if onion then [] else country_set ac),
           rl_deny_countries = (if onion then [] else country_set dc),
           rl_challenge_countries = (if onion then [] else country_set cc),
           rl_refuse_unknown = (\<not> onion \<and> cf_refuse_unknown cf),
           rl_routes = map compile_route (filter (\<lambda>rt. \<not> rt_cost rt < 0) (cf_routes cf)),
           rl_expired = co_expired c, rl_next = co_next c, rl_onion = onion\<rparr>,
          co_bad c @ bad))"

section \<open>Verdicts\<close>

definition source_verdict :: "libs \<Rightarrow> rules \<Rightarrow> string \<Rightarrow> verdict" where
  "source_verdict lib r ip =
     (if rl_allow r = [] \<and> rl_deny r = [] then VerdictNone
      else case lb_addr lib ip of
        None \<Rightarrow> VerdictNone
      | Some a \<Rightarrow>
          (let a = (unmap a)\<lparr>ad_zone := []\<rparr> in
           if list_ex (\<lambda>p. px_contains p a) (rl_deny r) then VerdictDeny
           else if list_ex (\<lambda>p. px_contains p a) (rl_allow r) then VerdictAllow
           else VerdictNone))"

definition country_verdict :: "rules \<Rightarrow> string \<Rightarrow> verdict" where
  "country_verdict r code =
     (if rl_onion r \<or> code = [] then
        (if code = [] \<and> \<not> rl_onion r \<and> rl_refuse_unknown r \<and> rl_allow_countries r \<noteq> [] then VerdictDeny else VerdictNone)
      else (let code = to_upper code in
            if code \<in> set (rl_deny_countries r) then VerdictDeny
            else if rl_allow_countries r \<noteq> [] \<and> code \<notin> set (rl_allow_countries r) then VerdictDeny
            else if code \<in> set (rl_challenge_countries r) then VerdictChallenge
            else VerdictNone))"

definition allows_any :: "libs \<Rightarrow> rules \<Rightarrow> string \<Rightarrow> bool" where
  "allows_any lib r key =
     (if rl_allow r = [] \<or> key = [] then False
      else if CHR ''/'' \<notin> set key then source_verdict lib r key = VerdictAllow
      else case lb_prefix lib key of
        None \<Rightarrow> False
      | Some p \<Rightarrow> list_ex (\<lambda>a. px_overlaps a (masked p)) (rl_allow r))"

definition geo_active :: "rules \<Rightarrow> bool" where "geo_active r \<longleftrightarrow> \<not> rl_onion r"
definition source_active :: "rules \<Rightarrow> bool" where "source_active r \<longleftrightarrow> \<not> rl_onion r"

section \<open>Routes\<close>

definition path_has_prefix :: "string \<Rightarrow> string \<Rightarrow> bool" where
  "path_has_prefix path pre =
     (let pre = trim_suffix pre ''/'' in
      if pre = [] \<or> pre = ''/'' then True
      else if \<not> has_prefix path pre then False
      else length path = length pre \<or> path ! length pre = CHR ''/'')"

text \<open>strings.LastIndexByte of the colon, when it is not the first byte and no bracket follows it.\<close>

definition strip_port :: "string \<Rightarrow> string" where
  "strip_port host =
     (let tail = takeWhile (\<lambda>c. c \<noteq> CHR '':'') (rev host); i = length host - length tail - 1 in
      if CHR '':'' \<in> set host \<and> i > 0 \<and> CHR '']'' \<notin> set tail then take i host else host)"

definition route_matches :: "route \<Rightarrow> string \<Rightarrow> string \<Rightarrow> string \<Rightarrow> bool" where
  "route_matches rt host path meth =
     (if rt_host rt \<noteq> [] \<and> \<not> equal_fold (strip_port host) (rt_host rt) then False
      else if rt_methods rt \<noteq> [] \<and> \<not> list_ex (\<lambda>m. equal_fold m meth) (rt_methods rt) then False
      else if rt_prefix rt = [] then True
      else path_has_prefix path (rt_prefix rt))"

definition cost_of :: "rules \<Rightarrow> string \<Rightarrow> string \<Rightarrow> string \<Rightarrow> int" where
  "cost_of r host path meth =
     (case find (\<lambda>rt. route_matches rt host path meth) (rl_routes r) of
        None \<Rightarrow> 1 | Some rt \<Rightarrow> if rt_cost rt \<le> 0 then 1 else rt_cost rt)"

definition route_name :: "rules \<Rightarrow> string \<Rightarrow> string \<Rightarrow> string \<Rightarrow> string" where
  "route_name r host path meth =
     (case find (\<lambda>rt. route_matches rt host path meth) (rl_routes r) of None \<Rightarrow> [] | Some rt \<Rightarrow> rt_name rt)"

definition rules_empty :: "rules \<Rightarrow> bool" where
  "rules_empty r \<longleftrightarrow> rl_allow r = [] \<and> rl_deny r = [] \<and> rl_allow_countries r = [] \<and> rl_deny_countries r = []
     \<and> rl_challenge_countries r = [] \<and> rl_routes r = []"

section \<open>The set does not change before its next end\<close>

text \<open>The end of an entry, when it has one that can be read.\<close>

definition entry_end :: "libs \<Rightarrow> string \<Rightarrow> time option" where
  "entry_end lib s =
     (let s = trim_space s in
      if skipped s then None
      else case split_until s of
        None \<Rightarrow> None
      | Some (a, b) \<Rightarrow> (let e = parse_end lib (trim_space b) in if e = zero_time then None else Some e))"

definition ahead :: "time \<Rightarrow> time \<Rightarrow> bool" where
  "ahead n e \<longleftrightarrow> n \<noteq> zero_time \<and> n \<le> e"

lemma live_entry_cong:
  assumes "\<forall>e. entry_end lib s = Some e \<longrightarrow> (t < e) = (t' < e)" "\<not> skipped (trim_space s)"
  shows "live_entry lib (trim_space s) t n = live_entry lib (trim_space s) t' n"
  using assms by (auto simp: live_entry_def entry_end_def Let_def split: option.splits if_splits)

lemma keep_cong:
  "\<forall>s \<in> set ss. \<forall>e. entry_end lib s = Some e \<longrightarrow> (t < e) = (t' < e) \<Longrightarrow> keep_entries lib t what ss c = keep_entries lib t' what ss c"
proof (induction ss arbitrary: c)
  case (Cons s ss)
  then show ?case using live_entry_cong [of lib s t t' "co_next c"] by (simp add: Let_def case_prod_beta)
qed simp

lemma live_entry_next:
  assumes "\<not> skipped (trim_space s)"
  shows "(ahead n e \<longrightarrow> ahead (snd (live_entry lib (trim_space s) t n)) e)
    \<and> (entry_end lib s = Some e \<and> t < e \<longrightarrow> ahead (snd (live_entry lib (trim_space s) t n)) e)"
  using assms by (auto simp: live_entry_def entry_end_def ahead_def Let_def split: option.splits if_splits)

lemma keep_next:
  "(ahead (co_next c) e \<longrightarrow> ahead (co_next (snd (keep_entries lib t what ss c))) e)
   \<and> (\<forall>s \<in> set ss. entry_end lib s = Some e \<and> t < e \<longrightarrow> ahead (co_next (snd (keep_entries lib t what ss c))) e)"
proof (induction ss arbitrary: c)
  case (Cons s ss)
  show ?case
  proof (cases "skipped (trim_space s)")
    case True
    then have "entry_end lib s = None" by (simp add: entry_end_def)
    then show ?thesis using Cons True by simp
  next
    case False
    note IH = Cons.IH and n = live_entry_next [OF False, of "co_next c" e lib t]
    define l where "l = live_entry lib (trim_space s) t (co_next c)"
    obtain x ok why nxt where l': "l = ((x, ok, why), nxt)" by (metis surj_pair)
    have "snd (live_entry lib (trim_space s) t (co_next c)) = nxt" using l' by (simp add: l_def)
    with n False l' IH show ?thesis unfolding l_def by (auto simp: Let_def case_prod_beta)
  qed
qed simp

lemma parse_nets_next [simp]: "co_next (snd (parse_nets lib what ss c)) = co_next c"
  by (induction ss arbitrary: c) (auto simp: Let_def case_prod_beta split: option.split)

definition entries :: "config \<Rightarrow> string set" where
  "entries cf = set (cf_allow cf) \<union> set (cf_deny cf) \<union> set (cf_allow_countries cf) \<union> set (cf_deny_countries cf) \<union> set (cf_challenge_countries cf)"

lemma compile_next:
  assumes s: "s \<in> entries cf" "entry_end lib s = Some e" "t < e" and t: "t = (if cf_now cf = zero_time then clock else cf_now cf)"
  shows "ahead (rl_next (fst (compile lib clock cf))) e"
proof -
  define c0 where "c0 = \<lparr>co_bad = [], co_expired = [], co_next = zero_time\<rparr>"
  obtain al c1 where 1: "keep_entries lib t ''allow'' (cf_allow cf) c0 = (al, c1)" by fastforce
  obtain allow c2 where 2: "parse_nets lib ''allow'' al c1 = (allow, c2)" by fastforce
  obtain dl c3 where 3: "keep_entries lib t ''deny'' (cf_deny cf) c2 = (dl, c3)" by fastforce
  obtain deny c4 where 4: "parse_nets lib ''deny'' dl c3 = (deny, c4)" by fastforce
  obtain ac c5 where 5: "keep_entries lib t ''allow country'' (cf_allow_countries cf) c4 = (ac, c5)" by fastforce
  obtain dc c6 where 6: "keep_entries lib t ''deny country'' (cf_deny_countries cf) c5 = (dc, c6)" by fastforce
  obtain cc c7 where 7: "keep_entries lib t ''challenge country'' (cf_challenge_countries cf) c6 = (cc, c7)" by fastforce
  have nxt: "rl_next (fst (compile lib clock cf)) = co_next c7"
    by (simp add: compile_def Let_def 1 2 3 4 5 6 7 flip: t c0_def)
  have same: "co_next c2 = co_next c1" "co_next c4 = co_next c3"
    using parse_nets_next [of lib "''allow''" al c1] parse_nets_next [of lib "''deny''" dl c3] by (simp_all add: 2 4)
  note step = keep_next [where lib = lib and t = t and e = e]
  from step [of c0 "''allow''" "cf_allow cf"] step [of c2 "''deny''" "cf_deny cf"] step [of c4 "''allow country''" "cf_allow_countries cf"]
    step [of c5 "''deny country''" "cf_deny_countries cf"] step [of c6 "''challenge country''" "cf_challenge_countries cf"]
  have "ahead (co_next c7) e" using s unfolding 1 3 5 6 7 snd_conv same entries_def by blast
  then show ?thesis by (simp add: nxt)
qed

text \<open>
  C27. A compiled policy is right until the moment it names. Compile at some moment and again at a later one: as long as the later moment is
  before the next expiry that the first compilation named, or it named none, the second gives the same rules, the same ended entries, the
  same next expiry and the same complaints. So the caller that recompiles at NextExpiry
  never serves an entry past its end, nor misses one before it.
\<close>

theorem stable_until_next_expiry:
  assumes fresh: "cf_now cf = zero_time" and order: "t \<le> t'"
    and before: "rl_next (fst (compile lib t cf)) = zero_time \<or> t' < rl_next (fst (compile lib t cf))"
  shows "compile lib t' cf = compile lib t cf"
proof -
  have "(t < e) = (t' < e)" if "s \<in> entries cf" "entry_end lib s = Some e" for s e
    using compile_next [OF that, of t t] before order fresh by (auto simp: ahead_def)
  then have same: "keep_entries lib t' what ss = keep_entries lib t what ss" if "set ss \<subseteq> entries cf" for what ss
    using that by (intro ext keep_cong) blast
  have "keep_entries lib t' what ss = keep_entries lib t what ss"
    if "ss \<in> {cf_allow cf, cf_deny cf, cf_allow_countries cf, cf_deny_countries cf, cf_challenge_countries cf}" for what ss
    using that by (intro same) (auto simp: entries_def)
  then show ?thesis unfolding compile_def fresh by simp
qed

definition demo_libs :: libs where
  "demo_libs = \<lparr>lb_addr = (\<lambda>s. if s = ''a'' then Some \<lparr>ad_width = 32, ad_val = 1, ad_zone = []\<rparr> else None),
     lb_prefix = (\<lambda>s. None), lb_time = (\<lambda>l w. if w = ''soon'' then Some hour else None)\<rparr>"

definition demo_config :: config where
  "demo_config = \<lparr>cf_allow = [''a until soon''], cf_deny = [''b''], cf_allow_countries = [], cf_deny_countries = [''fr''],
     cf_challenge_countries = [], cf_refuse_unknown = False, cf_routes = [], cf_onion = False, cf_now = zero_time\<rparr>"

theorem stable_until_next_expiry_witness:
  "compile demo_libs minute demo_config = compile demo_libs 0 demo_config"
proof -
  have "rl_next (fst (compile demo_libs 0 demo_config)) = hour" by code_simp
  then show ?thesis using stable_until_next_expiry [of demo_config 0 minute demo_libs] by (simp add: demo_config_def dur_defs)
qed

section \<open>What the address rules mean\<close>

text \<open>What is documented of netip: the widths, the values within them, and prefixes no longer than the address.\<close>

definition libs_ok :: "libs \<Rightarrow> bool" where
  "libs_ok lib \<longleftrightarrow> (\<forall>s a. lb_addr lib s = Some a \<longrightarrow> ad_width a \<in> {32, 128} \<and> ad_val a < 2 ^ ad_width a)
     \<and> (\<forall>s p. lb_prefix lib s = Some p \<longrightarrow> px_width p \<in> {32, 128} \<and> px_val p < 2 ^ px_width p \<and> px_bits p \<le> px_width p)"

text \<open>An address as Source looks at it, and an IPv4 address written as IPv6.\<close>

definition canonical :: "addr \<Rightarrow> addr" where
  "canonical a = (unmap a)\<lparr>ad_zone := []\<rparr>"

definition mapped :: "addr \<Rightarrow> addr" where
  "mapped a = \<lparr>ad_width = 128, ad_val = 65535 * 2 ^ 32 + ad_val a, ad_zone = []\<rparr>"

text \<open>An entry names an address when it is that host, or when the address, as it is or written as an IPv4-mapped one, is in its network.\<close>

definition names :: "libs \<Rightarrow> string \<Rightarrow> addr \<Rightarrow> bool" where
  "names lib s a =
     (let s = trim_space s in
      if skipped s then False
      else if CHR ''/'' \<notin> set s then (case lb_addr lib s of None \<Rightarrow> False | Some b \<Rightarrow> canonical b = a)
      else (case lb_prefix lib s of
              None \<Rightarrow> False
            | Some p \<Rightarrow> px_contains p a \<or> ad_width a = 32 \<and> 96 \<le> px_bits p \<and> px_contains p (mapped a)))"

definition in_force :: "libs \<Rightarrow> time \<Rightarrow> string \<Rightarrow> string option" where
  "in_force lib now s =
     (let s = trim_space s in
      if skipped s then None
      else case fst (live_entry lib s now zero_time) of (entry, ok, why) \<Rightarrow> if why = [] \<and> ok then Some entry else None)"

definition listed :: "libs \<Rightarrow> time \<Rightarrow> string list \<Rightarrow> addr \<Rightarrow> bool" where
  "listed lib now ss a \<longleftrightarrow> (\<exists>s \<in> set ss. \<exists>entry. in_force lib now s = Some entry \<and> names lib entry a)"

lemma live_entry_fst: "fst (live_entry lib s now n) = fst (live_entry lib s now n')"
  by (auto simp: live_entry_def Let_def split: option.split)

lemma keep_set: "set (fst (keep_entries lib now what ss c)) = {e. \<exists>s \<in> set ss. in_force lib now s = Some e}"
proof (induction ss arbitrary: c)
  case (Cons s ss)
  obtain x ok why nxt where l: "live_entry lib (trim_space s) now (co_next c) = ((x, ok, why), nxt)" by (metis surj_pair)
  then have "fst (live_entry lib (trim_space s) now zero_time) = (x, ok, why)" using live_entry_fst [of lib _ now zero_time] by (metis fst_conv)
  then have f: "in_force lib now s = (if skipped (trim_space s) \<or> why \<noteq> [] \<or> \<not> ok then None else Some x)"
    by (simp add: in_force_def Let_def)
  show ?case unfolding list.set bex_simps ex_disj_distrib by (auto simp: Let_def l f Cons.IH case_prod_beta)
qed simp

lemma nets_set:
  "set (fst (parse_nets lib what ss c)) = {p. \<exists>s \<in> set ss. \<not> skipped (trim_space s) \<and> parse_net lib (trim_space s) = Some p}"
proof (induction ss arbitrary: c)
  case (Cons s ss)
  then show ?case by (cases "parse_net lib (trim_space s)") (auto simp: Let_def case_prod_beta)
qed simp

lemma masked_div: "px_val (masked p) div 2 ^ (px_width p - px_bits p) = px_val p div 2 ^ (px_width p - px_bits p)"
  by (simp add: masked_def Let_def)

lemma masked_shape [simp]: "px_width (masked p) = px_width p" "px_bits (masked p) = px_bits p"
  by (simp_all add: masked_def Let_def)

lemma contains_masked [simp]: "px_contains (masked p) a = px_contains p a"
  by (simp add: px_contains_def masked_def Let_def)

lemma div_32: "k \<le> 32 \<Longrightarrow> (x :: nat) div 2 ^ 32 = x div 2 ^ k div 2 ^ (32 - k)"
  by (simp flip: div_mult2_eq power_add)

lemma high_part: "k \<le> 32 \<Longrightarrow> (65535 * 2 ^ 32 + x :: nat) div 2 ^ k = 65535 * 2 ^ (32 - k) + x div 2 ^ k"
proof -
  assume k: "k \<le> 32"
  have "(65535 * 2 ^ 32 :: nat) = 2 ^ k * (65535 * 2 ^ (32 - k))" using k by (simp flip: power_add)
  then show ?thesis by (simp only: div_mult_self4 [of "2 ^ k"] add.commute) simp
qed

lemma split_32: "(v :: nat) div 2 ^ 32 = 65535 \<Longrightarrow> v = 65535 * 2 ^ 32 + v mod 2 ^ 32"
  using div_mult_mod_eq [of v "2 ^ 32"] by presburger

text \<open>A prefix that reads as an IPv4-mapped address after masking is at least 96 bits long.\<close>

lemma masked_4in6:
  assumes "px_width p = 128" "px_bits p \<le> 128" "is_4in6 128 (px_val (masked p))"
  shows "96 \<le> px_bits p"
proof (rule ccontr)
  let ?k = "128 - px_bits p" and ?v = "px_val p div 2 ^ (128 - px_bits p)"
  assume "\<not> 96 \<le> px_bits p"
  define n where "n = 128 - px_bits p - 33"
  have n: "?k = Suc (32 + n)" using \<open>\<not> 96 \<le> px_bits p\<close> by (simp add: n_def)
  have "px_val (masked p) = 2 * (?v * 2 ^ n) * 2 ^ 32" using assms(1) by (simp add: masked_def Let_def n power_add)
  then have "px_val (masked p) div 2 ^ 32 = 2 * (?v * 2 ^ n)" by simp
  with assms(3) have "65535 = 2 * (?v * 2 ^ n)" by (simp add: is_4in6_def)
  then show False by presburger
qed

lemma net_of_mapped:
  assumes k: "k \<le> 32" and v: "v div 2 ^ 32 = 65535"
  shows "(65535 * 2 ^ 32 + x) div 2 ^ k = v div 2 ^ k \<longleftrightarrow> x div 2 ^ k = v mod 2 ^ 32 div (2 :: nat) ^ k"
  using split_32 [OF v] high_part [OF k, of x] high_part [OF k, of "v mod 2 ^ 32"] by simp

lemma unwrapped_contains:
  assumes p: "px_width p \<in> {32, 128}" "px_bits p \<le> px_width p"
    and a: "ad_zone a = []" "ad_val a < 2 ^ ad_width a" "\<not> is_4in6 (ad_width a) (ad_val a)"
  shows "px_contains (unwrap (masked p)) a \<longleftrightarrow>
    px_contains p a \<or> ad_width a = 32 \<and> 96 \<le> px_bits p \<and> px_contains p (mapped a)"
proof (cases "is_4in6 (px_width p) (px_val (masked p))")
  case True
  define k where "k = 128 - px_bits p"
  from True have w: "px_width p = 128" by (simp add: is_4in6_def)
  with True p(2) have bits: "96 \<le> px_bits p" by (intro masked_4in6) auto
  then have k: "k \<le> 32" "32 - (px_bits p - 96) = k" using p(2) w by (simp_all add: k_def)
  have m: "px_val (masked p) div 2 ^ k = px_val p div 2 ^ k" using masked_div [of p] by (simp add: w k_def)
  have v: "px_val (masked p) div 2 ^ 32 = 65535" "px_val p div 2 ^ 32 = 65535"
    using True m div_32 [OF k(1), of "px_val p"] div_32 [OF k(1), of "px_val (masked p)"] by (auto simp: is_4in6_def)
  have "\<not> px_contains p a"
    using a(3) v(2) div_32 [OF k(1), of "px_val p"] div_32 [OF k(1), of "ad_val a"] by (auto simp: px_contains_def Let_def w is_4in6_def k_def)
  moreover have "px_contains p (mapped a) \<longleftrightarrow> ad_val a div 2 ^ k = px_val p mod 2 ^ 32 div 2 ^ k"
    using net_of_mapped [OF k(1) v(2), of "ad_val a"] by (simp add: px_contains_def Let_def mapped_def w k_def)
  moreover have "px_val (masked p) mod 2 ^ 32 div 2 ^ k = px_val p mod 2 ^ 32 div 2 ^ k"
    using net_of_mapped [OF k(1) v(1), of "px_val p mod 2 ^ 32"] split_32 [OF v(2)] m by simp
  ultimately show ?thesis using True bits a(1) k(2) w by (auto simp: px_contains_def unwrap_def Let_def masked_def)
next
  case False
  have "\<not> px_contains p (mapped a)" if "96 \<le> px_bits p" and w32: "ad_width a = 32"
  proof
    assume c: "px_contains p (mapped a)"
    then have w: "px_width p = 128" by (simp add: px_contains_def mapped_def)
    define k where "k = 128 - px_bits p"
    have k: "k \<le> 32" using that by (simp add: k_def)
    have "(65535 * 2 ^ 32 + ad_val a) div 2 ^ 32 = 65535" using a(2) w32 high_part [of 32 "ad_val a"] by simp
    moreover
    have "px_val (masked p) div 2 ^ k = (65535 * 2 ^ 32 + ad_val a) div 2 ^ k"
      using c masked_div [of p] by (simp add: px_contains_def Let_def mapped_def w k_def)
    then have "px_val (masked p) div 2 ^ 32 = (65535 * 2 ^ 32 + ad_val a) div 2 ^ 32"
      using div_32 [OF k, of "px_val (masked p)"] div_32 [OF k, of "65535 * 2 ^ 32 + ad_val a"] by simp
    ultimately show False using False w by (simp add: is_4in6_def)
  qed
  then show ?thesis using False by (auto simp: unwrap_def)
qed

lemma canonical_ok:
  assumes "ad_width a \<in> {32, 128}" "ad_val a < 2 ^ ad_width a"
  shows "ad_zone (canonical a) = []" "ad_val (canonical a) < 2 ^ ad_width (canonical a)"
    "\<not> is_4in6 (ad_width (canonical a)) (ad_val (canonical a))" "ad_width (canonical a) \<in> {32, 128}"
  using assms by (auto simp: canonical_def unmap_def is_4in6_def)

lemma names_net:
  assumes lib: "libs_ok lib" and a: "ad_zone a = []" "ad_val a < 2 ^ ad_width a" "\<not> is_4in6 (ad_width a) (ad_val a)"
  shows "names lib s a \<longleftrightarrow> (\<exists>p. \<not> skipped (trim_space s) \<and> parse_net lib (trim_space s) = Some p \<and> px_contains p a)"
proof (cases "CHR ''/'' \<in> set (trim_space s)")
  case True
  then show ?thesis using lib unwrapped_contains [OF _ _ a]
    by (auto simp: names_def parse_net_def libs_ok_def Let_def split: option.split)
next
  case False
  have host: "px_contains \<lparr>px_width = ad_width (unmap b), px_val = ad_val (unmap b), px_bits = ad_width (unmap b)\<rparr> a \<longleftrightarrow> canonical b = a" for b
    using a(1) by (cases a; cases "unmap b") (auto simp: px_contains_def canonical_def)
  show ?thesis using False host by (auto simp: names_def parse_net_def Let_def split: option.split)
qed

lemma compile_nets:
  assumes "cf_now cf = zero_time" "\<not> cf_onion cf"
  shows "set (rl_allow (fst (compile lib now cf))) =
      {p. \<exists>s \<in> set (cf_allow cf). \<exists>e. in_force lib now s = Some e \<and> \<not> skipped (trim_space e) \<and> parse_net lib (trim_space e) = Some p}"
    and "set (rl_deny (fst (compile lib now cf))) =
      {p. \<exists>s \<in> set (cf_deny cf). \<exists>e. in_force lib now s = Some e \<and> \<not> skipped (trim_space e) \<and> parse_net lib (trim_space e) = Some p}"
  using assms nets_set keep_set by (auto simp: compile_def Let_def case_prod_beta)

text \<open>
  C11. The operator's networks do exactly what is written. For every policy and every client address, outside a Tor space: the client is refused exactly when an entry of
  the deny list that is in force names its address; otherwise it is trusted exactly when an entry of the allow list in force names it; a refusal wins.
  An entry in IPv4-mapped form names the IPv4 addresses it maps, and blank lines, notes, ended and unreadable entries name nothing.
\<close>

theorem source_verdict_exact:
  assumes lib: "libs_ok lib" and cf: "cf_now cf = zero_time" "\<not> cf_onion cf" and a: "lb_addr lib ip = Some a"
  shows "source_verdict lib (fst (compile lib now cf)) ip =
    (if listed lib now (cf_deny cf) (canonical a) then VerdictDeny
     else if listed lib now (cf_allow cf) (canonical a) then VerdictAllow else VerdictNone)"
proof -
  have wf: "ad_width a \<in> {32, 128}" "ad_val a < 2 ^ ad_width a" using lib a by (auto simp: libs_ok_def)
  note n = names_net [OF lib canonical_ok(1-3) [OF wf]]
  let ?r = "fst (compile lib now cf)"
  have "list_ex (\<lambda>p. px_contains p (canonical a)) (rl_deny ?r) \<longleftrightarrow> listed lib now (cf_deny cf) (canonical a)"
    "list_ex (\<lambda>p. px_contains p (canonical a)) (rl_allow ?r) \<longleftrightarrow> listed lib now (cf_allow cf) (canonical a)"
    unfolding list_ex_iff compile_nets [OF cf] listed_def n by blast+
  then show ?thesis using a by (auto simp: source_verdict_def Let_def canonical_def)
qed

theorem source_verdict_exact_witness:
  "source_verdict demo_libs (fst (compile demo_libs 0 demo_config)) ''a'' = VerdictAllow"
proof -
  have "libs_ok demo_libs" by (auto simp: libs_ok_def demo_libs_def)
  moreover have a: "lb_addr demo_libs ''a'' = Some \<lparr>ad_width = 32, ad_val = 1, ad_zone = []\<rparr>" by (simp add: demo_libs_def)
  moreover have "in_force demo_libs 0 ''a until soon'' = Some ''a''" "names demo_libs ''a'' \<lparr>ad_width = 32, ad_val = 1, ad_zone = []\<rparr>"
    "in_force demo_libs 0 ''b'' = Some ''b''" "\<not> names demo_libs ''b'' \<lparr>ad_width = 32, ad_val = 1, ad_zone = []\<rparr>" by code_simp+
  moreover have "canonical \<lparr>ad_width = 32, ad_val = 1, ad_zone = []\<rparr> = \<lparr>ad_width = 32, ad_val = 1, ad_zone = []\<rparr>"
    by (simp add: canonical_def unmap_def is_4in6_def)
  ultimately show ?thesis using source_verdict_exact [of demo_libs demo_config "''a''" _ 0] by (simp add: demo_config_def listed_def)
qed

text \<open>A prefix overlaps another exactly when some address is in both, so that AllowsAny spares every network with a trusted host in it.\<close>

lemma overlaps_iff:
  assumes "px_bits p \<le> px_width p" "px_bits q \<le> px_width q"
  shows "px_overlaps p q \<longleftrightarrow> (\<exists>a. px_contains p a \<and> px_contains q a)"
proof -
  have nested: "x div 2 ^ (w - b) = (x div 2 ^ (w - b')) div 2 ^ (b' - b)" if "b \<le> b'" "b' \<le> w" for x w b b' :: nat
    using that by (simp flip: div_mult2_eq power_add)
  have sym: "px_overlaps p q \<longleftrightarrow> px_overlaps q p" by (auto simp: px_overlaps_def min.commute Let_def)
  have *: "px_overlaps p q \<longleftrightarrow> (\<exists>a. px_contains p a \<and> px_contains q a)"
    if le: "px_bits p \<le> px_bits q" and q: "px_bits q \<le> px_width q" for p q
  proof
    assume "px_overlaps p q"
    then have "px_contains p \<lparr>ad_width = px_width q, ad_val = px_val q, ad_zone = []\<rparr>"
      using le by (auto simp: px_overlaps_def px_contains_def Let_def)
    moreover have "px_contains q \<lparr>ad_width = px_width q, ad_val = px_val q, ad_zone = []\<rparr>" by (simp add: px_contains_def)
    ultimately show "\<exists>a. px_contains p a \<and> px_contains q a" by blast
  next
    assume "\<exists>a. px_contains p a \<and> px_contains q a"
    then show "px_overlaps p q"
      using le q nested [OF le q] by (auto simp: px_overlaps_def px_contains_def Let_def)
  qed
  show ?thesis
  proof (cases "px_bits p \<le> px_bits q")
    case False
    then show ?thesis using * [of q p] assms sym by auto
  qed (use * assms in blast)
qed

text \<open>In a Tor space no address and no country is judged.\<close>

lemma inert_in_tor:
  assumes "cf_onion cf"
  shows "source_verdict lib (fst (compile lib now cf)) ip = VerdictNone"
    "country_verdict (fst (compile lib now cf)) code = VerdictNone" "\<not> allows_any lib (fst (compile lib now cf)) key"
  using assms by (auto simp: compile_def source_verdict_def country_verdict_def allows_any_def Let_def case_prod_beta)

text \<open>A prefix matches on the boundary of a segment, and a weight is at least one.\<close>

lemma has_prefix_append: "has_prefix s p \<longleftrightarrow> (\<exists>t. s = p @ t)"
  by (induction s p rule: has_prefix.induct) auto

lemma path_prefix_segment:
  assumes "trim_suffix pre ''/'' \<notin> {[], ''/''}"
  shows "path_has_prefix path pre \<longleftrightarrow> path = trim_suffix pre ''/'' \<or> (\<exists>t. path = trim_suffix pre ''/'' @ CHR ''/'' # t)"
proof -
  let ?p = "trim_suffix pre ''/''"
  have "path_has_prefix path pre \<longleftrightarrow> (\<exists>t. path = ?p @ t \<and> (t = [] \<or> t ! 0 = CHR ''/''))"
    using assms by (auto simp: path_has_prefix_def Let_def has_prefix_append nth_append)
  also have "\<dots> \<longleftrightarrow> path = ?p \<or> (\<exists>t. path = ?p @ CHR ''/'' # t)"
    by (metis append_Nil2 list.exhaust nth_Cons_0)
  finally show ?thesis .
qed

lemma cost_positive: "1 \<le> cost_of r host path meth"
  by (auto simp: cost_of_def split: option.split)

text \<open>When the last entry of an exclusive country list ends, the fence is gone: every country is served.\<close>

lemma ended_fence_is_open:
  assumes "cf_now cf = zero_time" "\<forall>s \<in> set (cf_allow_countries cf). in_force lib now s = None"
    and "\<forall>s \<in> set (cf_deny_countries cf) \<union> set (cf_challenge_countries cf). in_force lib now s = None"
  shows "country_verdict (fst (compile lib now cf)) code = VerdictNone"
proof -
  have "fst (keep_entries lib now what ss c) = []" if "\<forall>s \<in> set ss. in_force lib now s = None" for what ss c
    using keep_set [of lib now what ss c] that by auto
  then show ?thesis using assms by (auto simp: compile_def country_verdict_def country_set_def Let_def case_prod_beta)
qed

end
