(* ===== verification/Prefilter.thy ===== *)
theory Prefilter
  imports Policy Redeem Complex_Main
begin

unbundle bit_operations_syntax

text \<open>
  The pre-filter of heavy hitters (src/internal/vayushield/prefilter/prefilter.go): a count-min sketch over two windows, the
  probability of shedding and Check. A buffer of counters is a function from positions to 32-bit words. The calls follow one another; the
  random number is an argument; probabilities are exact rationals.
\<close>

section \<open>The sketch\<close>

definition depth :: nat where "depth = 4"
definition width :: nat where "width = 8192"
definition window_sec :: int where "window_sec = 10"
definition default_fair_share :: int where "default_fair_share = 60"
definition subnet_factor :: int where "subnet_factor = 8"
definition max_shed :: rat where "max_shed = 98 / 100"

type_synonym counters = "nat \<Rightarrow> 32 word"

record prefilter =
  pf_even :: counters
  pf_odd :: counters
  pf_epoch :: int
  pf_share :: int
  pf_cur :: int
  pf_prev :: int
  pf_shed :: int

definition new_prefilter :: prefilter where
  "new_prefilter = \<lparr>pf_even = (\<lambda>_. 0), pf_odd = (\<lambda>_. 0), pf_epoch = 0, pf_share = 0, pf_cur = 0, pf_prev = 0, pf_shed = 0\<rparr>"

definition set_fair_share :: "int \<Rightarrow> prefilter \<Rightarrow> prefilter" where
  "set_fair_share n p = p\<lparr>pf_share := (if n \<le> 0 then 0 else n)\<rparr>"

definition fair_share :: "prefilter \<Rightarrow> int" where
  "fair_share p = (if pf_share p > 0 then pf_share p else default_fair_share)"

definition window_rate :: "prefilter \<Rightarrow> int" where
  "window_rate p = (if pf_cur p > pf_prev p then pf_cur p else pf_prev p)"

definition cell :: "64 word \<Rightarrow> nat \<Rightarrow> nat" where
  "cell h i =
     (let h2 = drop_bit 32 h OR push_bit 32 h
      in i * width + unat ((h + of_nat i * h2) AND of_nat (width - 1)))"

text \<open>One pass over the rows: each counter goes up by one and the least sum with the window before is kept.\<close>

fun bump_rows :: "64 word \<Rightarrow> counters \<Rightarrow> nat list \<Rightarrow> 32 word \<Rightarrow> counters \<Rightarrow> 32 word \<times> counters" where
  "bump_rows h before [] est cur = (est, cur)"
| "bump_rows h before (i # is) est cur =
     (let c = cur (cell h i) + 1; v = c + before (cell h i)
      in bump_rows h before is (if v < est then v else est) (cur(cell h i := c)))"

definition bump_and_estimate :: "counters \<Rightarrow> 64 word \<Rightarrow> counters \<Rightarrow> 32 word \<times> counters" where
  "bump_and_estimate before h cur = bump_rows h before [0..<depth] (NOT 0) cur"

definition shed_prob :: "int \<Rightarrow> int \<Rightarrow> rat" where
  "shed_prob est budget =
     (if est \<le> budget \<or> budget \<le> 0 then 0
      else (let pr = 1 - of_int budget / of_int est in if pr > max_shed then max_shed else pr))"

definition rotate_sketch :: "time \<Rightarrow> prefilter \<Rightarrow> prefilter" where
  "rotate_sketch now p =
     (let e = go_quot (unix now) window_sec in
      if pf_epoch p = e then p
      else (let p = p\<lparr>pf_epoch := e, pf_prev := pf_cur p, pf_cur := 0\<rparr>
            in if even e then p\<lparr>pf_even := (\<lambda>_. 0)\<rparr> else p\<lparr>pf_odd := (\<lambda>_. 0)\<rparr>))"

definition hash64 :: "string \<Rightarrow> 64 word" where
  "hash64 s = fnv64 14695981039346656037 s"

text \<open>The first \<open>n\<close> bytes of an address.\<close>

definition addr_bytes :: "nat \<Rightarrow> addr \<Rightarrow> string" where
  "addr_bytes n a = map (\<lambda>i. char_of (ad_val a div 256 ^ (ad_width a div 8 - 1 - i))) [0..<n]"

definition subnet_hash :: "libs \<Rightarrow> string \<Rightarrow> 64 word" where
  "subnet_hash lib ip =
     (case lb_addr lib ip of
        None \<Rightarrow> hash64 (CHR ''g'' # ip)
      | Some a \<Rightarrow>
          (let a = unmap a in
           if ad_width a = 32 then hash64 (CHR ''g'' # CHR 0x04 # addr_bytes 3 a)
           else hash64 (CHR ''g'' # CHR 0x06 # addr_bytes 6 a)))"

definition shed_chance :: "bool \<Rightarrow> prefilter \<Rightarrow> 32 word \<Rightarrow> 32 word \<Rightarrow> rat" where
  "shed_chance pressure p k s =
     (if \<not> pressure then 0
      else (let fs = fair_share p; prob = shed_prob (int (unat k)) fs; sp = shed_prob (int (unat s)) (fs * subnet_factor)
            in if sp > prob then sp else prob))"

definition pf_check :: "libs \<Rightarrow> time \<Rightarrow> string \<Rightarrow> bool \<Rightarrow> rat \<Rightarrow> prefilter \<Rightarrow> bool \<times> prefilter" where
  "pf_check lib now ip pressure u p =
     (let p = rotate_sketch now p; p = p\<lparr>pf_cur := pf_cur p + 1\<rparr>; ev = even (pf_epoch p);
          cur = (if ev then pf_even p else pf_odd p); before = (if ev then pf_odd p else pf_even p);
          (k, cur) = bump_and_estimate before (hash64 ip) cur;
          (s, cur) = bump_and_estimate before (subnet_hash lib ip) cur;
          p = (if ev then p\<lparr>pf_even := cur\<rparr> else p\<lparr>pf_odd := cur\<rparr>);
          prob = shed_chance pressure p k s
      in if prob \<le> 0 then (False, p)
         else if u < prob then (True, p\<lparr>pf_shed := pf_shed p + 1\<rparr>)
         else (False, p))"

text \<open>What Check sees of its key and of its network.\<close>

definition pf_estimates :: "libs \<Rightarrow> time \<Rightarrow> string \<Rightarrow> prefilter \<Rightarrow> 32 word \<times> 32 word" where
  "pf_estimates lib now ip p =
     (let p = rotate_sketch now p; ev = even (pf_epoch p);
          cur = (if ev then pf_even p else pf_odd p); before = (if ev then pf_odd p else pf_even p);
          (k, cur) = bump_and_estimate before (hash64 ip) cur
      in (k, fst (bump_and_estimate before (subnet_hash lib ip) cur)))"

section \<open>What the sketch counts\<close>

lemma cell_row: "cell h i div width = i"
proof -
  have w: "0 < width" by (simp add: width_def)
  have "unat (x AND of_nat (width - 1)) < width" for x :: "64 word"
  proof -
    have "x AND of_nat (width - 1) \<le> of_nat (width - 1)" by (rule word_and_le1)
    then have "unat (x AND of_nat (width - 1)) \<le> unat (of_nat (width - 1) :: 64 word)" by (simp add: word_le_nat_alt)
    also have "\<dots> < width" by (simp add: width_def)
    finally show ?thesis .
  qed
  then show ?thesis using w by (simp add: cell_def Let_def)
qed

lemma cell_eq_row: "cell h i = cell h' j \<Longrightarrow> i = j"
  by (metis cell_row)

lemma bump_rows_cur:
  "distinct is \<Longrightarrow> snd (bump_rows h before is est cur) = (\<lambda>x. cur x + of_bool (\<exists>i \<in> set is. x = cell h i))"
proof (induction "is" arbitrary: est cur)
  case (Cons i "is")
  then have "\<not> (\<exists>j \<in> set is. cell h i = cell h j)" by (auto dest: cell_eq_row)
  with Cons show ?case by (auto simp: Let_def fun_eq_iff)
qed simp

lemma bump_rows_est:
  "distinct is \<Longrightarrow> fst (bump_rows h before is est cur) = est
     \<or> (\<exists>i \<in> set is. fst (bump_rows h before is est cur) = cur (cell h i) + 1 + before (cell h i))"
proof (induction "is" arbitrary: est cur)
  case (Cons i "is")
  let ?v = "cur (cell h i) + 1 + before (cell h i)" and ?cur = "cur(cell h i := cur (cell h i) + 1)"
  let ?est = "if ?v < est then ?v else est"
  have other: "?cur (cell h j) = cur (cell h j)" if "j \<in> set is" for j using Cons.prems that by (auto dest: cell_eq_row)
  have "fst (bump_rows h before (i # is) est cur) = fst (bump_rows h before is ?est ?cur)" by (simp add: Let_def)
  moreover have "fst (bump_rows h before is ?est ?cur) = ?est
      \<or> (\<exists>j \<in> set is. fst (bump_rows h before is ?est ?cur) = ?cur (cell h j) + 1 + before (cell h j))"
    using Cons by (simp del: fun_upd_apply)
  ultimately show ?case using other by (auto simp del: fun_upd_apply split: if_splits)
qed simp

lemma bump_rows_le: "fst (bump_rows h before is est cur) \<le> est"
proof (induction "is" arbitrary: est cur)
  case (Cons i "is")
  let ?v = "cur (cell h i) + 1 + before (cell h i)"
  have "fst (bump_rows h before (i # is) est cur) \<le> (if ?v < est then ?v else est)"
    using Cons.IH by (simp add: Let_def del: fun_upd_apply)
  also have "\<dots> \<le> est" by auto
  finally show ?case .
qed simp

text \<open>The estimate of a key is what one of its own counters reads after the bump.\<close>

lemma estimate_is_a_cell:
  "\<exists>i < depth. fst (bump_and_estimate before h cur) = cur (cell h i) + 1 + before (cell h i)"
proof -
  let ?v = "cur (cell h 0) + 1 + before (cell h 0)"
  have rows: "[0..<depth] = 0 # [1..<depth]" by (simp add: depth_def upt_rec)
  have "fst (bump_and_estimate before h cur) \<le> (if ?v < NOT 0 then ?v else NOT 0)"
    unfolding bump_and_estimate_def rows by (simp add: Let_def bump_rows_le del: fun_upd_apply)
  also have "\<dots> \<le> ?v" by (auto simp: not_less)
  finally have le: "fst (bump_and_estimate before h cur) \<le> ?v" .
  consider (top) "fst (bump_and_estimate before h cur) = NOT 0"
    | (own) "\<exists>i \<in> set [0..<depth]. fst (bump_and_estimate before h cur) = cur (cell h i) + 1 + before (cell h i)"
    using bump_rows_est [of "[0..<depth]" h before "NOT 0" cur] unfolding bump_and_estimate_def by auto
  then show ?thesis
  proof cases
    case top
    then have "fst (bump_and_estimate before h cur) = ?v" using le by (simp add: word_order.extremum_unique)
    then show ?thesis by (intro exI [of _ 0]) (simp add: depth_def)
  qed auto
qed

section \<open>A heavy hitter is never missed\<close>

text \<open>A run of calls: the instant, the address, the pressure and the number drawn of each.\<close>

type_synonym pf_call = "time \<times> string \<times> bool \<times> rat"

definition window_of :: "pf_call \<Rightarrow> int" where
  "window_of c = go_quot (unix (fst c)) window_sec"

fun pf_run :: "libs \<Rightarrow> pf_call list \<Rightarrow> prefilter \<Rightarrow> prefilter" where
  "pf_run lib [] p = p"
| "pf_run lib ((now, ip, pressure, u) # cs) p = pf_run lib cs (snd (pf_check lib now ip pressure u p))"

text \<open>How many increments the calls of window \<open>e\<close> give the key \<open>h\<close>, as an address and as a network.\<close>

definition pf_hits :: "libs \<Rightarrow> 64 word \<Rightarrow> pf_call \<Rightarrow> nat" where
  "pf_hits lib h c = of_bool (hash64 (fst (snd c)) = h) + of_bool (subnet_hash lib (fst (snd c)) = h)"

definition demand :: "libs \<Rightarrow> int \<Rightarrow> 64 word \<Rightarrow> pf_call list \<Rightarrow> nat" where
  "demand lib e h cs = (\<Sum>c \<leftarrow> filter (\<lambda>c. window_of c = e) cs. pf_hits lib h c)"

definition pf_buf :: "int \<Rightarrow> prefilter \<Rightarrow> counters" where
  "pf_buf e p = (if even e then pf_even p else pf_odd p)"

definition pf_covers :: "libs \<Rightarrow> pf_call list \<Rightarrow> prefilter \<Rightarrow> bool" where
  "pf_covers lib cs p \<longleftrightarrow>
     (\<forall>c \<in> set cs. window_of c \<le> pf_epoch p)
     \<and> (\<forall>x. unat (pf_even p x) + unat (pf_odd p x) \<le> 2 * length cs)
     \<and> (\<forall>h. \<forall>i < depth. demand lib (pf_epoch p) h cs \<le> unat (pf_buf (pf_epoch p) p (cell h i))
                     \<and> demand lib (pf_epoch p - 1) h cs \<le> unat (pf_buf (pf_epoch p - 1) p (cell h i)))"

lemma demand_none: "(\<And>c. c \<in> set cs \<Longrightarrow> window_of c \<noteq> e) \<Longrightarrow> demand lib e h cs = 0"
  by (induction cs) (simp_all add: demand_def)

lemma demand_snoc: "demand lib e h (cs @ [c]) = demand lib e h cs + (if window_of c = e then pf_hits lib h c else 0)"
  by (simp add: demand_def)

lemma pf_buf_unchanged [simp]:
  "pf_buf e (p\<lparr>pf_cur := a\<rparr>) = pf_buf e p" "pf_buf e (p\<lparr>pf_shed := a\<rparr>) = pf_buf e p"
  "pf_buf e (p\<lparr>pf_prev := a\<rparr>) = pf_buf e p" "pf_buf e (p\<lparr>pf_epoch := e'\<rparr>) = pf_buf e p"
  by (simp_all add: pf_buf_def)

lemma rotate_epoch [simp]: "pf_epoch (rotate_sketch now p) = window_of (now, r)"
  by (simp add: rotate_sketch_def window_of_def Let_def)

lemma rotate_buf:
  "pf_buf e (rotate_sketch now p) = (if pf_epoch p \<noteq> window_of (now, r) \<and> (even e \<longleftrightarrow> even (window_of (now, r))) then (\<lambda>_. 0) else pf_buf e p)"
  by (simp add: rotate_sketch_def window_of_def pf_buf_def Let_def)

lemma rotate_share [simp]: "fair_share (rotate_sketch now p) = fair_share p"
  by (simp add: rotate_sketch_def fair_share_def Let_def)

lemma buf_total: "unat (pf_buf e p x) + unat (pf_buf (e - 1) p x) = unat (pf_even p x) + unat (pf_odd p x)"
  by (simp add: pf_buf_def)

lemma covers_rotate:
  assumes "pf_covers lib cs p" "pf_epoch p \<le> window_of (now, r)"
  shows "pf_covers lib cs (rotate_sketch now p)"
proof -
  let ?e = "window_of (now, r)" and ?q = "rotate_sketch now p"
  have past: "\<forall>c \<in> set cs. window_of c \<le> pf_epoch p" using assms(1) by (simp add: pf_covers_def)
  have total: "unat (pf_even ?q x) + unat (pf_odd ?q x) \<le> 2 * length cs" for x
  proof -
    have "unat (pf_even ?q x) + unat (pf_odd ?q x) \<le> unat (pf_even p x) + unat (pf_odd p x)"
      by (simp add: rotate_sketch_def Let_def)
    also have "\<dots> \<le> 2 * length cs" using assms(1) by (simp add: pf_covers_def)
    finally show ?thesis .
  qed
  show ?thesis
  proof (cases "pf_epoch p = ?e")
    case True
    then have "?q = p" by (simp add: rotate_sketch_def window_of_def)
    then show ?thesis using assms(1) by simp
  next
    case False
    then have later: "pf_epoch p < ?e" using assms(2) by simp
    then have "demand lib ?e h cs = 0" for h using past by (intro demand_none) auto
    moreover have "demand lib (?e - 1) h cs \<le> unat (pf_buf (?e - 1) ?q (cell h i))" if "i < depth" for h i
    proof (cases "?e - 1 = pf_epoch p")
      case True
      moreover have "even (?e - 1) \<noteq> even ?e" by simp
      then have "pf_buf (?e - 1) ?q = pf_buf (?e - 1) p" by (metis rotate_buf)
      ultimately show ?thesis using assms(1) that by (simp add: pf_covers_def)
    next
      case False
      then have "demand lib (?e - 1) h cs = 0" using past later by (intro demand_none) auto
      then show ?thesis by simp
    qed
    ultimately show ?thesis using past later total by (auto simp: pf_covers_def rotate_epoch [of _ _ r])
  qed
qed

lemma bump_adds:
  "snd (bump_and_estimate before h cur) = (\<lambda>x. cur x + of_bool (\<exists>i < depth. x = cell h i))"
  by (auto simp: bump_and_estimate_def bump_rows_cur fun_eq_iff)

lemma check_state:
  fixes now ip lib p pressure u
  defines "q \<equiv> rotate_sketch now p"
  defines "e \<equiv> pf_epoch q"
  defines "p' \<equiv> snd (pf_check lib now ip pressure u p)"
  shows "pf_epoch p' = e" "pf_buf (e - 1) p' = pf_buf (e - 1) q"
    "pf_buf e p' = (\<lambda>x. pf_buf e q x + of_bool (\<exists>i < depth. x = cell (hash64 ip) i) + of_bool (\<exists>i < depth. x = cell (subnet_hash lib ip) i))"
  unfolding p'_def pf_check_def Let_def q_def [symmetric]
  by (simp_all add: e_def pf_buf_def case_prod_beta bump_adds)

lemma unat_add_of_bool: "unat (w :: 32 word) + 1 < 2 ^ 32 \<Longrightarrow> unat (w + of_bool b) = unat w + of_bool b"
  by (cases b) (auto simp: unat_add_lem [THEN iffD1])

lemma covers_check:
  assumes "pf_covers lib cs p" "pf_epoch p \<le> window_of (now, ip, pressure, u)" "2 * length cs + 2 < 2 ^ 32"
  shows "pf_covers lib (cs @ [(now, ip, pressure, u)]) (snd (pf_check lib now ip pressure u p))"
proof -
  let ?c = "(now, ip, pressure, u)" and ?q = "rotate_sketch now p" and ?p = "snd (pf_check lib now ip pressure u p)"
  define e where "e = window_of ?c"
  have q: "pf_covers lib cs ?q" using covers_rotate assms by blast
  have ep: "pf_epoch ?q = e" "pf_epoch ?p = e" by (simp_all add: check_state(1) rotate_epoch [of _ _ "(ip, pressure, u)"] e_def)
  have total: "unat (pf_buf e ?q x) + unat (pf_buf (e - 1) ?q x) \<le> 2 * length cs" for x
    using q unfolding buf_total by (simp add: pf_covers_def)
  have cur: "unat (pf_buf e ?p x) = unat (pf_buf e ?q x) + of_bool (\<exists>i < depth. x = cell (hash64 ip) i)
               + of_bool (\<exists>i < depth. x = cell (subnet_hash lib ip) i)" for x
    using total [of x] assms(3) check_state(3) [where now = now and p = p and lib = lib and ip = ip and pressure = pressure and u = u]
    by (simp add: ep unat_add_of_bool)
  have prev: "pf_buf (e - 1) ?p = pf_buf (e - 1) ?q"
    using check_state(2) [where now = now and p = p and lib = lib and ip = ip and pressure = pressure and u = u] by (simp add: ep)
  have "demand lib e h (cs @ [?c]) \<le> unat (pf_buf e ?p (cell h i))" if "i < depth" for h i
  proof -
    have "pf_hits lib h ?c \<le> of_bool (\<exists>j < depth. cell h i = cell (hash64 ip) j) + of_bool (\<exists>j < depth. cell h i = cell (subnet_hash lib ip) j)"
      using that by (auto simp: pf_hits_def)
    moreover have "demand lib e h cs \<le> unat (pf_buf e ?q (cell h i))" using q that by (simp add: pf_covers_def ep)
    ultimately show ?thesis by (simp add: demand_snoc e_def [symmetric] cur)
  qed
  moreover have "demand lib (e - 1) h (cs @ [?c]) \<le> unat (pf_buf (e - 1) ?p (cell h i))" if "i < depth" for h i
    using q that by (simp add: demand_snoc prev e_def [symmetric] pf_covers_def ep)
  moreover have "unat (pf_even ?p x) + unat (pf_odd ?p x) \<le> 2 * length (cs @ [?c])" for x
    using total [of x] unfolding buf_total [symmetric, where e = e] cur prev by simp
  moreover have "\<forall>c \<in> set (cs @ [?c]). window_of c \<le> e" using q by (auto simp: pf_covers_def ep e_def)
  ultimately show ?thesis by (simp add: pf_covers_def ep)
qed

lemma covers_run:
  assumes "pf_covers lib ds p" "sorted (map window_of cs)" "\<forall>c \<in> set cs. pf_epoch p \<le> window_of c"
    "2 * (length ds + length cs) < 2 ^ 32"
  shows "pf_covers lib (ds @ cs) (pf_run lib cs p) \<and> pf_epoch (pf_run lib cs p) \<in> insert (pf_epoch p) (window_of ` set cs)"
  using assms
proof (induction cs arbitrary: ds p)
  case (Cons c cs)
  obtain now ip pressure u where c: "c = (now, ip, pressure, u)" by (cases c) auto
  let ?p = "snd (pf_check lib now ip pressure u p)"
  have e: "pf_epoch ?p = window_of c" by (simp add: check_state(1) rotate_epoch [of _ _ "(ip, pressure, u)"] c)
  have "pf_covers lib (ds @ [c]) ?p" using covers_check [of lib ds p now ip pressure u] Cons.prems by (auto simp: c)
  then have "pf_covers lib ((ds @ [c]) @ cs) (pf_run lib cs ?p) \<and> pf_epoch (pf_run lib cs ?p) \<in> insert (pf_epoch ?p) (window_of ` set cs)"
    using Cons.prems e by (intro Cons.IH) auto
  then show ?case using e by (auto simp: c)
qed (simp add: pf_covers_def)

lemma covers_new: "pf_covers lib [] new_prefilter"
  by (simp add: pf_covers_def new_prefilter_def demand_def)

lemma shed_prob_mono: "0 < b \<Longrightarrow> a \<le> a' \<Longrightarrow> shed_prob a b \<le> shed_prob a' b"
  by (auto simp: shed_prob_def Let_def max_shed_def frac_le)

lemma check_sheds:
  fixes now ip lib p pressure
  defines "q \<equiv> rotate_sketch now p"
  shows "fst (pf_check lib now ip pressure u p) \<longleftrightarrow>
     (case pf_estimates lib now ip p of (k, s) \<Rightarrow>
        0 < shed_chance pressure q k s \<and> u < shed_chance pressure q k s)"
  by (auto simp: pf_check_def pf_estimates_def Let_def case_prod_beta shed_chance_def fair_share_def q_def [symmetric])

lemma check_share [simp]: "pf_share (snd (pf_check lib now ip pressure u p)) = pf_share p"
  by (simp add: pf_check_def rotate_sketch_def Let_def case_prod_beta)

lemma run_share [simp]: "pf_share (pf_run lib cs p) = pf_share p"
  by (induction lib cs p rule: pf_run.induct) simp_all

text \<open>How many requests of the calls in the window of \<open>now\<close> and the one before are of the key, the one at \<open>now\<close> included.\<close>

definition asked :: "(string \<Rightarrow> bool) \<Rightarrow> time \<Rightarrow> pf_call list \<Rightarrow> nat" where
  "asked mine now cs =
     (let e = go_quot (unix now) window_sec
      in length (filter (\<lambda>c. (window_of c = e \<or> window_of c = e - 1) \<and> mine (fst (snd c))) cs) + 1)"

lemma asked_le_demand:
  assumes "\<And>x. mine x \<Longrightarrow> hash64 x = h \<or> subnet_hash lib x = h"
  shows "asked mine now cs \<le> demand lib (window_of (now, r)) h cs + demand lib (window_of (now, r) - 1) h cs + 1"
proof (induction cs)
  case (Cons c cs)
  have "mine (fst (snd c)) \<Longrightarrow> 1 \<le> pf_hits lib h c" using assms by (auto simp: pf_hits_def)
  with Cons show ?case by (auto simp: asked_def demand_def window_of_def Let_def)
qed (simp add: asked_def)

lemma estimate_at_least:
  assumes "\<And>i. i < depth \<Longrightarrow> a \<le> unat (cur (cell h i))" "\<And>i. i < depth \<Longrightarrow> b \<le> unat (before (cell h i))"
    "\<And>x. unat (cur x) + unat (before x) + 1 < 2 ^ 32"
  shows "a + b + 1 \<le> unat (fst (bump_and_estimate before h cur))"
proof -
  obtain i where i: "i < depth" "fst (bump_and_estimate before h cur) = cur (cell h i) + 1 + before (cell h i)"
    using estimate_is_a_cell by blast
  have "unat (cur (cell h i) + 1 + before (cell h i)) = unat (cur (cell h i)) + 1 + unat (before (cell h i))"
    using assms(3) [of "cell h i"] by (simp add: unat_word_ariths)
  then show ?thesis using i assms(1) [OF i(1)] assms(2) [OF i(1)] by simp
qed

lemma estimates_cover:
  assumes "pf_covers lib cs p" "pf_epoch p \<le> window_of (now, r)" "2 * (length cs + 1) < 2 ^ 32"
  shows "asked (\<lambda>x. x = ip) now cs \<le> unat (fst (pf_estimates lib now ip p))"
    "asked (\<lambda>x. subnet_hash lib x = subnet_hash lib ip) now cs \<le> unat (snd (pf_estimates lib now ip p))"
proof -
  let ?q = "rotate_sketch now p"
  define e where "e = window_of (now, r)"
  define cur where "cur = pf_buf e ?q"
  define before where "before = pf_buf (e - 1) ?q"
  define cur' where "cur' = snd (bump_and_estimate before (hash64 ip) cur)"
  have q: "pf_covers lib cs ?q" "pf_epoch ?q = e" using covers_rotate assms rotate_epoch e_def by auto
  have total: "unat (cur x) + unat (before x) \<le> 2 * length cs" for x
    using q unfolding cur_def before_def buf_total by (simp add: pf_covers_def)
  have lower: "demand lib e h cs \<le> unat (cur (cell h i))" "demand lib (e - 1) h cs \<le> unat (before (cell h i))" if "i < depth" for h i
    using q that by (simp_all add: pf_covers_def cur_def before_def)
  have step: "unat (cur' x) = unat (cur x) + of_bool (\<exists>i < depth. x = cell (hash64 ip) i)" for x
    using total [of x] assms(3) by (simp add: cur'_def bump_adds unat_add_of_bool)
  have est: "pf_estimates lib now ip p = (fst (bump_and_estimate before (hash64 ip) cur), fst (bump_and_estimate before (subnet_hash lib ip) cur'))"
    by (auto simp: pf_estimates_def Let_def case_prod_beta q cur'_def cur_def before_def pf_buf_def)
  have "demand lib e (hash64 ip) cs + demand lib (e - 1) (hash64 ip) cs + 1 \<le> unat (fst (pf_estimates lib now ip p))"
    unfolding est fst_conv
  proof (intro estimate_at_least)
    show "unat (cur x) + unat (before x) + 1 < 2 ^ 32" for x using total [of x] assms(3) by simp
  qed (rule lower, assumption)+
  then show "asked (\<lambda>x. x = ip) now cs \<le> unat (fst (pf_estimates lib now ip p))"
    using asked_le_demand [of "\<lambda>x. x = ip" "hash64 ip" lib now cs r] by (simp add: e_def)
  let ?s = "subnet_hash lib ip"
  have "demand lib e ?s cs + demand lib (e - 1) ?s cs + 1 \<le> unat (snd (pf_estimates lib now ip p))"
    unfolding est snd_conv
  proof (intro estimate_at_least)
    show "demand lib e ?s cs \<le> unat (cur' (cell ?s i))" if "i < depth" for i using lower(1) [OF that, of ?s] by (simp add: step)
    show "unat (cur' x) + unat (before x) + 1 < 2 ^ 32" for x using total [of x] assms(3) by (simp add: step)
  qed (rule lower(2))
  then show "asked (\<lambda>x. subnet_hash lib x = ?s) now cs \<le> unat (snd (pf_estimates lib now ip p))"
    using asked_le_demand [of "\<lambda>x. subnet_hash lib x = ?s" ?s lib now cs r] by (simp add: e_def)
qed

text \<open>
  C24. The pre-filter misses no heavy hitter and sheds nobody else (prefilter.go, Check with bumpAndEstimate, rotate and shedProb). After
  any run of checks by a clock that does not go backwards, under pressure: when an address has asked \<open>n\<close> times in the current and the
  previous window, or its network \<open>m\<close> times, a request is shed whenever the number drawn is below the ramp of \<open>n\<close> over the fair
  share or of \<open>m\<close> over eight times the fair share; and a request is shed only under pressure, when the estimate of the address or of
  its network is over that budget, and never when the number drawn is 0.98 or more. The counters are 32 bits wide: the run is shorter than
  \<open>2\<^sup>31\<close> calls.
\<close>

theorem heavy_hitter_is_shed:
  fixes n :: int and cs :: "pf_call list" and lib :: libs
  defines "p \<equiv> pf_run lib cs (set_fair_share n new_prefilter)"
  assumes "sorted (map window_of (cs @ [(now, ip, pressure, u)]))" "\<forall>c \<in> set (cs @ [(now, ip, pressure, u)]). 0 \<le> window_of c"
    and "2 * (length cs + 1) < 2 ^ 32" "0 \<le> u"
  shows "(pressure \<and> (u < shed_prob (int (asked (\<lambda>x. x = ip) now cs)) (fair_share p)
            \<or> u < shed_prob (int (asked (\<lambda>x. subnet_hash lib x = subnet_hash lib ip) now cs)) (fair_share p * subnet_factor))
          \<longrightarrow> fst (pf_check lib now ip pressure u p))
       \<and> (fst (pf_check lib now ip pressure u p) \<longrightarrow>
            pressure \<and> u < max_shed \<and>
            (fair_share p < int (unat (fst (pf_estimates lib now ip p)))
             \<or> fair_share p * subnet_factor < int (unat (snd (pf_estimates lib now ip p)))))"
proof -
  let ?p0 = "set_fair_share n new_prefilter"
  have new: "pf_covers lib [] ?p0" "pf_epoch ?p0 = 0" using covers_new [of lib]
    by (simp_all add: pf_covers_def set_fair_share_def new_prefilter_def pf_buf_def)
  have run: "pf_covers lib cs p \<and> pf_epoch p \<in> insert 0 (window_of ` set cs)"
    using covers_run [OF new(1), of cs] assms(2-4) new(2) by (simp add: p_def sorted_append)
  then have "pf_epoch p \<le> window_of (now, ip, pressure, u)" using assms(2,3) by (auto simp: sorted_append)
  note est = estimates_cover [OF conjunct1 [OF run] this assms(4), of ip]
  have fs: "0 < fair_share p" "0 < fair_share p * subnet_factor" by (simp_all add: fair_share_def default_fair_share_def subnet_factor_def)
  note low = shed_prob_mono [OF fs(1), of _ "int (unat (fst (pf_estimates lib now ip p)))"]
    shed_prob_mono [OF fs(2), of _ "int (unat (snd (pf_estimates lib now ip p)))"]
  have "0 \<le> max_shed" by (simp add: max_shed_def)
  then have "shed_prob a b \<le> max_shed" "\<not> b < a \<longrightarrow> shed_prob a b = 0" for a b by (auto simp: shed_prob_def Let_def)
  then have ramp: "x < shed_prob a b \<Longrightarrow> 0 \<le> x \<Longrightarrow> b < a \<and> x < max_shed" for x a b
    by (metis less_le_trans not_less)
  have chance: "fst (pf_check lib now ip pressure u p) \<longleftrightarrow> pressure \<and>
      (u < shed_prob (int (unat (fst (pf_estimates lib now ip p)))) (fair_share p)
       \<or> u < shed_prob (int (unat (snd (pf_estimates lib now ip p)))) (fair_share p * subnet_factor))"
    unfolding check_sheds using assms(5) by (auto simp: case_prod_beta shed_chance_def Let_def)
  show ?thesis unfolding chance using est low assms(5) ramp by (meson le_less_trans less_le_trans of_nat_le_iff)
qed

text \<open>At the address that asked 100 times in one window: under pressure a draw of 0.3 sheds it.\<close>

definition pf_flood :: "nat \<Rightarrow> pf_call list" where
  "pf_flood n = replicate n (unix_epoch, ''192.0.2.7'', True, 9 / 10)"

definition no_libs :: libs where
  "no_libs = \<lparr>lb_addr = (\<lambda>_. None), lb_prefix = (\<lambda>_. None), lb_time = (\<lambda>_ _. None)\<rparr>"

lemma heavy_hitter_is_shed_witness:
  "fst (pf_check no_libs unix_epoch ''192.0.2.7'' True (1 / 10) (pf_run no_libs (pf_flood 3) (set_fair_share 2 new_prefilter)))"
proof -
  have w: "window_of (unix_epoch, r) = 0" for r by (simp add: window_of_def unix_def go_quot_def)
  have flood: "pf_flood 3 = [(unix_epoch, ''192.0.2.7'', True, 9 / 10), (unix_epoch, ''192.0.2.7'', True, 9 / 10), (unix_epoch, ''192.0.2.7'', True, 9 / 10)]"
    by (simp add: pf_flood_def numeral_3_eq_3)
  have n: "asked (\<lambda>x. x = ''192.0.2.7'') unix_epoch (pf_flood 3) = 4"
    by (simp add: asked_def flood w unix_def go_quot_def)
  have "fair_share (pf_run no_libs (pf_flood 3) (set_fair_share 2 new_prefilter)) = 2"
    by (simp add: fair_share_def set_fair_share_def)
  moreover have "(1 / 10 :: rat) < shed_prob 4 2" by (simp add: shed_prob_def max_shed_def)
  ultimately show ?thesis
    using heavy_hitter_is_shed [of "pf_flood 3" unix_epoch "''192.0.2.7''" True "1 / 10" no_libs 2] n by (simp add: flood w)
qed

section \<open>What the windows do not forget\<close>

text \<open>
  The package says the estimates cover the current and the previous window. rotate clears the buffer that becomes current and keeps the
  other one whatever its age: after a gap of any odd number of windows, the counts of the last window that saw a request are still added
  to the estimate of the current one.
\<close>

lemma old_window_is_counted:
  assumes "odd (go_quot (unix now) window_sec - pf_epoch p)"
  shows "\<exists>i < depth. fst (pf_estimates lib now ip p) = 1 + pf_buf (pf_epoch p) p (cell (hash64 ip) i)"
proof -
  let ?e = "go_quot (unix now) window_sec" and ?q = "rotate_sketch now p"
  have w: "window_of (now, r) = ?e" for r :: "string \<times> bool \<times> rat" by (simp add: window_of_def)
  have new: "pf_epoch p \<noteq> ?e" using assms by auto
  then have cur: "pf_buf ?e ?q = (\<lambda>_. 0)" by (simp add: rotate_buf [of _ _ _ undefined] w)
  have before: "pf_buf (?e - 1) ?q = pf_buf (pf_epoch p) p" using assms new
    by (auto simp: rotate_sketch_def Let_def pf_buf_def)
  have "pf_epoch ?q = ?e" by (simp add: rotate_epoch [of _ _ undefined] w)
  then have "fst (pf_estimates lib now ip p) = fst (bump_and_estimate (pf_buf (?e - 1) ?q) (hash64 ip) (pf_buf ?e ?q))"
    by (simp add: pf_estimates_def Let_def case_prod_beta pf_buf_def)
  then show ?thesis using estimate_is_a_cell [of "pf_buf (pf_epoch p) p" "hash64 ip" "\<lambda>_. 0"] by (simp add: cur before)
qed

text \<open>
  The package also says that a client at or under its budget can never be shed. A light client of a busy network is: its own count is one,
  and the network's estimate alone decides.
\<close>

lemma light_client_of_busy_network_is_shed:
  assumes "pf_estimates lib now ip p = (1, s)" "0 \<le> u" "u < shed_prob (int (unat s)) (fair_share p * subnet_factor)"
  shows "fst (pf_check lib now ip True u p)"
  unfolding check_sheds using assms by (auto simp: shed_chance_def Let_def)

end
