(* ===== verification/Api_Perms.thy ===== *)
theory Api_Perms
  imports Vayu_Prelude
begin

text \<open>
  The capabilities of an API key (src/internal/apikeys/permissions.go and keyinfo.go): sections and actions, the grant set with its two
  wildcards, the check, the comparison of two grant sets, and the envelope stored in the database. The text of the column is what
  encoding/json makes of it: nothing, an envelope, or something that does not parse.
\<close>

section \<open>Grant sets\<close>

definition section_all :: string where "section_all = ''*''"
definition action_all :: string where "action_all = ''*''"

definition all_sections :: "string list" where
  "all_sections = [''posts'', ''themes'', ''design'', ''plugins'', ''domains'', ''analytics'', ''media'', ''comments'', ''members'', ''mail'',
     ''settings'', ''backup'']"

definition all_actions :: "string list" where
  "all_actions = [''read'', ''write'', ''delete'', ''apply'', ''install'', ''export'']"

definition valid_section :: "string \<Rightarrow> bool" where
  "valid_section s \<longleftrightarrow> s = section_all \<or> s \<in> set all_sections"

definition valid_action :: "string \<Rightarrow> bool" where
  "valid_action a \<longleftrightarrow> a = action_all \<or> a \<in> set all_actions"

type_synonym permissions = "(string, (string, bool) gomap) gomap"

definition new_permissions :: permissions where
  "new_permissions = []"

definition superuser :: permissions where
  "superuser = [(section_all, [(action_all, True)])]"

definition grant :: "string \<Rightarrow> string \<Rightarrow> permissions \<Rightarrow> permissions" where
  "grant s a p =
     (if \<not> valid_section s \<or> \<not> valid_action a then p
      else map_put s (map_put a True (get_or [] p s)) p)"

definition has_exact :: "permissions \<Rightarrow> string \<Rightarrow> string \<Rightarrow> bool" where
  "has_exact p s a = (case map_get p s of None \<Rightarrow> False | Some m \<Rightarrow> get_or False m a)"

definition has_cap :: "permissions \<Rightarrow> string \<Rightarrow> string \<Rightarrow> bool" where
  "has_cap p s a =
     (if length p = 0 then False
      else if has_exact p section_all action_all then True
      else if has_exact p s action_all then True
      else has_exact p s a)"

definition is_superuser :: "permissions \<Rightarrow> bool" where
  "is_superuser p = has_exact p section_all action_all"

definition covers :: "permissions \<Rightarrow> permissions \<Rightarrow> bool" where
  "covers p other = list_all (\<lambda>(s, acts). list_all (\<lambda>(a, _). has_cap p s a) acts) other"

definition perms_empty :: "permissions \<Rightarrow> bool" where
  "perms_empty p = list_all (\<lambda>(_, acts). length acts = 0) p"

section \<open>The stored envelope\<close>

record perms_wire =
  pw_version :: int
  pw_grants :: "(string, string list) gomap"

datatype perms_column = NoText | Junk | Envelope perms_wire

definition perms_schema_version :: int where
  "perms_schema_version = 1"

definition marshal_perms :: "permissions \<Rightarrow> perms_wire" where
  "marshal_perms p =
     \<lparr>pw_version = perms_schema_version, pw_grants = map (\<lambda>(s, acts). (s, sort (map fst acts))) (filter (\<lambda>(_, acts). length acts \<noteq> 0) p)\<rparr>"

definition marshal_string :: "permissions \<Rightarrow> perms_column" where
  "marshal_string p = Envelope (marshal_perms p)"

fun grant_all :: "string \<Rightarrow> string list \<Rightarrow> permissions \<Rightarrow> permissions" where
  "grant_all s [] p = p"
| "grant_all s (a # acts) p = grant_all s acts (grant s a p)"

fun unmarshal_grants :: "(string \<times> string list) list \<Rightarrow> permissions \<Rightarrow> permissions" where
  "unmarshal_grants [] out = out"
| "unmarshal_grants ((s, acts) # gs) out =
     (if \<not> valid_section s then unmarshal_grants gs out else unmarshal_grants gs (grant_all s acts out))"

definition unmarshal_perms :: "perms_wire \<Rightarrow> permissions" where
  "unmarshal_perms w = unmarshal_grants (pw_grants w) []"

definition parse_permissions :: "perms_column \<Rightarrow> permissions" where
  "parse_permissions c = (case c of NoText \<Rightarrow> [] | Junk \<Rightarrow> [] | Envelope w \<Rightarrow> unmarshal_perms w)"

definition cap_text :: "string \<Rightarrow> string \<Rightarrow> string" where
  "cap_text s a = s @ '':'' @ a"

definition capability_list :: "permissions \<Rightarrow> string list" where
  "capability_list p = sort (concat (map (\<lambda>(s, acts). map (\<lambda>(a, _). cap_text s a) acts) p))"

fun parse_from :: "string \<Rightarrow> string \<Rightarrow> string \<times> string \<times> bool" where
  "parse_from before [] = ([], [], False)"
| "parse_from before (c # cs) =
     (if c = CHR '':'' then (before, cs, valid_section before \<and> valid_action cs) else parse_from (before @ [c]) cs)"

definition parse_capability :: "string \<Rightarrow> string \<times> string \<times> bool" where
  "parse_capability t = parse_from [] t"

section \<open>The identity of a key\<close>

definition scope_internal :: string where "scope_internal = ''internal''"
definition scope_external :: string where "scope_external = ''external''"

record key_info =
  ki_id :: string
  ki_label :: string
  ki_scope :: string
  ki_owner :: string
  ki_perms :: permissions
  ki_expires :: "time option"
  ki_rate :: int
  ki_domain :: string

definition superuser_key_info :: "string \<Rightarrow> string \<Rightarrow> string \<Rightarrow> key_info" where
  "superuser_key_info i label scope =
     \<lparr>ki_id = i, ki_label = label, ki_scope = scope, ki_owner = [], ki_perms = superuser, ki_expires = None, ki_rate = 0, ki_domain = []\<rparr>"

definition ki_can :: "key_info \<Rightarrow> string \<Rightarrow> string \<Rightarrow> bool" where
  "ki_can ki s a = (if ki_scope ki = scope_internal then True else has_cap (ki_perms ki) s a)"

definition ki_superuser :: "key_info \<Rightarrow> bool" where
  "ki_superuser ki \<longleftrightarrow> ki_scope ki = scope_internal \<or> is_superuser (ki_perms ki)"

section \<open>What a grant set means\<close>

text \<open>A grant set as the code builds it: one entry for each section and action, known tokens, no entry that is false.\<close>

definition acts_ok :: "(string, bool) gomap \<Rightarrow> bool" where
  "acts_ok m \<longleftrightarrow> gomap_ok m \<and> (\<forall>a v. map_get m a = Some v \<longrightarrow> v \<and> valid_action a)"

definition perms_ok :: "permissions \<Rightarrow> bool" where
  "perms_ok p \<longleftrightarrow> gomap_ok p \<and> (\<forall>s m. map_get p s = Some m \<longrightarrow> valid_section s \<and> acts_ok m)"

lemma has_cap_iff: "has_cap p s a \<longleftrightarrow> has_exact p section_all action_all \<or> has_exact p s action_all \<or> has_exact p s a"
  by (auto simp: has_cap_def has_exact_def)

lemma has_exact_grant:
  "has_exact (grant s a p) s' a' \<longleftrightarrow> has_exact p s' a' \<or> (valid_section s \<and> valid_action a \<and> s' = s \<and> a' = a)"
  by (auto simp: grant_def has_exact_def gomap_simps get_or_def split: option.splits)

lemma perms_ok_new [simp]: "perms_ok new_permissions" "perms_ok []"
  by (simp_all add: perms_ok_def new_permissions_def)

lemma perms_ok_superuser [simp]: "perms_ok superuser"
  by (simp add: perms_ok_def acts_ok_def superuser_def valid_section_def valid_action_def)

lemma perms_ok_grant [simp]: "perms_ok p \<Longrightarrow> perms_ok (grant s a p)"
proof (cases "valid_section s \<and> valid_action a")
  case True
  assume p: "perms_ok p"
  have "acts_ok (get_or [] p s)" using p by (auto simp: perms_ok_def get_or_def acts_ok_def simp del: map_of_eq_Some_iff split: option.split)
  then have "acts_ok (map_put a True (get_or [] p s))" using True by (auto simp: acts_ok_def gomap_simps simp del: map_of_eq_Some_iff)
  then show ?thesis using p True by (simp add: perms_ok_def grant_def gomap_simps del: map_of_eq_Some_iff)
qed (auto simp: grant_def)

lemma has_exact_entry:
  assumes "perms_ok p"
  shows "has_exact p s a \<longleftrightarrow> (\<exists>m. (s, m) \<in> set p \<and> a \<in> fst ` set m)"
proof -
  have entry: "map_get p s = Some m \<longleftrightarrow> (s, m) \<in> set p" for m using assms by (simp add: perms_ok_def map_get_iff_in_set)
  show ?thesis
  proof (cases "map_get p s")
    case None
    then show ?thesis using entry by (auto simp: has_exact_def)
  next
    case (Some m)
    then have "acts_ok m" using assms by (simp add: perms_ok_def del: map_of_eq_Some_iff)
    then have "get_or False m a \<longleftrightarrow> map_get m a \<noteq> None"
      by (cases "map_get m a") (auto simp: acts_ok_def get_or_def simp del: map_of_eq_Some_iff)
    then have "get_or False m a \<longleftrightarrow> a \<in> fst ` set m" by (simp add: map_of_eq_None_iff)
    moreover have "(s, m') \<in> set p \<longleftrightarrow> m' = m" for m' using Some entry [of m'] by (metis option.inject)
    ultimately show ?thesis using Some by (auto simp: has_exact_def simp del: map_of_eq_Some_iff)
  qed
qed

text \<open>
  A key cannot hand out what it does not hold (permissions.go, Covers). One grant set covers another exactly when everything the
  other allows, in every section and for every action, the wildcards included, the first allows too.
\<close>

lemma covers_inclusion:
  assumes "perms_ok q"
  shows "covers p q \<longleftrightarrow> (\<forall>s a. has_cap q s a \<longrightarrow> has_cap p s a)"
proof
  assume c: "covers p q"
  have exact: "has_cap p s a" if "has_exact q s a" for s a
    using c that has_exact_entry [OF assms] by (fastforce simp: covers_def list_all_iff)
  show "\<forall>s a. has_cap q s a \<longrightarrow> has_cap p s a"
  proof (intro allI impI)
    fix s a assume "has_cap q s a"
    then consider "has_exact q section_all action_all" | "has_exact q s action_all" | "has_exact q s a" by (auto simp: has_cap_iff)
    then show "has_cap p s a" using exact by cases (auto simp: has_cap_iff)
  qed
next
  assume i: "\<forall>s a. has_cap q s a \<longrightarrow> has_cap p s a"
  have "has_cap p s a" if "(s, m) \<in> set q" "(a, v) \<in> set m" for s m a v
  proof -
    have "has_exact q s a" using that has_exact_entry [OF assms] by force
    then show ?thesis using i by (auto simp: has_cap_iff)
  qed
  then show "covers p q" by (auto simp: covers_def list_all_iff)
qed

section \<open>The envelope\<close>

lemma grant_all_spec:
  "perms_ok p \<Longrightarrow> perms_ok (grant_all s acts p)
     \<and> (\<forall>s' a'. has_exact (grant_all s acts p) s' a' \<longleftrightarrow> has_exact p s' a' \<or> (valid_section s \<and> s' = s \<and> a' \<in> set acts \<and> valid_action a'))"
  by (induction acts arbitrary: p) (auto simp: has_exact_grant)

lemma unmarshal_spec:
  "perms_ok p \<Longrightarrow> perms_ok (unmarshal_grants gs p)
     \<and> (\<forall>s a. has_exact (unmarshal_grants gs p) s a \<longleftrightarrow>
          has_exact p s a \<or> (valid_section s \<and> valid_action a \<and> (\<exists>acts. (s, acts) \<in> set gs \<and> a \<in> set acts)))"
proof (induction gs arbitrary: p)
  case (Cons g gs)
  obtain s acts where g: "g = (s, acts)" by (cases g)
  show ?case using Cons.IH [of "if valid_section s then grant_all s acts p else p"] Cons.prems grant_all_spec [of p s acts]
    by (auto simp: g)
qed simp

lemma parse_ok [simp]: "perms_ok (parse_permissions c)"
  using unmarshal_spec [of "[]"] by (simp add: parse_permissions_def unmarshal_perms_def split: perms_column.split)

text \<open>
  What is granted is what is stored and read back (permissions.go, MarshalJSON, UnmarshalJSON and ParsePermissions). A grant set
  built by Grant allows after the round through the column exactly what it allowed before; and whatever the column holds, it grants only
  known actions of known sections, and nothing at all when it does not parse.
\<close>

lemma stored_grants:
  assumes "perms_ok p"
  shows "has_cap (parse_permissions (marshal_string p)) s a = has_cap p s a
     \<and> (has_exact (parse_permissions c) s a \<longrightarrow> valid_section s \<and> valid_action a \<and> (\<exists>w. c = Envelope w))"
proof
  have "has_exact (parse_permissions (marshal_string p)) s a = has_exact p s a" for s a
  proof -
    let ?gs = "pw_grants (marshal_perms p)"
    have "(\<exists>acts. (s, acts) \<in> set ?gs \<and> a \<in> set acts) \<longleftrightarrow> (\<exists>m. (s, m) \<in> set p \<and> a \<in> fst ` set m)"
      unfolding marshal_perms_def by (auto simp: image_iff Bex_def) force+
    also have "\<dots> \<longleftrightarrow> has_exact p s a" using has_exact_entry [OF assms] by simp
    finally have gs: "(\<exists>acts. (s, acts) \<in> set ?gs \<and> a \<in> set acts) \<longleftrightarrow> has_exact p s a" .
    have "has_exact p s a \<Longrightarrow> valid_section s \<and> valid_action a" using assms
      by (auto simp: perms_ok_def acts_ok_def has_exact_def get_or_def simp del: map_of_eq_Some_iff split: option.splits)
    then show ?thesis using unmarshal_spec [of "[]" ?gs] gs
      by (auto simp: parse_permissions_def marshal_string_def unmarshal_perms_def has_exact_def)
  qed
  then show "has_cap (parse_permissions (marshal_string p)) s a = has_cap p s a" by (simp add: has_cap_iff)
  show "has_exact (parse_permissions c) s a \<longrightarrow> valid_section s \<and> valid_action a \<and> (\<exists>w. c = Envelope w)"
    using unmarshal_spec [of "[]"] by (auto simp: parse_permissions_def unmarshal_perms_def has_exact_def split: perms_column.split)
qed

text \<open>A printed capability parses back, for the tokens the program knows.\<close>

lemma parse_from_cut: "CHR '':'' \<notin> set s \<Longrightarrow> parse_from b (s @ '':'' @ a) = (b @ s, a, valid_section (b @ s) \<and> valid_action a)"
  by (induction s arbitrary: b) auto

lemma capability_text_roundtrip:
  assumes "valid_section s" "valid_action a"
  shows "parse_capability (cap_text s a) = (s, a, True)"
proof -
  have "list_all (\<lambda>s. CHR '':'' \<notin> set s) (section_all # all_sections)" by code_simp
  then have "CHR '':'' \<notin> set s" using assms(1) by (auto simp: valid_section_def list_all_iff)
  then show ?thesis using parse_from_cut [of s "[]" a] assms by (simp add: parse_capability_def cap_text_def)
qed

end
