(* ===== verification/Api_Keys.thy ===== *)
theory Api_Keys
  imports Api_Perms Go_Bytes Machine
begin

text \<open>
  The store of API keys (src/internal/apikeys/apikeys.go): the table of keys, the cache of the active ones, and every operation on
  them. The random bytes of a new token, the clock and whether the database answers are arguments. The table has the primary key and the
  unique index on the hash of migration 041. How SQLite compares the text of an expiry with CURRENT_TIMESTAMP is the driver's: an argument.
\<close>

section \<open>Rows and the store\<close>

definition token_prefix :: string where "token_prefix = ''vp_''"
definition internal_key_id :: string where "internal_key_id = ''internal-system''"

datatype key_error = KeyNotFound | InternalProtected | BadRate | EmptyDomain | EmptyOwner | RandomFailed | DatabaseFailed

definition unlimited :: int where "unlimited = -1"
definition max_rate_per_min :: int where "max_rate_per_min = 100000"

definition valid_rate :: "int \<Rightarrow> bool" where
  "valid_rate rate \<longleftrightarrow> rate = 0 \<or> rate = unlimited \<or> (rate \<ge> 1 \<and> rate \<le> max_rate_per_min)"

record key_row =
  kr_id :: string
  kr_label :: string
  kr_prefix :: string
  kr_hash :: string
  kr_scope :: string
  kr_created :: time
  kr_last :: "time option"
  kr_revoked :: bool
  kr_perms :: perms_column
  kr_expires :: "time option"
  kr_owner :: string
  kr_rate :: int
  kr_uses :: int
  kr_active :: bool
  kr_domain :: string

record key_view =
  kv_id :: string
  kv_label :: string
  kv_prefix :: string
  kv_scope :: string
  kv_domain :: string
  kv_created :: time
  kv_last :: "time option"
  kv_revoked :: bool
  kv_perms :: permissions
  kv_expires :: "time option"
  kv_owner :: string
  kv_rate :: int
  kv_uses :: int
  kv_active :: bool

record key_store =
  ks_rows :: "key_row list"
  ks_cache :: "(string, key_info) gomap"
  ks_ttl :: time
  ks_internal :: string

definition new_key_store :: "key_row list \<Rightarrow> key_store" where
  "new_key_store rows = \<lparr>ks_rows = rows, ks_cache = [], ks_ttl = zero_time, ks_internal = []\<rparr>"

definition hash_token :: "string \<Rightarrow> string" where
  "hash_token raw = hex_encode (sha256 raw)"

definition generate_token :: "string option \<Rightarrow> (string \<times> string) option" where
  "generate_token rnd =
     map_option (\<lambda>buf. let body = hex_encode buf in (token_prefix @ body, token_prefix @ take 6 body)) rnd"

definition invalidate :: "key_store \<Rightarrow> key_store" where
  "invalidate s = s\<lparr>ks_ttl := zero_time\<rparr>"

section \<open>Issuing and rotating\<close>

definition create_key ::
  "bool \<Rightarrow> string option \<Rightarrow> time \<Rightarrow> string \<Rightarrow> string \<Rightarrow> permissions \<Rightarrow> time option \<Rightarrow> int \<Rightarrow> string \<Rightarrow> key_store
     \<Rightarrow> (key_error + key_view \<times> string) \<times> key_store" where
  "create_key ok rnd now owner label perms expires rate domain s =
     (case generate_token rnd of
        None \<Rightarrow> (Inl RandomFailed, s)
      | Some (raw, prefix) \<Rightarrow>
          (let i = take 24 (hash_token raw) in
           if \<not> valid_rate rate then (Inl BadRate, s)
           else if \<not> ok \<or> list_ex (\<lambda>r. kr_id r = i \<or> kr_hash r = hash_token raw) (ks_rows s) then (Inl DatabaseFailed, s)
           else (let row = \<lparr>kr_id = i, kr_label = label, kr_prefix = prefix, kr_hash = hash_token raw, kr_scope = scope_external, kr_created = now,
                            kr_last = None, kr_revoked = False, kr_perms = marshal_string perms, kr_expires = expires, kr_owner = owner,
                            kr_rate = rate, kr_uses = 0, kr_active = True, kr_domain = domain\<rparr>;
                     view = \<lparr>kv_id = i, kv_label = label, kv_prefix = prefix, kv_scope = scope_external, kv_domain = domain, kv_created = now,
                             kv_last = None, kv_revoked = False, kv_perms = perms, kv_expires = expires, kv_owner = owner, kv_rate = rate,
                             kv_uses = 0, kv_active = True\<rparr>
                 in (Inr (view, raw), invalidate (s\<lparr>ks_rows := ks_rows s @ [row]\<rparr>)))))"

definition create_with_permissions ::
  "bool \<Rightarrow> string option \<Rightarrow> time \<Rightarrow> string \<Rightarrow> string \<Rightarrow> permissions \<Rightarrow> time option \<Rightarrow> int \<Rightarrow> key_store
     \<Rightarrow> (key_error + key_view \<times> string) \<times> key_store" where
  "create_with_permissions ok rnd now owner label perms expires rate s = create_key ok rnd now owner label perms expires rate [] s"

definition create_superuser :: "bool \<Rightarrow> string option \<Rightarrow> time \<Rightarrow> string \<Rightarrow> key_store \<Rightarrow> (key_error + key_view \<times> string) \<times> key_store" where
  "create_superuser ok rnd now label s = create_with_permissions ok rnd now [] label superuser None 0 s"

definition create_scoped :: "bool \<Rightarrow> string option \<Rightarrow> time \<Rightarrow> string \<Rightarrow> string \<Rightarrow> key_store \<Rightarrow> (key_error + key_view \<times> string) \<times> key_store" where
  "create_scoped ok rnd now label scope s = create_with_permissions ok rnd now [] label superuser None 0 s"

definition internal_key :: "key_store \<Rightarrow> string" where
  "internal_key s = ks_internal s"

definition mask_prefix :: "string \<Rightarrow> string" where
  "mask_prefix prefix = (if prefix = [] then [CHR 0xE2, CHR 0x80, CHR 0x94] else prefix @ [CHR 0xE2, CHR 0x80, CHR 0xA6])"

definition create_domain_scoped ::
  "bool \<Rightarrow> string option \<Rightarrow> time \<Rightarrow> string \<Rightarrow> string \<Rightarrow> string \<Rightarrow> permissions \<Rightarrow> time option \<Rightarrow> int \<Rightarrow> key_store
     \<Rightarrow> (key_error + key_view \<times> string) \<times> key_store" where
  "create_domain_scoped ok rnd now owner label domain perms expires rate s =
     (if trim_space domain = [] then (Inl EmptyDomain, s)
      else create_key ok rnd now owner label perms expires rate (trim_space domain) s)"

definition ensure_internal :: "bool \<Rightarrow> string option \<Rightarrow> time \<Rightarrow> key_store \<Rightarrow> key_error option \<times> key_store" where
  "ensure_internal ok rnd now s =
     (case generate_token rnd of
        None \<Rightarrow> (Some RandomFailed, s)
      | Some (raw, prefix) \<Rightarrow>
          if \<not> ok \<or> list_ex (\<lambda>r. kr_id r \<noteq> internal_key_id \<and> kr_hash r = hash_token raw) (ks_rows s) then (Some DatabaseFailed, s)
          else (let row = \<lparr>kr_id = internal_key_id, kr_label = ''System (internal)'', kr_prefix = prefix, kr_hash = hash_token raw,
                           kr_scope = scope_internal, kr_created = now, kr_last = None, kr_revoked = False,
                           kr_perms = Envelope \<lparr>pw_version = 0, pw_grants = []\<rparr>, kr_expires = None, kr_owner = [], kr_rate = 0, kr_uses = 0,
                           kr_active = True, kr_domain = []\<rparr>;
                    rows = (if list_ex (\<lambda>r. kr_id r = internal_key_id) (ks_rows s)
                            then map (\<lambda>r. if kr_id r = internal_key_id
                                          then r\<lparr>kr_hash := hash_token raw, kr_prefix := prefix, kr_scope := scope_internal, kr_revoked := False\<rparr>
                                          else r) (ks_rows s)
                            else ks_rows s @ [row])
                in (None, invalidate (s\<lparr>ks_rows := rows, ks_internal := raw\<rparr>))))"

text \<open>An UPDATE of the rows a condition picks; no row picked is ErrNotFound.\<close>

definition update_keys :: "bool \<Rightarrow> (key_row \<Rightarrow> bool) \<Rightarrow> (key_row \<Rightarrow> key_row) \<Rightarrow> key_store \<Rightarrow> key_error option \<times> key_store" where
  "update_keys ok P f s =
     (if \<not> ok then (Some DatabaseFailed, s)
      else if \<not> list_ex P (ks_rows s) then (Some KeyNotFound, s)
      else (None, invalidate (s\<lparr>ks_rows := map (\<lambda>r. if P r then f r else r) (ks_rows s)\<rparr>)))"

definition rotate_row ::
  "bool \<Rightarrow> string option \<Rightarrow> string \<Rightarrow> (key_row \<Rightarrow> key_row) \<Rightarrow> key_store \<Rightarrow> (key_error + string) \<times> key_store" where
  "rotate_row ok rnd i f s =
     (if i = internal_key_id then (Inl InternalProtected, s)
      else case generate_token rnd of
        None \<Rightarrow> (Inl RandomFailed, s)
      | Some (raw, prefix) \<Rightarrow>
          (let P = (\<lambda>r. kr_id r = i \<and> \<not> kr_revoked r);
               (e, s') = update_keys (ok \<and> \<not> (list_ex P (ks_rows s) \<and> list_ex (\<lambda>r. kr_id r \<noteq> i \<and> kr_hash r = hash_token raw) (ks_rows s))) P
                           (\<lambda>r. f (r\<lparr>kr_hash := hash_token raw, kr_prefix := prefix, kr_last := None\<rparr>)) s
           in case e of Some err \<Rightarrow> (Inl err, s') | None \<Rightarrow> (Inr raw, s')))"

definition rotate_key :: "bool \<Rightarrow> string option \<Rightarrow> string \<Rightarrow> key_store \<Rightarrow> (key_error + string) \<times> key_store" where
  "rotate_key ok rnd i s = rotate_row ok rnd i (\<lambda>r. r) s"

definition rotate_with_expiry :: "bool \<Rightarrow> string option \<Rightarrow> string \<Rightarrow> time option \<Rightarrow> key_store \<Rightarrow> (key_error + string) \<times> key_store" where
  "rotate_with_expiry ok rnd i expires s = rotate_row ok rnd i (\<lambda>r. r\<lparr>kr_expires := expires\<rparr>) s"

section \<open>Withdrawing and editing\<close>

definition revoke_key :: "bool \<Rightarrow> string \<Rightarrow> key_store \<Rightarrow> key_error option \<times> key_store" where
  "revoke_key ok i s =
     (if i = internal_key_id then (Some InternalProtected, s) else update_keys ok (\<lambda>r. kr_id r = i) (\<lambda>r. r\<lparr>kr_revoked := True\<rparr>) s)"

definition revoke_owned_by :: "bool \<Rightarrow> string \<Rightarrow> key_store \<Rightarrow> (key_error + nat) \<times> key_store" where
  "revoke_owned_by ok owner s =
     (if trim_space owner = [] then (Inl EmptyOwner, s)
      else if \<not> ok then (Inl DatabaseFailed, s)
      else (let P = (\<lambda>r. kr_owner r = owner \<and> \<not> kr_revoked r \<and> kr_id r \<noteq> internal_key_id); n = length (filter P (ks_rows s));
                s' = s\<lparr>ks_rows := map (\<lambda>r. if P r then r\<lparr>kr_revoked := True\<rparr> else r) (ks_rows s)\<rparr>
            in (Inr n, if n > 0 then invalidate s' else s')))"

definition delete_key :: "bool \<Rightarrow> string \<Rightarrow> key_store \<Rightarrow> key_error option \<times> key_store" where
  "delete_key ok i s =
     (if i = internal_key_id then (Some InternalProtected, s)
      else if \<not> ok then (Some DatabaseFailed, s)
      else if \<not> list_ex (\<lambda>r. kr_id r = i) (ks_rows s) then (Some KeyNotFound, s)
      else (None, invalidate (s\<lparr>ks_rows := filter (\<lambda>r. kr_id r \<noteq> i) (ks_rows s)\<rparr>)))"

definition set_key_active :: "bool \<Rightarrow> string \<Rightarrow> bool \<Rightarrow> key_store \<Rightarrow> key_error option \<times> key_store" where
  "set_key_active ok i active s =
     (if i = internal_key_id then (Some InternalProtected, s) else update_keys ok (\<lambda>r. kr_id r = i) (\<lambda>r. r\<lparr>kr_active := active\<rparr>) s)"

definition set_rate_per_min :: "bool \<Rightarrow> string \<Rightarrow> int \<Rightarrow> key_store \<Rightarrow> key_error option \<times> key_store" where
  "set_rate_per_min ok i rate s =
     (if i = internal_key_id then (Some InternalProtected, s)
      else if \<not> valid_rate rate then (Some BadRate, s)
      else update_keys ok (\<lambda>r. kr_id r = i) (\<lambda>r. r\<lparr>kr_rate := rate\<rparr>) s)"

definition update_permissions :: "bool \<Rightarrow> string \<Rightarrow> permissions \<Rightarrow> key_store \<Rightarrow> key_error option \<times> key_store" where
  "update_permissions ok i perms s =
     (if i = internal_key_id then (Some InternalProtected, s)
      else update_keys ok (\<lambda>r. kr_id r = i) (\<lambda>r. r\<lparr>kr_perms := marshal_string perms\<rparr>) s)"

text \<open>Cleanup deletes the external rows whose expiry SQLite puts before the end of the grace days (\<open>ended\<close>).\<close>

definition cleanup_grace_days :: nat where "cleanup_grace_days = 30"

definition cleanup_keys :: "bool \<Rightarrow> (nat \<Rightarrow> time \<Rightarrow> bool) \<Rightarrow> key_store \<Rightarrow> (key_error + nat) \<times> key_store" where
  "cleanup_keys ok ended s =
     (if \<not> ok then (Inl DatabaseFailed, s)
      else (let P = (\<lambda>r. kr_id r \<noteq> internal_key_id \<and> kr_scope r \<noteq> scope_internal
                       \<and> (case kr_expires r of None \<Rightarrow> False | Some e \<Rightarrow> ended cleanup_grace_days e));
                n = length (filter P (ks_rows s)); s' = s\<lparr>ks_rows := filter (\<lambda>r. \<not> P r) (ks_rows s)\<rparr>
            in (Inr n, if n > 0 then invalidate s' else s')))"

definition touch_key :: "bool \<Rightarrow> time \<Rightarrow> string \<Rightarrow> key_store \<Rightarrow> key_store" where
  "touch_key ok now i s =
     (if \<not> ok then s
      else s\<lparr>ks_rows := map (\<lambda>r. if kr_id r = i
               then r\<lparr>kr_uses := kr_uses r + 1,
                      kr_last := (case kr_last r of None \<Rightarrow> Some now | Some l \<Rightarrow> if l < now - minute then Some now else Some l)\<rparr>
               else r) (ks_rows s)\<rparr>)"

section \<open>Looking keys up\<close>

definition view_of :: "key_row \<Rightarrow> key_view" where
  "view_of r = \<lparr>kv_id = kr_id r, kv_label = kr_label r, kv_prefix = kr_prefix r, kv_scope = kr_scope r, kv_domain = kr_domain r,
     kv_created = kr_created r, kv_last = kr_last r, kv_revoked = kr_revoked r, kv_perms = parse_permissions (kr_perms r),
     kv_expires = kr_expires r, kv_owner = kr_owner r, kv_rate = kr_rate r, kv_uses = kr_uses r, kv_active = kr_active r\<rparr>"

definition list_keys :: "(key_row \<Rightarrow> bool) \<Rightarrow> key_store \<Rightarrow> key_view list" where
  "list_keys extra s =
     map view_of (sort_key (\<lambda>r. (kr_scope r \<noteq> scope_internal, - kr_created r)) (filter extra (ks_rows s)))"

definition list_by_owner :: "string \<Rightarrow> key_store \<Rightarrow> key_view list" where
  "list_by_owner owner s = list_keys (\<lambda>r. kr_owner r = owner \<and> kr_scope r \<noteq> scope_internal) s"

definition info_of :: "key_row \<Rightarrow> key_info" where
  "info_of r = \<lparr>ki_id = kr_id r, ki_label = kr_label r, ki_scope = kr_scope r, ki_owner = kr_owner r, ki_perms = parse_permissions (kr_perms r),
     ki_expires = kr_expires r, ki_rate = kr_rate r, ki_domain = kr_domain r\<rparr>"

text \<open>refresh in its two halves: the query with the loop over its rows, and the store under the lock.\<close>

definition loadable :: "(time \<Rightarrow> time \<Rightarrow> bool) \<Rightarrow> time \<Rightarrow> key_row \<Rightarrow> bool" where
  "loadable alive now r \<longleftrightarrow> \<not> kr_revoked r \<and> kr_active r \<and> (case kr_expires r of None \<Rightarrow> True | Some e \<Rightarrow> alive e now)"

definition load_keys :: "(time \<Rightarrow> time \<Rightarrow> bool) \<Rightarrow> time \<Rightarrow> key_row list \<Rightarrow> (string, key_info) gomap" where
  "load_keys alive now rows = fold (\<lambda>r m. map_put (kr_hash r) (info_of r) m) (filter (loadable alive now) rows) []"

definition store_loaded :: "(string, key_info) gomap \<Rightarrow> time \<Rightarrow> key_store \<Rightarrow> key_store" where
  "store_loaded m now s = s\<lparr>ks_cache := m, ks_ttl := now + 30 * second\<rparr>"

definition refresh_keys :: "bool \<Rightarrow> (time \<Rightarrow> time \<Rightarrow> bool) \<Rightarrow> time \<Rightarrow> key_store \<Rightarrow> bool \<times> key_store" where
  "refresh_keys ok alive now s =
     (if \<not> ok then (False, s) else (True, store_loaded (load_keys alive now (ks_rows s)) now s))"

text \<open>Resolve reads the clock for the freshness of the cache, in the query, and for the hard expiry.\<close>

definition resolve_key ::
  "bool \<Rightarrow> (time \<Rightarrow> time \<Rightarrow> bool) \<Rightarrow> time \<Rightarrow> time \<Rightarrow> time \<Rightarrow> string \<Rightarrow> key_store \<Rightarrow> key_info option \<times> key_store" where
  "resolve_key ok alive now during after raw s =
     (if raw = [] then (None, s)
      else (let h = hash_token raw; s' = (if now < ks_ttl s then s else snd (refresh_keys ok alive during s)) in
            case map_get (ks_cache s') h of
              None \<Rightarrow> (None, s')
            | Some ki \<Rightarrow>
                (case ki_expires ki of
                   None \<Rightarrow> (Some ki, s')
                 | Some e \<Rightarrow> if \<not> after < e then (None, s') else (Some ki, s'))))"

definition verify_key :: "bool \<Rightarrow> (time \<Rightarrow> time \<Rightarrow> bool) \<Rightarrow> time \<Rightarrow> time \<Rightarrow> time \<Rightarrow> string \<Rightarrow> key_store \<Rightarrow> bool" where
  "verify_key ok alive now during after raw s = (fst (resolve_key ok alive now during after raw s) \<noteq> None)"

section \<open>Runs of the store\<close>

datatype key_op =
    KCreate bool "string option" time string string permissions "time option" int
  | KCreateScoped bool "string option" time string string string permissions "time option" int
  | KEnsure bool "string option" time
  | KRotate bool "string option" string
  | KRotateExpiry bool "string option" string "time option"
  | KRevoke bool string
  | KRevokeOwned bool string
  | KDelete bool string
  | KSetActive bool string bool
  | KSetRate bool string int
  | KUpdate bool string permissions
  | KCleanup bool "nat \<Rightarrow> time \<Rightarrow> bool"
  | KTouch bool time string
  | KResolve bool time time time string

datatype key_out = KTried "key_error option" | KFound "key_info option"

fun out_of :: "key_error + 'a \<Rightarrow> key_out" where
  "out_of (Inl e) = KTried (Some e)"
| "out_of (Inr _) = KTried None"

fun key_step :: "(time \<Rightarrow> time \<Rightarrow> bool) \<Rightarrow> key_op \<Rightarrow> key_store \<Rightarrow> key_out \<times> key_store" where
  "key_step alive (KCreate ok rnd now owner label perms ex rate) s = map_prod out_of id (create_with_permissions ok rnd now owner label perms ex rate s)"
| "key_step alive (KCreateScoped ok rnd now owner label d perms ex rate) s = map_prod out_of id (create_domain_scoped ok rnd now owner label d perms ex rate s)"
| "key_step alive (KEnsure ok rnd now) s = map_prod KTried id (ensure_internal ok rnd now s)"
| "key_step alive (KRotate ok rnd i) s = map_prod out_of id (rotate_key ok rnd i s)"
| "key_step alive (KRotateExpiry ok rnd i ex) s = map_prod out_of id (rotate_with_expiry ok rnd i ex s)"
| "key_step alive (KRevoke ok i) s = map_prod KTried id (revoke_key ok i s)"
| "key_step alive (KRevokeOwned ok owner) s = map_prod out_of id (revoke_owned_by ok owner s)"
| "key_step alive (KDelete ok i) s = map_prod KTried id (delete_key ok i s)"
| "key_step alive (KSetActive ok i b) s = map_prod KTried id (set_key_active ok i b s)"
| "key_step alive (KSetRate ok i n) s = map_prod KTried id (set_rate_per_min ok i n s)"
| "key_step alive (KUpdate ok i perms) s = map_prod KTried id (update_permissions ok i perms s)"
| "key_step alive (KCleanup ok ended) s = map_prod out_of id (cleanup_keys ok ended s)"
| "key_step alive (KTouch ok now i) s = (KTried None, touch_key ok now i s)"
| "key_step alive (KResolve ok now during after raw) s = map_prod KFound id (resolve_key ok alive now during after raw s)"

text \<open>The table keeps its two indexes; a cache that counts as fresh is the query's answer at the moment it was loaded.\<close>

definition rows_ok :: "key_row list \<Rightarrow> bool" where
  "rows_ok rows \<longleftrightarrow> distinct (map kr_id rows) \<and> distinct (map kr_hash rows)"

definition agrees_since :: "(time \<Rightarrow> time \<Rightarrow> bool) \<Rightarrow> time \<Rightarrow> key_store \<Rightarrow> bool" where
  "agrees_since alive t s \<longleftrightarrow>
     (\<forall>h ki. map_get (ks_cache s) h = Some ki \<longleftrightarrow> (\<exists>r \<in> set (ks_rows s). kr_hash r = h \<and> loadable alive t r \<and> info_of r = ki))"

definition key_store_ok :: "(time \<Rightarrow> time \<Rightarrow> bool) \<Rightarrow> time \<Rightarrow> key_store \<Rightarrow> bool" where
  "key_store_ok alive now s \<longleftrightarrow> rows_ok (ks_rows s)
     \<and> (ks_ttl s = zero_time \<or> (\<exists>t \<le> now. agrees_since alive t s))"

definition timely :: "time \<Rightarrow> key_op \<Rightarrow> bool" where
  "timely now op = (case op of KResolve ok t during after raw \<Rightarrow> during \<le> now | _ \<Rightarrow> True)"

lemma rows_ok_map:
  assumes "rows_ok rows" "\<And>r. r \<in> set rows \<Longrightarrow> kr_id (f r) = kr_id r" "\<And>r. r \<in> set rows \<Longrightarrow> kr_hash (f r) = kr_hash r"
  shows "rows_ok (map f rows)"
proof -
  have "map (kr_id \<circ> f) rows = map kr_id rows" "map (kr_hash \<circ> f) rows = map kr_hash rows" using assms(2,3) by auto
  then show ?thesis using assms(1) by (simp only: rows_ok_def map_map)
qed

lemma rows_ok_filter: "rows_ok rows \<Longrightarrow> rows_ok (filter P rows)"
  by (simp add: rows_ok_def distinct_map_filter)

lemma rows_ok_hash: "rows_ok rows \<Longrightarrow> r \<in> set rows \<Longrightarrow> r' \<in> set rows \<Longrightarrow> kr_hash r = kr_hash r' \<Longrightarrow> r = r'"
  by (auto simp: rows_ok_def distinct_map inj_on_def)

text \<open>One row gets a hash that no other row has.\<close>

lemma rows_ok_rehash:
  assumes "rows_ok rows" "\<And>r. kr_id (f r) = kr_id r" "\<And>r. kr_id r = i \<Longrightarrow> Q r \<Longrightarrow> kr_hash (f r) = h"
    and "\<And>r. r \<in> set rows \<Longrightarrow> kr_id r \<noteq> i \<Longrightarrow> kr_hash r \<noteq> h"
  shows "rows_ok (map (\<lambda>r. if kr_id r = i \<and> Q r then f r else r) rows)"
  using assms(1,4)
proof (induction rows)
  case (Cons r rows)
  have ids: "map (kr_id \<circ> (\<lambda>r. if kr_id r = i \<and> Q r then f r else r)) rows = map kr_id rows" for rows
    using assms(2) by auto
  let ?g = "\<lambda>r. if kr_id r = i \<and> Q r then f r else r"
  have "kr_hash (?g r') \<noteq> kr_hash (?g r)" if "r' \<in> set rows" for r'
    using Cons.prems that assms(3) by (auto simp: rows_ok_def) (metis image_eqI)+
  then show ?case using Cons ids [of "r # rows"] by (auto simp: rows_ok_def) (metis image_eqI)+
qed (simp add: rows_ok_def)

lemma load_keys_spec:
  assumes "rows_ok rows"
  shows "map_get (load_keys alive t rows) h = Some ki \<longleftrightarrow> (\<exists>r \<in> set rows. kr_hash r = h \<and> loadable alive t r \<and> info_of r = ki)"
proof -
  have "map_get (fold (\<lambda>r m. map_put (kr_hash r) (info_of r) m) rs m) h = Some ki
      \<longleftrightarrow> (\<exists>r \<in> set rs. kr_hash r = h \<and> info_of r = ki) \<or> (h \<notin> kr_hash ` set rs \<and> map_get m h = Some ki)"
    if "distinct (map kr_hash rs)" for rs m
    using that
  proof (induction rs arbitrary: m)
    case (Cons r rs)
    then show ?case by (auto simp: gomap_simps simp del: map_of_eq_Some_iff)
  qed simp
  moreover have "distinct (map kr_hash (filter (loadable alive t) rows))" using assms by (simp add: rows_ok_def distinct_map_filter)
  ultimately show ?thesis by (auto simp: load_keys_def)
qed

text \<open>What an operation leaves: the store as it was, a table with its indexes and no fresh cache, or the same keys with other counters.\<close>

lemma keys_ok_invalid: "rows_ok (ks_rows s) \<Longrightarrow> key_store_ok alive now (invalidate s)"
  by (simp add: key_store_ok_def invalidate_def)

lemma update_keys_ok:
  assumes "key_store_ok alive now s" "rows_ok (map (\<lambda>r. if P r then f r else r) (ks_rows s))"
  shows "key_store_ok alive now (snd (update_keys ok P f s))"
  using assms by (simp add: update_keys_def keys_ok_invalid)

lemma edit_keys_ok:
  assumes "key_store_ok alive now s" "\<And>r. kr_id (f r) = kr_id r" "\<And>r. kr_hash (f r) = kr_hash r"
  shows "key_store_ok alive now (snd (update_keys ok P f s))"
  using assms by (intro update_keys_ok rows_ok_map) (auto simp: key_store_ok_def)

lemma create_keys_ok: "key_store_ok alive now s \<Longrightarrow> key_store_ok alive now (snd (create_key ok rnd t owner label perms ex rate d s))"
  by (auto simp: create_key_def Let_def keys_ok_invalid rows_ok_def key_store_ok_def list_ex_iff invalidate_def split: option.split)

lemma rotate_keys_ok:
  assumes "key_store_ok alive now s" "\<And>r. kr_id (f r) = kr_id r" "\<And>r. kr_hash (f r) = kr_hash r"
  shows "key_store_ok alive now (snd (rotate_row ok rnd i f s))"
proof (cases "generate_token rnd")
  case (Some rp)
  obtain raw prefix where rp: "rp = (raw, prefix)" by (cases rp)
  let ?P = "\<lambda>r. kr_id r = i \<and> \<not> kr_revoked r" and ?f = "\<lambda>r. f (r\<lparr>kr_hash := hash_token raw, kr_prefix := prefix, kr_last := None\<rparr>)"
  let ?ok = "ok \<and> \<not> (list_ex ?P (ks_rows s) \<and> list_ex (\<lambda>r. kr_id r \<noteq> i \<and> kr_hash r = hash_token raw) (ks_rows s))"
  have "key_store_ok alive now (snd (update_keys ?ok ?P ?f s))"
  proof (cases "?ok \<and> list_ex ?P (ks_rows s)")
    case True
    then have "\<And>r. r \<in> set (ks_rows s) \<Longrightarrow> kr_id r \<noteq> i \<Longrightarrow> kr_hash r \<noteq> hash_token raw" by (auto simp: list_ex_iff)
    then have "rows_ok (map (\<lambda>r. if ?P r then ?f r else r) (ks_rows s))"
      using assms by (intro rows_ok_rehash [where h = "hash_token raw"]) (auto simp: key_store_ok_def)
    then show ?thesis using assms(1) by (rule update_keys_ok [rotated])
  qed (use assms(1) in \<open>auto simp: update_keys_def\<close>)
  then show ?thesis using assms(1) by (simp add: rotate_row_def Some rp Let_def case_prod_beta split: option.split)
qed (simp add: rotate_row_def assms)

lemma ensure_keys_ok: "key_store_ok alive now s \<Longrightarrow> key_store_ok alive now (snd (ensure_internal ok rnd t s))"
proof (cases "generate_token rnd")
  case (Some rp)
  obtain raw prefix where rp: "rp = (raw, prefix)" by (cases rp)
  assume s: "key_store_ok alive now s"
  let ?f = "\<lambda>r. r\<lparr>kr_hash := hash_token raw, kr_prefix := prefix, kr_scope := scope_internal, kr_revoked := False\<rparr>"
  have "rows_ok (map (\<lambda>r. if kr_id r = internal_key_id \<and> True then ?f r else r) (ks_rows s))"
    if "\<not> list_ex (\<lambda>r. kr_id r \<noteq> internal_key_id \<and> kr_hash r = hash_token raw) (ks_rows s)"
    using s that by (intro rows_ok_rehash [where h = "hash_token raw"]) (auto simp: key_store_ok_def list_ex_iff)
  then show ?thesis using s
    by (auto simp: ensure_internal_def Some rp Let_def key_store_ok_def rows_ok_def list_ex_iff invalidate_def)
qed (simp add: ensure_internal_def)

lemma revoke_owned_keys_ok: "key_store_ok alive now s \<Longrightarrow> key_store_ok alive now (snd (revoke_owned_by ok owner s))"
proof -
  assume s: "key_store_ok alive now s"
  let ?P = "\<lambda>r. kr_owner r = owner \<and> \<not> kr_revoked r \<and> kr_id r \<noteq> internal_key_id"
  have "rows_ok (map (\<lambda>r. if ?P r then r\<lparr>kr_revoked := True\<rparr> else r) (ks_rows s))" using s by (intro rows_ok_map) (auto simp: key_store_ok_def)
  moreover have "map (\<lambda>r. if ?P r then r\<lparr>kr_revoked := True\<rparr> else r) (ks_rows s) = ks_rows s" if "length (filter ?P (ks_rows s)) = 0"
    using that by (auto simp: filter_empty_conv intro: map_idI)
  ultimately show ?thesis using s by (auto simp: revoke_owned_by_def Let_def keys_ok_invalid)
qed

lemma cleanup_keys_ok: "key_store_ok alive now s \<Longrightarrow> key_store_ok alive now (snd (cleanup_keys ok ended s))"
proof -
  assume s: "key_store_ok alive now s"
  define P :: "key_row \<Rightarrow> bool" where "P = (\<lambda>r. kr_id r \<noteq> internal_key_id \<and> kr_scope r \<noteq> scope_internal
    \<and> (case kr_expires r of None \<Rightarrow> False | Some e \<Rightarrow> ended cleanup_grace_days e))"
  have "filter (\<lambda>r. \<not> P r) (ks_rows s) = ks_rows s" if "length (filter P (ks_rows s)) = 0"
    using that by (auto simp: filter_empty_conv intro: filter_True)
  moreover have "rows_ok (filter (\<lambda>r. \<not> P r) (ks_rows s))" using s by (simp add: key_store_ok_def rows_ok_filter)
  ultimately show ?thesis using s unfolding cleanup_keys_def P_def [symmetric] Let_def by (auto simp: keys_ok_invalid)
qed

lemma agrees_touch:
  assumes "\<And>r. info_of (f r) = info_of r" "\<And>r. kr_hash (f r) = kr_hash r" "\<And>r. loadable alive t (f r) = loadable alive t r"
  shows "agrees_since alive t (s\<lparr>ks_rows := map f (ks_rows s)\<rparr>) = agrees_since alive t s"
  by (simp add: agrees_since_def assms)

lemma touch_keys_ok:
  assumes "key_store_ok alive now s"
  shows "key_store_ok alive now (touch_key ok t i s)"
proof -
  define f :: "key_row \<Rightarrow> key_row" where "f = (\<lambda>r. if kr_id r = i then r\<lparr>kr_uses := kr_uses r + 1,
      kr_last := (case kr_last r of None \<Rightarrow> Some t | Some l \<Rightarrow> if l < t - minute then Some t else Some l)\<rparr> else r)"
  have f: "info_of (f r) = info_of r" "kr_hash (f r) = kr_hash r" "kr_id (f r) = kr_id r" "loadable alive u (f r) = loadable alive u r" for r u
    by (simp_all add: f_def info_of_def loadable_def)
  have "rows_ok (map f (ks_rows s))" using assms f by (intro rows_ok_map) (auto simp: key_store_ok_def)
  then have "key_store_ok alive now (s\<lparr>ks_rows := map f (ks_rows s)\<rparr>)"
    using assms by (auto simp: key_store_ok_def agrees_touch [OF f(1,2,4)])
  then show ?thesis using assms by (simp add: touch_key_def flip: f_def)
qed

lemma refresh_keys_ok: "key_store_ok alive now s \<Longrightarrow> t \<le> now \<Longrightarrow> key_store_ok alive now (snd (refresh_keys ok alive t s))"
  using load_keys_spec by (fastforce simp: refresh_keys_def store_loaded_def key_store_ok_def agrees_since_def)

lemma resolve_state:
  "snd (resolve_key ok alive t1 t2 t3 raw s) = (if raw = [] \<or> t1 < ks_ttl s then s else snd (refresh_keys ok alive t2 s))"
  by (simp add: resolve_key_def Let_def split: option.split)

lemma key_step_ok: "key_store_ok alive now s \<Longrightarrow> timely now op \<Longrightarrow> key_store_ok alive now (snd (key_step alive op s))"
  by (cases op)
    (auto simp: timely_def create_with_permissions_def create_domain_scoped_def rotate_key_def rotate_with_expiry_def revoke_key_def delete_key_def
      set_key_active_def set_rate_per_min_def update_permissions_def resolve_state
      intro!: create_keys_ok rotate_keys_ok ensure_keys_ok revoke_owned_keys_ok cleanup_keys_ok touch_keys_ok edit_keys_ok refresh_keys_ok
        keys_ok_invalid simp: rows_ok_filter key_store_ok_def [of alive now s])

interpretation keys: machine "key_step alive" "\<lambda>op _. timely now op" "key_store_ok alive now" for alive now
  by unfold_locales (rule key_step_ok)

lemma granted_all: "(\<forall>x \<in> set xs. P x) \<Longrightarrow> granted step (\<lambda>x _. P x) xs s"
  by (induction xs arbitrary: s) auto

section \<open>The cache is invisible\<close>

definition key_lives :: "time \<Rightarrow> key_row \<Rightarrow> bool" where
  "key_lives t r \<longleftrightarrow> \<not> kr_revoked r \<and> kr_active r \<and> (case kr_expires r of None \<Rightarrow> True | Some e \<Rightarrow> t < e)"

definition table_lookup :: "time \<Rightarrow> string \<Rightarrow> key_row list \<Rightarrow> key_info option" where
  "table_lookup t raw rows =
     (if raw = [] then None
      else case find (\<lambda>r. kr_hash r = hash_token raw) rows of
        None \<Rightarrow> None | Some r \<Rightarrow> if key_lives t r then Some (info_of r) else None)"

lemma table_lookup_iff:
  assumes "rows_ok rows" "raw \<noteq> []"
  shows "table_lookup t raw rows = Some ki \<longleftrightarrow> (\<exists>r \<in> set rows. kr_hash r = hash_token raw \<and> key_lives t r \<and> info_of r = ki)"
proof (cases "find (\<lambda>r. kr_hash r = hash_token raw) rows")
  case None
  then have "\<not> (\<exists>r \<in> set rows. kr_hash r = hash_token raw)" by (auto simp: find_None_iff)
  then show ?thesis using None by (auto simp: table_lookup_def)
next
  case (Some r)
  then have "r \<in> set rows" "kr_hash r = hash_token raw" by (auto simp: find_Some_iff)
  then have "x \<in> set rows \<and> kr_hash x = hash_token raw \<longleftrightarrow> x = r" for x using rows_ok_hash [OF assms(1)] by metis
  then have "(\<exists>x \<in> set rows. kr_hash x = hash_token raw \<and> Q x) \<longleftrightarrow> Q r" for Q by metis
  then show ?thesis using Some assms(2) by (simp add: table_lookup_def)
qed

lemma resolve_agrees:
  assumes rows: "rows_ok (ks_rows s)" and s': "s' = (if t1 < ks_ttl s then s else snd (refresh_keys True alive t2 s))"
    and agrees: "agrees_since alive t s'" and alive: "\<And>e t. t < e \<Longrightarrow> alive e t" and t: "t \<le> t3"
  shows "fst (resolve_key True alive t1 t2 t3 raw s) = table_lookup t3 raw (ks_rows s)"
proof (cases "raw = []")
  case False
  have same: "ks_rows s' = ks_rows s" by (simp add: s' refresh_keys_def store_loaded_def)
  have "fst (resolve_key True alive t1 t2 t3 raw s) = Some ki \<longleftrightarrow>
      map_get (ks_cache s') (hash_token raw) = Some ki \<and> (case ki_expires ki of None \<Rightarrow> True | Some e \<Rightarrow> t3 < e)" for ki
    by (auto simp: resolve_key_def False Let_def s' simp del: map_of_eq_Some_iff split: option.splits)
  moreover have "loadable alive t r \<and> (case ki_expires (info_of r) of None \<Rightarrow> True | Some e \<Rightarrow> t3 < e) \<longleftrightarrow> key_lives t3 r" for r
    using alive t by (cases "kr_expires r") (auto simp: loadable_def key_lives_def info_of_def)
  ultimately have "fst (resolve_key True alive t1 t2 t3 raw s) = Some ki \<longleftrightarrow>
      (\<exists>r \<in> set (ks_rows s). kr_hash r = hash_token raw \<and> key_lives t3 r \<and> info_of r = ki)" for ki
    using agrees unfolding agrees_since_def same by metis
  then show ?thesis using table_lookup_iff [OF rows False] by (metis option.exhaust)
qed (simp add: resolve_key_def table_lookup_def)

lemma resolve_run:
  assumes rows: "rows_ok rows" and ops: "\<forall>op \<in> set ops. timely t1 op" and clock: "zero_time \<le> t1" "t1 \<le> t3" "t2 \<le> t3"
    and alive: "\<And>e t. t < e \<Longrightarrow> alive e t"
  shows "fst (resolve_key True alive t1 t2 t3 raw (snd (run_ops (key_step alive) ops (new_key_store rows)))) =
     table_lookup t3 raw (ks_rows (snd (run_ops (key_step alive) ops (new_key_store rows))))"
proof -
  let ?s = "snd (run_ops (key_step alive) ops (new_key_store rows))"
  have "key_store_ok alive t1 (new_key_store rows)" using rows by (simp add: key_store_ok_def new_key_store_def)
  then have ok: "key_store_ok alive t1 ?s" using ops by (intro keys.run_keeps granted_all)
  then have ok': "rows_ok (ks_rows ?s)" by (simp add: key_store_ok_def)
  show ?thesis
  proof (cases "t1 < ks_ttl ?s")
    case True
    then obtain t where "t \<le> t1" "agrees_since alive t ?s" using ok clock(1) by (auto simp: key_store_ok_def)
    then show ?thesis using True clock(2) ok' alive by (intro resolve_agrees [where t = t]) auto
  next
    case False
    have "agrees_since alive t2 (snd (refresh_keys True alive t2 ?s))"
      using load_keys_spec [OF ok'] by (simp add: agrees_since_def refresh_keys_def store_loaded_def del: map_of_eq_Some_iff)
    then show ?thesis using False clock(3) ok' alive by (intro resolve_agrees [where t = t2]) auto
  qed
qed


definition demo_row :: key_row where
  "demo_row = \<lparr>kr_id = ''a'', kr_label = ''bot'', kr_prefix = ''vp_1'', kr_hash = hash_token ''vp_1'', kr_scope = scope_external, kr_created = 0,
     kr_last = None, kr_revoked = False, kr_perms = marshal_string superuser, kr_expires = Some hour, kr_owner = [], kr_rate = 0, kr_uses = 0,
     kr_active = True, kr_domain = []\<rparr>"


section \<open>Revoked is dead\<close>

definition dead_hash :: "string \<Rightarrow> key_store \<Rightarrow> bool" where
  "dead_hash h s \<longleftrightarrow> (\<forall>r \<in> set (ks_rows s). kr_hash r = h \<longrightarrow> kr_revoked r)"

fun drawn :: "key_op \<Rightarrow> string option" where
  "drawn (KCreate ok rnd now owner label perms ex rate) = rnd"
| "drawn (KCreateScoped ok rnd now owner label d perms ex rate) = rnd"
| "drawn (KEnsure ok rnd now) = rnd"
| "drawn (KRotate ok rnd i) = rnd"
| "drawn (KRotateExpiry ok rnd i ex) = rnd"
| "drawn _ = None"

text \<open>The operation does not happen to draw a token with the hash.\<close>

definition draws_other :: "string \<Rightarrow> key_op \<Rightarrow> bool" where
  "draws_other h op = (case generate_token (drawn op) of None \<Rightarrow> True | Some (raw, _) \<Rightarrow> hash_token raw \<noteq> h)"

lemma dead_invalidate [simp]: "dead_hash h (invalidate s) = dead_hash h s"
  by (simp add: dead_hash_def invalidate_def)

lemma update_dead:
  assumes "dead_hash h s" "\<And>r. P r \<Longrightarrow> kr_hash (f r) = h \<Longrightarrow> kr_hash r = h \<and> (kr_revoked r \<longrightarrow> kr_revoked (f r))"
  shows "dead_hash h (snd (update_keys ok P f s))"
  using assms by (auto simp: update_keys_def dead_hash_def invalidate_def)

lemma rotate_dead:
  assumes "dead_hash h s" "case generate_token rnd of None \<Rightarrow> True | Some (raw, _) \<Rightarrow> hash_token raw \<noteq> h" "\<And>r. kr_hash (f r) = kr_hash r"
  shows "dead_hash h (snd (rotate_row ok rnd i f s))"
proof (cases "generate_token rnd")
  case (Some rp)
  then show ?thesis using assms
    by (cases rp) (auto simp: rotate_row_def Let_def case_prod_beta split: option.split intro!: update_dead)
qed (simp add: rotate_row_def assms(1))

lemma dead_step: "dead_hash h s \<Longrightarrow> draws_other h op \<Longrightarrow> dead_hash h (snd (key_step alive op s))"
proof (cases op)
  case (KEnsure ok rnd now)
  assume "dead_hash h s" "draws_other h op"
  then show ?thesis by (auto simp: KEnsure draws_other_def ensure_internal_def dead_hash_def Let_def invalidate_def split: option.split)
next
  case (KRevokeOwned ok owner)
  assume "dead_hash h s"
  then show ?thesis by (auto simp: KRevokeOwned revoke_owned_by_def dead_hash_def Let_def invalidate_def)
next
  case (KCleanup ok ended)
  assume "dead_hash h s"
  then show ?thesis by (auto simp: KCleanup cleanup_keys_def dead_hash_def Let_def invalidate_def)
next
  case (KTouch ok now i)
  assume "dead_hash h s"
  then show ?thesis by (auto simp: KTouch touch_key_def dead_hash_def)
next
  case (KResolve ok t1 t2 t3 raw)
  assume "dead_hash h s"
  then show ?thesis by (auto simp: KResolve resolve_state refresh_keys_def store_loaded_def dead_hash_def)
qed (auto simp: draws_other_def create_with_permissions_def create_domain_scoped_def create_key_def rotate_key_def rotate_with_expiry_def
    revoke_key_def delete_key_def set_key_active_def set_rate_per_min_def update_permissions_def Let_def dead_hash_def [of h s]
    dead_hash_def [of h "ks_rows_update _ _"] split: option.split intro!: update_dead rotate_dead)

interpretation dead: machine "key_step alive" "\<lambda>op _. draws_other h op" "dead_hash h" for alive h
  by unfold_locales (rule dead_step)

lemma revoke_kills:
  assumes "rows_ok (ks_rows s)" "fst (revoke_key ok i s) = None" "r \<in> set (ks_rows s)" "kr_id r = i"
  shows "dead_hash (kr_hash r) (snd (revoke_key ok i s))"
proof -
  have "r' = r" if "r' \<in> set (ks_rows s)" "kr_hash r' = kr_hash r" for r' using that assms rows_ok_hash by blast
  then show ?thesis using assms(2,4) by (auto simp: revoke_key_def update_keys_def dead_hash_def invalidate_def split: if_splits)
qed



section \<open>The system key\<close>

text \<open>Nothing but EnsureInternal touches the row of the system key, except its counters.\<close>

definition internal_rows :: "key_store \<Rightarrow> key_row list" where
  "internal_rows s = map (\<lambda>r. r\<lparr>kr_uses := 0, kr_last := None\<rparr>) (filter (\<lambda>r. kr_id r = internal_key_id) (ks_rows s))"

lemma internal_map:
  "(\<And>r. kr_id (f r) = kr_id r) \<Longrightarrow> (\<And>r. kr_id r = internal_key_id \<Longrightarrow> (f r)\<lparr>kr_uses := 0, kr_last := None\<rparr> = r\<lparr>kr_uses := 0, kr_last := None\<rparr>)
     \<Longrightarrow> map (\<lambda>r. r\<lparr>kr_uses := 0, kr_last := None\<rparr>) (filter (\<lambda>r. kr_id r = internal_key_id) (map f rows)) =
         map (\<lambda>r. r\<lparr>kr_uses := 0, kr_last := None\<rparr>) (filter (\<lambda>r. kr_id r = internal_key_id) rows)"
  by (induction rows) auto

lemma internal_update:
  assumes "\<And>r. kr_id (f r) = kr_id r" "\<And>r. P r \<Longrightarrow> kr_id r \<noteq> internal_key_id"
  shows "internal_rows (snd (update_keys ok P f s)) = internal_rows s"
proof -
  let ?f = "\<lambda>r. if P r then f r else r"
  have "map (\<lambda>r. r\<lparr>kr_uses := 0, kr_last := None\<rparr>) (filter (\<lambda>r. kr_id r = internal_key_id) (map ?f (ks_rows s))) = internal_rows s"
    unfolding internal_rows_def by (rule internal_map) (use assms in auto)
  then show ?thesis by (simp add: update_keys_def internal_rows_def invalidate_def)
qed

lemma internal_filter: "(\<And>r. kr_id r = internal_key_id \<Longrightarrow> P r) \<Longrightarrow>
    filter (\<lambda>r. kr_id r = internal_key_id) (filter P rows) = filter (\<lambda>r. kr_id r = internal_key_id) rows"
  by (induction rows) auto

lemma length_hash_token: "length (hash_token raw) = 64"
  by (simp add: hash_token_def length_sha256)

lemma internal_create: "internal_rows (snd (create_key ok rnd t owner label perms ex rate d s)) = internal_rows s"
proof -
  have "take 24 (hash_token raw) \<noteq> internal_key_id" for raw
  proof
    assume "take 24 (hash_token raw) = internal_key_id"
    then have "length (take 24 (hash_token raw)) = length internal_key_id" by simp
    then show False by (simp add: length_hash_token internal_key_id_def)
  qed
  then show ?thesis by (auto simp: create_key_def internal_rows_def Let_def invalidate_def split: option.split)
qed

lemma internal_rotate:
  assumes "\<And>r. kr_id (f r) = kr_id r"
  shows "internal_rows (snd (rotate_row ok rnd i f s)) = internal_rows s"
  using assms by (auto simp: rotate_row_def Let_def case_prod_beta intro!: internal_update split: option.split)

lemma system_key_protected:
  assumes "\<And>ok rnd t. op \<noteq> KEnsure ok rnd t"
  shows "internal_rows (snd (key_step alive op s)) = internal_rows s"
proof (cases op)
  case (KRevokeOwned ok owner)
  let ?P = "\<lambda>r. kr_owner r = owner \<and> \<not> kr_revoked r \<and> kr_id r \<noteq> internal_key_id"
  show ?thesis using internal_map [of "\<lambda>r. if ?P r then r\<lparr>kr_revoked := True\<rparr> else r" "ks_rows s"]
    by (auto simp: KRevokeOwned revoke_owned_by_def internal_rows_def Let_def invalidate_def)
next
  case (KTouch ok now i)
  show ?thesis using internal_map [of "\<lambda>r. if kr_id r = i then r\<lparr>kr_uses := kr_uses r + 1,
      kr_last := (case kr_last r of None \<Rightarrow> Some now | Some l \<Rightarrow> if l < now - minute then Some now else Some l)\<rparr> else r" "ks_rows s"]
    by (simp add: KTouch touch_key_def internal_rows_def)
next
  case (KDelete ok i)
  then show ?thesis by (auto simp: delete_key_def internal_rows_def invalidate_def internal_filter simp del: filter_filter)
next
  case (KCleanup ok ended)
  then show ?thesis by (auto simp: cleanup_keys_def internal_rows_def invalidate_def internal_filter Let_def simp del: filter_filter)
next
  case (KResolve ok t1 t2 t3 raw)
  then show ?thesis by (auto simp: resolve_state refresh_keys_def store_loaded_def internal_rows_def)
qed (use assms in \<open>auto simp: create_with_permissions_def create_domain_scoped_def internal_create rotate_key_def rotate_with_expiry_def internal_rotate
    revoke_key_def set_key_active_def set_rate_per_min_def update_permissions_def intro!: internal_update\<close>)

section \<open>Where revocation is late\<close>

text \<open>
  refresh queries the table and stores the answer later under the lock. When a Revoke falls between the two, its invalidation is
  overwritten: the cache holds the revoked key, counts as fresh, and Resolve admits the key for thirty seconds after Revoke returned.
\<close>

lemma revoke_lost_in_refresh:
  assumes "rows_ok (ks_rows s)" "r \<in> set (ks_rows s)" "kr_hash r = hash_token raw" "raw \<noteq> []" "loadable alive t r" "kr_expires r = None"
    and "kr_id r \<noteq> internal_key_id" "t1 < t + 30 * second"
  defines "loaded \<equiv> load_keys alive t (ks_rows s)"
  defines "s' \<equiv> store_loaded loaded t (snd (revoke_key True (kr_id r) s))"
  shows "fst (revoke_key True (kr_id r) s) = None \<and> fst (resolve_key True alive t1 t2 t3 raw s') = Some (info_of r)"
proof -
  have "map_get loaded (hash_token raw) = Some (info_of r)" unfolding loaded_def using load_keys_spec [OF assms(1)] assms(2-5) by blast
  moreover have "ki_expires (info_of r) = None" using assms(6) by (simp add: info_of_def)
  ultimately show ?thesis using assms(2,4,7,8)
    by (auto simp: resolve_key_def s'_def store_loaded_def revoke_key_def update_keys_def list_ex_iff Let_def simp del: map_of_eq_Some_iff)
qed

text \<open>While the database does not answer, Resolve falls back on the cache whatever its age, and a key revoked before is admitted.\<close>

lemma stale_key_while_database_fails:
  assumes "map_get (ks_cache s) (hash_token raw) = Some ki" "raw \<noteq> []" "ki_expires ki = None" "ks_ttl s \<le> t1"
  shows "fst (resolve_key False alive t1 t2 t3 raw (snd (revoke_key True i s))) = Some ki"
  using assms by (auto simp: resolve_key_def refresh_keys_def revoke_key_def update_keys_def invalidate_def Let_def simp del: map_of_eq_Some_iff)

end
