(* ===== verification/Api_Gate.thy ===== *)
theory Api_Gate
  imports Api_Keys
begin

text \<open>
  What a key may call and what it may hand out: the table of routes and their capabilities (src/cmd/vayupress/api_capabilities.go), the
  identity of a caller (src/internal/auth/apikey_identity.go), and the handlers that issue and change keys
  (src/cmd/vayupress/admin_os_apikeys.go, with keyLifecycleAuthorized of handlers_auth.go). Parsing an expiry is package time's: an
  argument. A request is the values the handlers read of it.
\<close>

section \<open>Routes and capabilities\<close>

record cap_rule =
  cr_prefix :: string
  cr_section :: string
  cr_action :: string

definition cap_rule_of :: "string \<times> string \<times> string \<Rightarrow> cap_rule" where
  "cap_rule_of x = (case x of (p, s, a) \<Rightarrow> \<lparr>cr_prefix = p, cr_section = s, cr_action = a\<rparr>)"

definition capability_rules :: "cap_rule list" where
  "capability_rules = map cap_rule_of [
    (''/api/v1/articles'', ''posts'', []), (''/api/v1/queue'', ''posts'', []), (''/api/v1/admin/articles'', ''posts'', []),
    (''/api/v1/admin/schedule'', ''posts'', []), (''/api/v1/collections'', ''posts'', []), (''/api/v1/admin/collections'', ''posts'', []),
    (''/api/v1/admin/ai'', ''posts'', []), (''/os/api/posts'', ''posts'', []), (''/os/api/pages'', ''posts'', []),
    (''/os/api/editor'', ''posts'', []), (''/os/api/feed'', ''posts'', []), (''/api/v1/admin/comments'', ''comments'', []),
    (''/api/v1/admin/webmentions'', ''comments'', []), (''/os/api/comments'', ''comments'', []),
    (''/os/api/messages/export.csv'', ''comments'', ''export''), (''/os/api/messages'', ''comments'', []),
    (''/api/v1/admin/members/export.csv'', ''members'', ''export''), (''/api/v1/admin/members'', ''members'', []),
    (''/api/v1/admin/tiers'', ''members'', []), (''/api/v1/admin/newsletter'', ''members'', []),
    (''/os/api/members/export.csv'', ''members'', ''export''), (''/os/api/members'', ''members'', []),
    (''/os/api/newsletter/export.csv'', ''members'', ''export''), (''/os/api/newsletter'', ''members'', []),
    (''/os/api/orders'', ''members'', []), (''/api/v1/analytics/export'', ''analytics'', ''export''),
    (''/api/v1/analytics'', ''analytics'', []), (''/api/v1/admin/analytics'', ''analytics'', []), (''/api/v1/sites/'', ''analytics'', []),
    (''/os/api/analytics/export'', ''analytics'', ''export''), (''/os/api/analytics'', ''analytics'', []),
    (''/os/api/activity'', ''analytics'', []), (''/api/v1/admin/media'', ''media'', []), (''/api/v1/admin/embed'', ''media'', []),
    (''/api/v1/admin/diagram'', ''media'', []), (''/os/api/media'', ''media'', []), (''/os/api/embed'', ''media'', []),
    (''/os/api/diagram'', ''media'', []), (''/api/v1/admin/theme/apply'', ''themes'', ''apply''),
    (''/api/v1/admin/theme/preview'', ''themes'', ''apply''), (''/api/v1/admin/theme'', ''themes'', []),
    (''/admin/theme/export'', ''themes'', ''export''), (''/admin/theme'', ''themes'', []), (''/os/api/theme'', ''themes'', []),
    (''/os/api/branding'', ''design'', []), (''/os/api/website'', ''design'', []), (''/os/api/ads'', ''design'', []),
    (''/os/api/tools'', ''plugins'', ''install''), (''/api/v1/vcb/'', ''plugins'', ''read''), (''/os/api/domains'', ''domains'', []),
    (''/os/api/provision'', ''domains'', []), (''/os/vayumail'', ''mail'', []), (''/os/api/vayumail'', ''mail'', []),
    (''/os/talk'', ''mail'', []), (''/os/api/talk'', ''mail'', []), (''/os/api/backup/export'', ''backup'', ''export''),
    (''/os/api/backup'', ''backup'', []), (''/admin/backup'', ''backup'', []), (''/api/v1/admin/users'', ''settings'', []),
    (''/api/v1/admin/webhooks'', ''settings'', []), (''/api/v1/admin/redirects'', ''settings'', []),
    (''/api/v1/admin/email-templates'', ''settings'', []), (''/api/v1/admin/i18n'', ''settings'', []),
    (''/api/v1/admin/outbox'', ''settings'', []), (''/api/v1/admin/trace'', ''settings'', []),
    (''/api/v1/admin/resource'', ''settings'', []), (''/api/v1/admin/sandbox'', ''settings'', []),
    (''/api/v1/admin/search'', ''settings'', []), (''/api/v1/admin/mode'', ''settings'', []), (''/api/v1/admin/fault'', ''settings'', []),
    (''/api/v1/admin/timeline'', ''settings'', []), (''/api/v1/admin/severity'', ''settings'', []),
    (''/api/v1/admin/budgets'', ''settings'', []), (''/api/v1/stream'', ''settings'', []), (''/admin/api/updates'', ''settings'', []),
    (''/os/api/update/apply'', ''settings'', ''apply''), (''/os/api/update/rollback'', ''settings'', ''apply''),
    (''/os/api/update'', ''settings'', []), (''/os/api/apikeys'', ''settings'', []), (''/os/api/credentials'', ''settings'', []),
    (''/os/api/mode'', ''settings'', []), (''/os/api/budgets'', ''settings'', []), (''/os/api/cmd-index'', ''settings'', []),
    (''/admin/mode'', ''settings'', []), (''/admin/fault'', ''settings'', []), (''/admin/replay'', ''settings'', []),
    (''/admin/benchmark'', ''settings'', []), (''/admin/cache-purge'', ''settings'', []), (''/admin/vacuum'', ''settings'', []),
    (''/admin/search'', ''settings'', []), (''/debug/pprof'', ''settings'', [])]"

definition sorted_cap_rules :: "cap_rule list" where
  "sorted_cap_rules = sort_key (\<lambda>r. - int (length (cr_prefix r))) capability_rules"

definition action_for_method :: "string \<Rightarrow> string" where
  "action_for_method m =
     (if m = ''GET'' \<or> m = ''HEAD'' then ''read'' else if m = ''DELETE'' then ''delete'' else ''write'')"

definition rule_action :: "cap_rule \<Rightarrow> string \<Rightarrow> string" where
  "rule_action r m = (if cr_action r = [] then action_for_method m else cr_action r)"

fun first_rule :: "string \<Rightarrow> string \<Rightarrow> cap_rule list \<Rightarrow> (string \<times> string) option" where
  "first_rule m path [] = None"
| "first_rule m path (r # rs) =
     (if has_prefix path (cr_prefix r) then Some (cr_section r, rule_action r m) else first_rule m path rs)"

definition capability_of :: "string \<Rightarrow> string \<Rightarrow> (string \<times> string) option" where
  "capability_of m path = first_rule m path sorted_cap_rules"

definition key_may_call :: "key_info \<Rightarrow> string \<Rightarrow> string \<Rightarrow> bool" where
  "key_may_call ki m path =
     (if ki_domain ki \<noteq> [] \<and> (has_prefix path ''/api/v1/analytics'' \<or> has_prefix path ''/os/api/analytics'' \<or> has_prefix path ''/api/v1/admin/analytics'')
      then False
      else case capability_of m path of
        None \<Rightarrow> ki_superuser ki
      | Some (s, a) \<Rightarrow> ki_can ki s a)"

datatype gate_answer = Served | NoIdentity | Insufficient string

definition require_api_permission :: "key_info option \<Rightarrow> string \<Rightarrow> string \<Rightarrow> gate_answer" where
  "require_api_permission who m path =
     (case who of
        None \<Rightarrow> NoIdentity
      | Some ki \<Rightarrow>
          if key_may_call ki m path then Served
          else Insufficient (case capability_of m path of None \<Rightarrow> ''a full-access key (unmapped route)'' | Some (s, a) \<Rightarrow> cap_text s a))"

section \<open>The caller\<close>

definition bootstrap_key_id :: string where "bootstrap_key_id = ''bootstrap-static''"

definition presented_api_key :: "string \<Rightarrow> string \<Rightarrow> string" where
  "presented_api_key x_api_key authorization =
     (if x_api_key = [] then (if has_prefix authorization ''Bearer '' then drop 7 authorization else authorization) else x_api_key)"

definition resolve_extra ::
  "(string \<Rightarrow> key_info option) option \<Rightarrow> (string \<Rightarrow> bool) option \<Rightarrow> string \<Rightarrow> key_info option" where
  "resolve_extra resolve verify key =
     (if key = [] then None
      else case resolve of
        Some f \<Rightarrow> f key
      | None \<Rightarrow>
          (case verify of
             None \<Rightarrow> None
           | Some v \<Rightarrow> if v key then Some (superuser_key_info ''legacy-verified'' ''Issued key (legacy verifier)'' scope_external) else None))"

definition resolve_valid_api_key ::
  "string \<Rightarrow> (string \<Rightarrow> key_info option) option \<Rightarrow> (string \<Rightarrow> bool) option \<Rightarrow> string \<Rightarrow> string \<Rightarrow> key_info option" where
  "resolve_valid_api_key static resolve verify x_api_key authorization =
     (let key = presented_api_key x_api_key authorization in
      if key = [] then None
      else if static \<noteq> [] \<and> key = static then Some (superuser_key_info bootstrap_key_id ''Bootstrap API_KEY'' scope_external)
      else resolve_extra resolve verify key)"

definition may_access_domain :: "key_info option \<Rightarrow> string \<Rightarrow> bool" where
  "may_access_domain who d = (case who of None \<Rightarrow> True | Some ki \<Rightarrow> if ki_domain ki = [] then True else ki_domain ki = d)"

text \<open>A signed-in user is given by id and role; a caller by key has none.\<close>

definition key_lifecycle_authorized :: "(string \<times> string) option \<Rightarrow> key_info option \<Rightarrow> bool" where
  "key_lifecycle_authorized user who =
     (case user of
        Some (_, role) \<Rightarrow> role = ''admin''
      | None \<Rightarrow> (case who of Some ki \<Rightarrow> ki_superuser ki | None \<Rightarrow> False))"

section \<open>The handlers\<close>

datatype key_answer =
    NotInitialised | GrantExceedsKey | BadExpiry | PastExpiry | BadRateAnswer | Forbidden | StoreFailed key_error
  | Minted string string | Rotated string | KeyChanged

fun grant_requested :: "string list \<Rightarrow> permissions \<Rightarrow> permissions" where
  "grant_requested [] p = p"
| "grant_requested (c # cs) p =
     (case parse_capability (trim_space c) of (s, a, ok) \<Rightarrow> grant_requested cs (if ok then grant s a p else p))"

definition handle_create ::
  "(string \<Rightarrow> time option) \<Rightarrow> (string \<times> string) option \<Rightarrow> key_info option \<Rightarrow> string \<Rightarrow> string list \<Rightarrow> string \<Rightarrow> int
     \<Rightarrow> bool \<Rightarrow> string option \<Rightarrow> time \<Rightarrow> time \<Rightarrow> key_store option \<Rightarrow> key_answer \<times> key_store option" where
  "handle_create parse user who label caps expires rate ok rnd checked created store =
     (case store of
        None \<Rightarrow> (NotInitialised, None)
      | Some s \<Rightarrow>
          (let label = (if trim_space label = [] then ''API key'' else trim_space label); perms = grant_requested caps new_permissions in
           if (case who of None \<Rightarrow> False | Some ki \<Rightarrow> \<not> ki_superuser ki \<and> \<not> covers (ki_perms ki) perms) then (GrantExceedsKey, store)
           else if trim_space expires \<noteq> [] \<and> parse (trim_space expires) = None then (BadExpiry, store)
           else if trim_space expires \<noteq> [] \<and> \<not> checked < the (parse (trim_space expires)) then (PastExpiry, store)
           else if \<not> valid_rate rate then (BadRateAnswer, store)
           else (let ex = (if trim_space expires = [] then None else parse (trim_space expires));
                     owner = (case user of None \<Rightarrow> [] | Some (i, _) \<Rightarrow> i) in
                 case create_with_permissions ok rnd created owner label perms ex rate s of
                   (Inl e, s') \<Rightarrow> (StoreFailed e, Some s')
                 | (Inr (view, raw), s') \<Rightarrow> (Minted (kv_id view) raw, Some s'))))"

text \<open>The id of a change is taken from the body or else the query; of a rotation, from the query first.\<close>

definition handle_rotate ::
  "(string \<times> string) option \<Rightarrow> key_info option \<Rightarrow> string \<Rightarrow> string \<Rightarrow> bool \<Rightarrow> string option \<Rightarrow> key_store option \<Rightarrow> key_answer \<times> key_store option" where
  "handle_rotate user who query body ok rnd store =
     (case store of
        None \<Rightarrow> (NotInitialised, None)
      | Some s \<Rightarrow>
          if \<not> key_lifecycle_authorized user who then (Forbidden, store)
          else (case rotate_key ok rnd (if trim_space query = [] then trim_space body else trim_space query) s of
                  (Inl e, s') \<Rightarrow> (StoreFailed e, Some s')
                | (Inr raw, s') \<Rightarrow> (Rotated raw, Some s')))"

definition api_key_mutate ::
  "(string \<times> string) option \<Rightarrow> key_info option \<Rightarrow> string \<Rightarrow> string \<Rightarrow> (string \<Rightarrow> key_store \<Rightarrow> key_error option \<times> key_store)
     \<Rightarrow> key_store option \<Rightarrow> key_answer \<times> key_store option" where
  "api_key_mutate user who query body f store =
     (case store of
        None \<Rightarrow> (NotInitialised, None)
      | Some s \<Rightarrow>
          if \<not> key_lifecycle_authorized user who then (Forbidden, store)
          else (case f (if trim_space body = [] then trim_space query else trim_space body) s of
                  (Some e, s') \<Rightarrow> (StoreFailed e, Some s')
                | (None, s') \<Rightarrow> (KeyChanged, Some s')))"

definition handle_rate ::
  "(string \<times> string) option \<Rightarrow> key_info option \<Rightarrow> string \<Rightarrow> int \<Rightarrow> bool \<Rightarrow> key_store option \<Rightarrow> key_answer \<times> key_store option" where
  "handle_rate user who body rate ok store =
     (case store of
        None \<Rightarrow> (NotInitialised, None)
      | Some s \<Rightarrow>
          if \<not> key_lifecycle_authorized user who then (Forbidden, store)
          else (case set_rate_per_min ok (trim_space body) rate s of
                  (Some e, s') \<Rightarrow> (StoreFailed e, Some s')
                | (None, s') \<Rightarrow> (KeyChanged, Some s')))"

section \<open>The most specific rule decides\<close>

lemma has_prefix_take: "has_prefix s p \<longleftrightarrow> take (length p) s = p"
  by (induction s p rule: has_prefix.induct) auto

lemma first_rule_cases:
  "first_rule m path rs =
     (case find (\<lambda>r. has_prefix path (cr_prefix r)) rs of None \<Rightarrow> None | Some r \<Rightarrow> Some (cr_section r, rule_action r m))"
  by (induction rs) simp_all

lemma find_sorted_least:
  fixes f :: "'a \<Rightarrow> 'b :: linorder"
  shows "sorted (map f rs) \<Longrightarrow> find P rs = Some r \<Longrightarrow> r \<in> set rs \<and> P r \<and> (\<forall>q \<in> set rs. P q \<longrightarrow> f r \<le> f q)"
  by (induction rs) (auto split: if_splits)

text \<open>A rule of the table that names the route, and no longer prefix does.\<close>

definition most_specific :: "string \<Rightarrow> cap_rule \<Rightarrow> bool" where
  "most_specific path r \<longleftrightarrow> r \<in> set capability_rules \<and> has_prefix path (cr_prefix r)
     \<and> (\<forall>q \<in> set capability_rules. has_prefix path (cr_prefix q) \<longrightarrow> length (cr_prefix q) \<le> length (cr_prefix r))"

lemma capability_longest:
  fixes m path
  shows "case capability_of m path of
     None \<Rightarrow> \<not> (\<exists>r \<in> set capability_rules. has_prefix path (cr_prefix r))
   | Some c \<Rightarrow> (\<exists>r. most_specific path r \<and> c = (cr_section r, rule_action r m))"
proof (cases "find (\<lambda>r. has_prefix path (cr_prefix r)) sorted_cap_rules")
  case None
  then have "\<forall>r \<in> set capability_rules. \<not> has_prefix path (cr_prefix r)" by (simp add: find_None_iff sorted_cap_rules_def)
  then show ?thesis by (simp add: capability_of_def first_rule_cases None)
next
  case (Some r)
  have "sorted (map (\<lambda>r. - int (length (cr_prefix r))) sorted_cap_rules)" by (simp add: sorted_cap_rules_def)
  from find_sorted_least [OF this Some] have "most_specific path r" by (simp add: sorted_cap_rules_def most_specific_def)
  then show ?thesis by (auto simp: capability_of_def first_rule_cases Some)
qed

definition site_key_on_analytics :: "key_info \<Rightarrow> string \<Rightarrow> bool" where
  "site_key_on_analytics ki path \<longleftrightarrow> ki_domain ki \<noteq> [] \<and>
     (has_prefix path ''/api/v1/analytics'' \<or> has_prefix path ''/os/api/analytics'' \<or> has_prefix path ''/api/v1/admin/analytics'')"

lemma key_may_call_cases:
  "key_may_call ki m path \<longleftrightarrow> \<not> site_key_on_analytics ki path \<and>
     (ki_superuser ki \<or> (case capability_of m path of None \<Rightarrow> False | Some (s, a) \<Rightarrow> has_cap (ki_perms ki) s a))"
  by (auto simp: key_may_call_def site_key_on_analytics_def ki_superuser_def ki_can_def is_superuser_def has_cap_iff split: option.split)


section \<open>A key hands out no more than it has\<close>

lemma perms_ok_requested [simp]: "perms_ok p \<Longrightarrow> perms_ok (grant_requested cs p)"
  by (induction cs arbitrary: p) (simp_all add: case_prod_beta)

lemma find_new: "P r \<Longrightarrow> \<forall>q \<in> set rows. \<not> P q \<Longrightarrow> find P (rows @ [r]) = Some r"
  by (induction rows) auto

lemma minted_row:
  assumes "handle_create parse user who label caps expires rate ok rnd t1 t2 (Some s) = (Minted i raw, Some s')"
  obtains r where "ks_rows s' = ks_rows s @ [r]" "kr_hash r = hash_token raw" "kr_perms r = marshal_string (grant_requested caps new_permissions)"
    "kr_scope r = scope_external" "kr_domain r = []" "\<forall>q \<in> set (ks_rows s). kr_hash q \<noteq> hash_token raw"
    "\<And>ki. who = Some ki \<Longrightarrow> ki_superuser ki \<or> covers (ki_perms ki) (grant_requested caps new_permissions)"
  using assms
  by (auto simp: handle_create_def create_with_permissions_def create_key_def Let_def list_ex_iff invalidate_def
      split: option.splits prod.splits sum.splits if_splits)

text \<open>
  C13. A key cannot mint a key that reaches further (admin_os_apikeys.go, handleOSAPIKeyCreate with the store and keyMayCall). When a caller
  authenticated by a key that is bound to no site is given a new key, whatever capabilities, expiry and rate were asked for, the identity
  the table holds for the new token may call only routes that the caller's own key may call.
\<close>

theorem minted_key_reaches_no_further:
  assumes minted: "handle_create parse user (Some ki) label caps expires rate ok rnd t1 t2 (Some s) = (Minted i raw, Some s')"
    and caller: "ki_domain ki = []" and new: "table_lookup t raw (ks_rows s') = Some ki'"
  shows "key_may_call ki' m path \<longrightarrow> key_may_call ki m path"
proof -
  let ?p = "grant_requested caps new_permissions"
  obtain r where r: "ks_rows s' = ks_rows s @ [r]" "kr_hash r = hash_token raw" "kr_perms r = marshal_string ?p" "kr_scope r = scope_external"
    "kr_domain r = []" "\<forall>q \<in> set (ks_rows s). kr_hash q \<noteq> hash_token raw" "ki_superuser ki \<or> covers (ki_perms ki) ?p"
    using minted_row [OF minted] by metis
  have "find (\<lambda>q. kr_hash q = hash_token raw) (ks_rows s @ [r]) = Some r"
    using r(2,6) by (intro find_new)
  then have ki': "ki' = info_of r" using new by (auto simp: table_lookup_def r(1) split: if_splits)
  have perms: "perms_ok ?p" by simp
  have has: "has_cap (ki_perms ki') x a = has_cap ?p x a" for x a
    using stored_grants [OF perms] by (simp add: ki' info_of_def r(3))
  have scope: "ki_scope ki' \<noteq> scope_internal" by (simp add: ki' info_of_def r(4) scope_external_def scope_internal_def)
  show ?thesis
  proof (cases "ki_superuser ki")
    case True
    then show ?thesis by (simp add: key_may_call_cases site_key_on_analytics_def caller)
  next
    case False
    then have sub: "has_cap ?p x a \<Longrightarrow> has_cap (ki_perms ki) x a" for x a using r(7) covers_inclusion [OF perms] by blast
    have "ki_superuser ki'\<Longrightarrow> ki_superuser ki"
      using scope has [of section_all action_all] sub [of section_all action_all] by (auto simp: ki_superuser_def is_superuser_def has_cap_iff)
    then show ?thesis using has sub
      by (auto simp: key_may_call_cases site_key_on_analytics_def caller split: option.splits)
  qed
qed

definition demo_caller :: "string \<Rightarrow> permissions \<Rightarrow> key_info" where
  "demo_caller d p = \<lparr>ki_id = ''k'', ki_label = [], ki_scope = scope_external, ki_owner = [], ki_perms = p, ki_expires = None, ki_rate = 0, ki_domain = d\<rparr>"

text \<open>Minting with the capabilities asked for, on an empty table.\<close>

lemma demo_mint:
  assumes "ki_superuser (demo_caller d p) \<or> covers p (grant_requested caps new_permissions)"
  defines "raw \<equiv> token_prefix @ hex_encode ''r''"
  obtains s' ki' where
    "handle_create (\<lambda>_. None) None (Some (demo_caller d p)) [] caps [] 0 True (Some ''r'') 0 0 (Some (new_key_store [])) = (Minted (take 24 (hash_token raw)) raw, Some s')"
    "table_lookup t raw (ks_rows s') = Some ki'" "ki_domain ki' = []" "ki_perms ki' = parse_permissions (marshal_string (grant_requested caps new_permissions))"
proof -
  have empty: "trim_space [] = []" by code_simp
  define s' where "s' = snd (create_with_permissions True (Some ''r'') 0 [] ''API key'' (grant_requested caps new_permissions) None 0 (new_key_store []))"
  have "handle_create (\<lambda>_. None) None (Some (demo_caller d p)) [] caps [] 0 True (Some ''r'') 0 0 (Some (new_key_store [])) = (Minted (take 24 (hash_token raw)) raw, Some s')"
    using assms(1)
    by (auto simp: handle_create_def empty demo_caller_def Let_def valid_rate_def s'_def create_with_permissions_def create_key_def generate_token_def
        new_key_store_def raw_def)
  moreover have "\<exists>ki'. table_lookup t raw (ks_rows s') = Some ki' \<and> ki_domain ki' = [] \<and> ki_perms ki' = parse_permissions (marshal_string (grant_requested caps new_permissions))"
    by (auto simp: s'_def create_with_permissions_def create_key_def generate_token_def new_key_store_def raw_def Let_def valid_rate_def invalidate_def
        table_lookup_def key_lives_def info_of_def token_prefix_def)
  ultimately show ?thesis using that by blast
qed

theorem minted_key_reaches_no_further_witness:
  "\<exists>i raw s' ki'. handle_create (\<lambda>_. None) None (Some (demo_caller [] superuser)) [] [''posts:read''] [] 0 True (Some ''r'') 0 0 (Some (new_key_store []))
      = (Minted i raw, Some s') \<and> table_lookup 0 raw (ks_rows s') = Some ki'
      \<and> (key_may_call ki' ''POST'' ''/api/v1/articles'' \<longrightarrow> key_may_call (demo_caller [] superuser) ''POST'' ''/api/v1/articles'')"
proof -
  have "ki_superuser (demo_caller [] superuser)"
    by (simp add: demo_caller_def ki_superuser_def is_superuser_def has_exact_def superuser_def get_or_def)
  then obtain s' ki' where m: "handle_create (\<lambda>_. None) None (Some (demo_caller [] superuser)) [] [''posts:read''] [] 0 True (Some ''r'') 0 0 (Some (new_key_store []))
      = (Minted (take 24 (hash_token (token_prefix @ hex_encode ''r''))) (token_prefix @ hex_encode ''r''), Some s')"
    "table_lookup 0 (token_prefix @ hex_encode ''r'') (ks_rows s') = Some ki'"
    using demo_mint [where d = "[]" and p = superuser and caps = "[''posts:read'']" and t = 0] by metis
  show ?thesis using m minted_key_reaches_no_further [OF m(1) _ m(2)] by (auto simp: demo_caller_def)
qed

section \<open>The site of a key is not inherited\<close>

text \<open>
  The handler compares the capabilities and nothing else. A key bound to one site that may change settings and read its figures can mint a
  key bound to none; the new key reads the install-wide analytics, which keyMayCall refuses to the key that minted it.
\<close>

lemma capability_of_create: "capability_of ''POST'' ''/os/api/apikeys/create'' = Some (''settings'', ''write'')"
  by code_simp

lemma capability_of_analytics: "capability_of ''GET'' ''/api/v1/analytics/overview'' = Some (''analytics'', ''read'')"
  by code_simp

lemma site_key_mints_global_key:
  defines "p \<equiv> grant ''settings'' ''write'' (grant ''analytics'' ''read'' [])"
  defines "caller \<equiv> demo_caller ''d1'' p"
  shows "key_may_call caller ''POST'' ''/os/api/apikeys/create'' \<and> \<not> key_may_call caller ''GET'' ''/api/v1/analytics/overview''
    \<and> (\<exists>i raw s' ki'. handle_create (\<lambda>_. None) None (Some caller) [] [''analytics:read''] [] 0 True (Some ''r'') 0 0 (Some (new_key_store []))
          = (Minted i raw, Some s') \<and> table_lookup t raw (ks_rows s') = Some ki' \<and> key_may_call ki' ''GET'' ''/api/v1/analytics/overview'')"
proof -
  have has: "has_cap p ''settings'' ''write''" "has_cap (grant ''analytics'' ''read'' []) ''analytics'' ''read''"
    by (simp_all add: p_def has_cap_iff has_exact_grant valid_section_def valid_action_def all_sections_def all_actions_def)
  have req: "grant_requested [''analytics:read''] new_permissions = grant ''analytics'' ''read'' []"
  proof -
    have "parse_capability (trim_space ''analytics:read'') = (''analytics'', ''read'', True)" by code_simp
    then show ?thesis by (simp add: new_permissions_def)
  qed
  have "has_cap (grant ''analytics'' ''read'' []) x a \<Longrightarrow> has_cap p x a" for x a
    by (auto simp: p_def has_cap_iff has_exact_grant)
  then have "covers p (grant_requested [''analytics:read''] new_permissions)" unfolding req by (simp add: covers_inclusion)
  then obtain s' ki' where m: "handle_create (\<lambda>_. None) None (Some caller) [] [''analytics:read''] [] 0 True (Some ''r'') 0 0 (Some (new_key_store []))
      = (Minted (take 24 (hash_token (token_prefix @ hex_encode ''r''))) (token_prefix @ hex_encode ''r''), Some s')"
    "table_lookup t (token_prefix @ hex_encode ''r'') (ks_rows s') = Some ki'" "ki_domain ki' = []"
    "ki_perms ki' = parse_permissions (marshal_string (grant_requested [''analytics:read''] new_permissions))"
    using demo_mint [where d = "''d1''" and p = p and caps = "[''analytics:read'']" and t = t] unfolding caller_def by metis
  have "has_cap (ki_perms ki') ''analytics'' ''read''" unfolding m(4) req using stored_grants has(2) by simp
  then have "key_may_call ki' ''GET'' ''/api/v1/analytics/overview''"
    by (simp add: key_may_call_cases site_key_on_analytics_def m(3) capability_of_analytics)
  moreover have "key_may_call caller ''POST'' ''/os/api/apikeys/create''"
    using has(1) by (simp add: key_may_call_cases site_key_on_analytics_def capability_of_create caller_def demo_caller_def)
  moreover have "\<not> key_may_call caller ''GET'' ''/api/v1/analytics/overview''"
    by (simp add: key_may_call_cases site_key_on_analytics_def caller_def demo_caller_def)
  ultimately show ?thesis using m(1,2) by blast
qed

end
