(* ===== verification/Spec2Isabelle.thy ===== *)
theory Spec2Isabelle
  imports Severity Mode Fault Budget Flow_Inbox Write_Queue Outbox Talk_Engine Sign_In Op_Rules Clearance Sovereign Prefilter Api_Gate
begin

text \<open>
  A verification development of VayuPress, a self-hosted publishing server written in Go.

  The program is one process around one SQLite database. A content change is a job in the write
  queue; a worker applies it in a transaction that also writes its events to the outbox; a relay
  dispatches the events to the in-process bus and to the inbox of the automation engine (vayuflow),
  whose flows then run within declared limits. Beside this path stand the runtime mode machine with
  its journal, the fault escalator and the governance budgets that move the mode; the doors (lockout of
  accounts, throttles, API keys and what they may call); the private chat (vayutalk); and the layers of
  the shield in front of public requests (vayushield). This development models those parts, function by
  function, and proves what they promise; the rest of the server is listed at the end.

  \<^bold>\<open>Theories and sources\<close> (paths under src/internal/ unless said otherwise).
  \<^item> Vayu_Prelude: Go's time values and durations with their saturation and wrap-around, maps, and
    what the code uses of packages strings and strconv. Civil_Time: the civil calendar of package
    time and the timestamp layouts, with the lemmas that their text orders as the instants do.
  \<^item> Severity (severity/severity.go), Mode (mode/mode.go, mode/journal.go), Fault (fault/fault.go,
    fault/escalation.go), Budget (budget/budget.go, budget/actuator.go): the levels, the mode manager
    with its transition table, hooks and journal, the injector and escalator, the error budgets and the
    actuator that acts on them through the mode manager.
  \<^item> Account_Lock (auth/accountlock.go): the per-account lockout.
  \<^item> Flow_Cron, Flow_Condition, Flow_Budget, Flow_Doc, Flow_Store, Flow_Runs, Flow_Runner, Flow_Inbox
    (vayuflow/): schedules, conditions, ceilings, the flow document with its capabilities and owner
    roles, the table of flows, the run trail, the effect boundary with the five actions and Execute, the
    inbox with its drainer, and the minute tick.
  \<^item> Tag_Rules (tagrules/tagrules.go): keys, display and cleaning of tags over rune strings.
  \<^item> Content_Store (db/tx.go, db/article_tags.go and the transactions in queue/queue.go): articles,
    tag membership, versions and outbox as one record of tables; transactions as functions on it.
  \<^item> Retry: the retry policy shared by queue and outbox, as a locale that both interpret.
  \<^item> Write_Queue (queue/queue.go, queue/writer.go, the reaper and the sweep of db/db.go, the single
    replay of cmd/vayupress/handlers_console.go).
  \<^item> Outbox (outbox/outbox.go and the bridge in cmd/vayupress/main.go).
  \<^item> Machine: runs of operations with outputs, and the locales of invariants, refinement and caps that
    the in-memory services interpret. Talk_Store, Talk_Tokens, Talk_Hub, Talk_Engine (vayuos/vayutalk/):
    envelopes, bearer tokens, live streams, and the engine with its interleavings.
  \<^item> Mail_Throttle (vayuos/mail/auththrottle.go, connlimit.go) and Sign_In (the bridge AuthUser of
    cmd/vayupress/vayuos.go and the connect of the chat): the doors that share one lockout.
  \<^item> Go_Bytes: SHA-256, HMAC, hexadecimal and base64url of the standard library, checked on test vectors.
    Api_Perms (apikeys/permissions.go, keyinfo.go), Api_Keys (apikeys/apikeys.go), Api_Gate
    (cmd/vayupress/api_capabilities.go, auth/apikey_identity.go, the handlers of admin_os_apikeys.go):
    grant sets, the table of keys with its cache, the routes a key may call and the minting of keys.
  \<^item> Rate_Limit (vayushield/resilience/), Op_Rules (vayushield/oprules/), Policy (vayushield/policy/),
    Prefilter (vayushield/prefilter/), Sovereign (vayushield/sovereign/), Brain (vayushield/brain/),
    Calibrate (vayushield/calibrate/), Sig_Cache (vayushield/sigcache/), Challenge and Redeem
    (vayushield/challenge/), Clearance (Manager.VerifyPoW of vayushield/vayushield.go): the buckets and
    the jail, the operator's rules and networks, the sketch of heavy hitters, the public lane, reputation,
    the self-tuning, the cache of signatures, and proofs of work from the challenge to the session.

  \<^bold>\<open>How code is modelled.\<close> A struct is a record, a table is the list of its rows, an operation is a
  function from the state to its results and the new state, a loop is a recursion. Errors are values.
  Each statement on the database may fail: which do is an argument, so that the theorems hold whatever
  fails. Clocks, random ids, owners' roles, renderers, providers of pages, mail and models are
  arguments too, and a theorem about them quantifies over all. A column that holds JSON holds the
  value. Concurrency is modelled where a claim depends on it, as sequences of the statements of
  different callers; the goroutines and tickers that only call an operation again are left out.

  \<^bold>\<open>What is shown.\<close>
  \<^item> Mode: the journal written by a manager restores it; unforced histories are paths of the table;
    from every mode every mode can be reached. The escalator and the actuator move the mode only along
    the table, only to the targets of their rules, only when enabled, and once per cause.
  \<^item> Budgets: the pruned ledger reports what the full log of charges gives.
  \<^item> Lockout: at most five guesses on an account pass in fifteen minutes, whatever the order of calls;
    the wait doubles up to a day although the shift overflows.
  \<^item> Flows: a parsed schedule matches exactly what it denotes; an accepted condition evaluates to its
    meaning within depth and size bounds; the owner's floor is exact; the registry keeps its contract.
    A run writes and calls out at most what it recorded and declared; a dry run writes nothing; the Tor
    kill-switch stops all egress; a refused run touches nothing; one run per cause; the trail is
    faithful and bounded per hour; the drainer always makes progress; ticking twice a minute is harmless.
  \<^item> Content: a transaction changes content and events together or not at all, from well-formed tables
    to well-formed tables; the tag index follows the post; keys of tags are canonical and cleaning keeps
    the rarest.
  \<^item> Queue: every outcome of a job; drafts stay out of the public cache; the pending jobs stay within
    the hard limit; poison jobs are contained; the retention sweep terminates and removes exactly the
    old rows; four attempts, then dead.
  \<^item> Outbox: an event takes effect once; the shutdown drain ends; a committed write reaches the bus and
    exactly one row of the flow inbox.
  \<^item> Chat: the store answers as a plain list of envelopes would; an unread message survives until its
    recipient acknowledges it or it expires, and however a send and a subscription interleave it reaches
    the new stream; nobody else acknowledges; the streams and tokens stay within their caps.
  \<^item> Doors: five guesses through all doors together; a guesser is slowed down and others are not; the
    connections counted are the open ones.
  \<^item> API keys: a grant set covers another exactly when it allows all the other allows; the stored
    envelope reads back; the cache of keys changes no answer; a revoked key stays dead; a key calls what
    the most specific rule of its route grants; a minted key reaches no further than its minter's.
  \<^item> Shield: no source passes more than its allowance; the jail keeps its sentences; a rule cannot be
    evaded by spelling; the networks of a policy do exactly what is written and the policy is right until
    the moment it names; a heavy hitter is shed at least at the rate of its excess; the lane never
    overfills; only suspects are punished; a hit of the cache is the last lookup; a small farm never
    loosens the thresholds; a challenge binds its terms; a session is good for its client and its time;
    one signature opens one session.
  Some lemmas show where the code does not do what it says. Queue and outbox: failed jobs and events wait
  for midnight because two layouts of a timestamp are compared as text, a failed read caches a draft, the
  reaper resets running jobs, two workers can take one job, a single replay ignores the poison limit. Keys:
  a revocation between the query and the store of a reload is lost for thirty seconds, a reload that fails
  leaves old keys valid, a key of one site mints a key of none. Shield: a proof of work whose signature is
  spelled with line breaks opens a session again and again, the sketch counts windows long past, any good
  signal pardons, an allow list whose last entry has ended lets everybody in, a rule on NaN is dead.

  \<^bold>\<open>Bounds.\<close> Timestamps are compared as text up to the year 9999, the range of the four-digit year;
  theorems that depend on it say so. The drain of the relay is given a number of passes, and one more
  than the due rows is proved enough. The retention loop is a total function, by the number of rows. The
  32-bit counters of the sketch do not wrap in fewer than two to the 31 calls, which its theorem asks for.
  Floating-point numbers of the shield are exact rationals; where a threshold is compared, the theorem is
  about the rational.

  \<^bold>\<open>Not modelled.\<close> HTTP handlers and the admin panel but for those named (glue around the packages),
  rendering and themes (their meaning is their look), analytics, the mail, PGP and Tor services (network
  protocols), the rest of the shield's manager with its scorer, fingerprints and feeds (floating-point
  weights and tables), the small state machines pace, resource, lifecycle and provenance, update, backup
  and sandbox (process and file control), members, payments, newsletter and settings (SQL around external
  services). The address, time and number parsers that the shield calls (net/netip, time.ParseInLocation,
  strconv.ParseFloat), the text comparisons of SQLite and the hash of passwords are arguments.
\<close>

text \<open>
  Four attempts. A write job and an outbox event that start with no retries survive three
  failures and are dead after the fourth, at whatever instants they fail.
\<close>

theorem four_attempts_then_dead:
  assumes "wj_status j \<in> {JobPending, JobProcessing}" "wj_retries j = 0" and "ob_status r = OutPending" "ob_retries r = 0"
    and "length ts \<le> 4"
  shows "(wj_status (fold (\<lambda>now j. job_after_error (wj_retries j) now j) ts j) \<in> {JobPending, JobProcessing} \<longleftrightarrow> length ts < 4)
    \<and> (ob_status (fold (\<lambda>now r. row_after_error msg (ob_retries r) now r) ts r) = OutPending \<longleftrightarrow> length ts < 4)"
proof -
  consider "length ts < 4" | "length ts = 4" using assms(5) by linarith
  then show ?thesis
  proof cases
    case 1
    then show ?thesis using jobq.four_attempts(1) [OF assms(1,2) 1] relayq.four_attempts(1) [OF assms(3,4) 1] by simp
  next
    case 2
    then show ?thesis using jobq.four_attempts(2) [OF assms(1,2) 2] relayq.four_attempts(2) [OF assms(3,4) 2] by simp
  qed
qed

theorem four_attempts_then_dead_witness:
  "wj_status (fold (\<lambda>now j. job_after_error (wj_retries j) now j) [1, 2, 3, 4] (fresh_job ''insert'' plain_article)) \<notin> {JobPending, JobProcessing}
   \<and> ob_status (fold (\<lambda>now r. row_after_error ''down'' (ob_retries r) now r) [1, 2, 3, 4] (demo_event 1 ''e1'')) \<noteq> OutPending"
  using four_attempts_then_dead [of "fresh_job ''insert'' plain_article" "demo_event 1 ''e1''" "[1, 2, 3, 4]" "''down''"]
  by (simp add: fresh_job_def demo_event_def)

end
